(* ===== verification/Prelude.thy ===== *)
theory Prelude
  imports Complex_Main "HOL-Library.Word" "HOL-Library.Sublist"
begin

text \<open>
  Shared vocabulary of the development: the machine integers of the C++ code, the
  result sum that stands for \<open>std::expected\<close>, the collections of facts that the
  components add to, and the generic lemmas on lists and words they share.
  Sizes of buffers and indices (\<open>std::size_t\<close>) are \<open>nat\<close> where the code only indexes
  with them, and \<open>64 word\<close> where it computes with them and could wrap.
\<close>

type_synonym u8 = "8 word"
type_synonym u16 = "16 word"
type_synonym u32 = "32 word"
type_synonym u64 = "64 word"

text \<open>Largest values of \<open>std::uint64_t\<close> and \<open>std::uint32_t\<close>, and the range of the signed 32- and 64-bit types.\<close>

abbreviation u64_max :: u64 where
  "u64_max \<equiv> - 1"

abbreviation u32_max :: u64 where
  "u32_max \<equiv> 0xFFFFFFFF"

abbreviation int32_min :: int where
  "int32_min \<equiv> - (2 ^ 31)"

abbreviation int32_max :: int where
  "int32_max \<equiv> 2 ^ 31 - 1"

abbreviation int64_max :: int where
  "int64_max \<equiv> 2 ^ 63 - 1"

section \<open>Collections\<close>

named_theorems word_nat \<open>facts that move goals about words to the natural numbers\<close>
named_theorems text_simps \<open>characteristic equations of the string operations\<close>
named_theorems scan_simps \<open>characteristic equations of the scanners\<close>

section \<open>Sums as \<open>std::expected\<close>\<close>

text \<open>The success test of a result, \<open>has_value()\<close>, and sequencing on success.\<close>

fun is_value :: "'e + 'a \<Rightarrow> bool" where
  "is_value (Inl _) = False"
| "is_value (Inr _) = True"

lemma is_value_iff: "is_value r \<longleftrightarrow> (\<exists>v. r = Inr v)"
  by (cases r) auto

lemma not_is_value_iff: "\<not> is_value r \<longleftrightarrow> (\<exists>e. r = Inl e)"
  by (cases r) auto

text \<open>
  Collecting a loop's results until the first error: the reference for every loop of the
  code that fills a vector and returns early with \<open>std::unexpected\<close>.
\<close>

fun collect :: "('a \<Rightarrow> 'e + 'b) \<Rightarrow> 'a list \<Rightarrow> 'e + 'b list" where
  "collect f [] = Inr []"
| "collect f (x # xs) =
     (case f x of
        Inl e \<Rightarrow> Inl e
      | Inr y \<Rightarrow> (case collect f xs of Inl e \<Rightarrow> Inl e | Inr ys \<Rightarrow> Inr (y # ys)))"

lemma collect_Inr: "collect f xs = Inr ys \<longleftrightarrow> list_all2 (\<lambda>x y. f x = Inr y) xs ys"
proof (induction xs arbitrary: ys)
  case Nil
  then show ?case by auto
next
  case (Cons x xs)
  show ?case by (auto simp: list_all2_Cons1 Cons.IH [symmetric] split: sum.splits)
qed

lemma collect_Inl:
  "collect f xs = Inl e \<longleftrightarrow>
     (\<exists>us x vs. xs = us @ x # vs \<and> (\<forall>u \<in> set us. is_value (f u)) \<and> f x = Inl e)"
proof (induction xs)
  case Nil
  then show ?case by simp
next
  case (Cons a xs)
  show ?case
  proof (cases "f a")
    case (Inl e')
    then have "(\<exists>us x vs. a # xs = us @ x # vs \<and> (\<forall>u \<in> set us. is_value (f u)) \<and> f x = Inl e)
        \<longleftrightarrow> e' = e"
      by (auto simp: Cons_eq_append_conv intro: exI [of _ "[]"])
    with Inl show ?thesis by simp
  next
    case (Inr y)
    then have "collect f (a # xs) = Inl e \<longleftrightarrow> collect f xs = Inl e"
      by (simp split: sum.split)
    also have "\<dots> \<longleftrightarrow> (\<exists>us x vs. xs = us @ x # vs \<and> (\<forall>u \<in> set us. is_value (f u)) \<and> f x = Inl e)"
      (is "_ \<longleftrightarrow> ?first xs")
      by (rule Cons.IH)
    also have "\<dots> \<longleftrightarrow> ?first (a # xs)"
    proof
      assume "?first xs"
      then obtain us x vs where "xs = us @ x # vs" "\<forall>u \<in> set us. is_value (f u)" "f x = Inl e"
        by blast
      then show "?first (a # xs)"
        using Inr by (intro exI [of _ "a # us"] exI [of _ x] exI [of _ vs]) simp
    next
      assume "?first (a # xs)"
      then obtain us x vs where "a # xs = us @ x # vs" "\<forall>u \<in> set us. is_value (f u)" "f x = Inl e"
        by blast
      then show "?first xs" using Inr by (cases us) auto
    qed
    finally show ?thesis .
  qed
qed

lemma collect_length: "collect f xs = Inr ys \<Longrightarrow> length ys = length xs"
  by (auto simp: collect_Inr dest: list_all2_lengthD)

lemma collect_map: "\<forall>x \<in> set xs. f x = Inr (g x) \<Longrightarrow> collect f xs = Inr (map g xs)"
  by (induction xs) auto

section \<open>Lists\<close>

lemma drop_eq_Cons_nth: "i < length xs \<Longrightarrow> drop i xs = xs ! i # drop (Suc i) xs"
  by (rule Cons_nth_drop_Suc [symmetric])

lemma take_append_exact [simp]: "take (length xs) (xs @ ys) = xs"
  by simp

lemma takeWhile_append_stop:
  assumes "\<forall>x \<in> set xs. P x" and "\<forall>y ys'. ys = y # ys' \<longrightarrow> \<not> P y"
  shows "takeWhile P (xs @ ys) = xs" and "dropWhile P (xs @ ys) = ys"
  using assms by (induction xs) (cases ys, auto)+

lemma prefix_take_iff: "prefix p s \<longleftrightarrow> take (length p) s = p"
  by (metis append_eq_conv_conj prefix_def take_is_prefix)

section \<open>Words\<close>

lemma unat_u64_max [word_nat]: "unat u64_max = 2 ^ 64 - 1"
proof -
  have "unat (- 1 :: u64) = unat (18446744073709551615 :: u64)"
    by (rule arg_cong [where f = unat]) simp
  then show ?thesis by simp
qed

lemma unat_u64_less: "unat (w :: u64) < 2 ^ 64"
proof -
  have "unat w < 2 ^ LENGTH(64)" by (rule unsigned_less)
  then show ?thesis by simp
qed

lemma unat_u64_bound: "unat (w :: u64) \<le> 2 ^ 64 - 1"
  using unat_u64_less [of w] by simp

lemma unat_sub_le [word_nat]: "(b :: 'a::len word) \<le> a \<Longrightarrow> unat (a - b) = unat a - unat b"
  by (rule unat_sub)

lemma unat_succ:
  assumes "(i :: 'a::len word) < j"
  shows "unat (i + 1) = Suc (unat i)"
proof -
  have "i \<noteq> - 1"
  proof
    assume "i = - 1"
    then show False using assms by (simp add: word_order.extremum_strict)
  qed
  then have "1 + i \<noteq> 0" by (simp add: add_eq_0_iff)
  then show ?thesis using unatSuc [of i] by (simp add: add.commute)
qed

lemma unat_of_nat_u64: "n < 2 ^ 64 \<Longrightarrow> unat (of_nat n :: u64) = n"
  by (simp add: unat_of_nat take_bit_nat_eq_self)

lemma uint_of_int_u64: "0 \<le> i \<Longrightarrow> i < 2 ^ 64 \<Longrightarrow> uint (of_int i :: u64) = i"
  by (simp add: unsigned_of_int take_bit_int_eq_self)

lemma of_nat_unat_u64 [simp]: "of_nat (unat (w :: u64)) = w"
  by simp

text \<open>
  The overflow guard the code writes twice, \<open>length > 0 && length - 1 > max - offset\<close>,
  means what it should: the last byte of the range does not fit in 64 bits.
\<close>

lemma range_guard_iff:
  fixes off len :: u64
  shows "(0 < len \<and> u64_max - off < len - 1) \<longleftrightarrow> 0 < unat len \<and> 2 ^ 64 \<le> unat off + unat len - 1"
proof (cases "len = 0")
  case True
  then show ?thesis by simp
next
  case False
  then have len: "unat (len - 1) = unat len - 1" and pos: "0 < unat len"
    by (simp_all add: unat_minus_one unat_gt_0)
  have "unat (u64_max - off) = 2 ^ 64 - 1 - unat off"
    by (simp add: unat_sub_le word_nat)
  then have "u64_max - off < len - 1 \<longleftrightarrow> 2 ^ 64 - 1 - unat off < unat len - 1"
    by (simp add: word_less_nat_alt len)
  then show ?thesis
    using False pos unat_u64_bound [of off] by (auto simp: word_gt_0)
qed

lemma unat_last_byte:
  fixes off len :: u64
  assumes "0 < unat len" and "unat off + unat len - 1 < 2 ^ 64"
  shows "unat (off + len - 1) = unat off + unat len - 1"
proof -
  have eq: "off + len - 1 = off + (len - 1)" by simp
  have l: "unat (len - 1) = unat len - 1"
    using assms(1) by (intro unat_minus_one) auto
  have "unat (off + (len - 1)) = unat off + unat (len - 1)"
    using assms l by (subst unat_add_lem [symmetric]) simp
  then show ?thesis using assms(1) l by (simp only: eq)
qed

end
