(* ===== verification/Text.thy ===== *)
theory Text
  imports Prelude
begin

text \<open>
  The parts of the C++ standard library's text handling that the code uses:
  searching in a \<open>std::string_view\<close>, \<open>std::to_string\<close> and \<open>std::from_chars\<close>.
  A \<open>char\<close> of HOL is a byte, so a \<^typ>\<open>string\<close> is exactly a C++ byte buffer.
  The locale \<open>decimal_codec\<close> is the contract the parsers rely on: what a printed
  number looks like and that reading it back gives the number and the unread rest.
\<close>

section \<open>Searching\<close>

fun index_of :: "char \<Rightarrow> string \<Rightarrow> nat option" where
  "index_of c [] = None"
| "index_of c (x # xs) = (if x = c then Some 0 else map_option Suc (index_of c xs))"

text \<open>\<open>s.find(c, start)\<close>; \<open>None\<close> is \<open>npos\<close>.\<close>

definition find_char :: "string \<Rightarrow> char \<Rightarrow> nat \<Rightarrow> nat option" where
  "find_char s c start = map_option ((+) start) (index_of c (drop start s))"

text \<open>\<open>s.find(pattern)\<close>.\<close>

fun find_sub :: "string \<Rightarrow> string \<Rightarrow> nat option" where
  "find_sub p [] = (if p = [] then Some 0 else None)"
| "find_sub p (x # xs) = (if prefix p (x # xs) then Some 0 else map_option Suc (find_sub p xs))"

text \<open>\<open>find_first_of\<close>, \<open>find_first_not_of\<close> and \<open>find_last_not_of\<close> with a set of bytes.\<close>

fun find_first_of :: "char list \<Rightarrow> string \<Rightarrow> nat option" where
  "find_first_of cs [] = None"
| "find_first_of cs (x # xs) =
     (if x \<in> set cs then Some 0 else map_option Suc (find_first_of cs xs))"

fun find_first_not_of :: "char list \<Rightarrow> string \<Rightarrow> nat option" where
  "find_first_not_of cs [] = None"
| "find_first_not_of cs (x # xs) =
     (if x \<notin> set cs then Some 0 else map_option Suc (find_first_not_of cs xs))"

definition find_last_not_of :: "char list \<Rightarrow> string \<Rightarrow> nat option" where
  "find_last_not_of cs s =
     map_option (\<lambda>i. length s - 1 - i) (find_first_not_of cs (rev s))"

lemma index_of_None: "index_of c s = None \<longleftrightarrow> c \<notin> set s"
  by (induction s) auto

lemma index_of_Some:
  "index_of c s = Some i \<longleftrightarrow> i < length s \<and> s ! i = c \<and> c \<notin> set (take i s)"
proof (induction s arbitrary: i)
  case Nil
  then show ?case by simp
next
  case (Cons x xs)
  then show ?case by (cases i) auto
qed

lemma index_of_append [text_simps]:
  "c \<notin> set xs \<Longrightarrow> index_of c (xs @ c # ys) = Some (length xs)"
  by (induction xs) auto

lemma find_char_None: "find_char s c start = None \<longleftrightarrow> c \<notin> set (drop start s)"
  by (simp add: find_char_def index_of_None)

lemma find_char_SomeD:
  assumes "find_char s c start = Some pos"
  shows "start \<le> pos" and "pos < length s" and "s ! pos = c"
    and "c \<notin> set (take (pos - start) (drop start s))"
  using assms by (auto simp: find_char_def index_of_Some)

lemma find_sub_Some:
  "find_sub p s = Some i \<Longrightarrow> i + length p \<le> length s \<and> prefix p (drop i s)"
proof (induction p s arbitrary: i rule: find_sub.induct)
  case (1 p)
  then show ?case by (auto split: if_splits)
next
  case (2 p x xs)
  show ?case
  proof (cases "prefix p (x # xs)")
    case True
    with 2 show ?thesis by (auto dest: prefix_length_le)
  next
    case False
    with 2 show ?thesis by auto
  qed
qed

lemma find_sub_None: "find_sub p s = None \<longleftrightarrow> \<not> sublist p s"
proof (induction p s rule: find_sub.induct)
  case (1 p)
  then show ?case by auto
next
  case (2 p x xs)
  then show ?case by (auto simp: sublist_Cons_right)
qed

lemma find_first_of_None: "find_first_of cs s = None \<longleftrightarrow> set s \<inter> set cs = {}"
  by (induction s) auto

section \<open>Decimal digits\<close>

definition is_digit :: "char \<Rightarrow> bool" where
  "is_digit c \<longleftrightarrow> 48 \<le> (of_char c :: nat) \<and> (of_char c :: nat) \<le> 57"

definition digit_char :: "nat \<Rightarrow> char" where
  "digit_char d = char_of (48 + d)"

definition digit_val :: "char \<Rightarrow> nat" where
  "digit_val c = of_char c - 48"

lemma digit_char_props [simp]:
  assumes "d < 10"
  shows "is_digit (digit_char d)" and "digit_val (digit_char d) = d"
  using assms by (auto simp: is_digit_def digit_char_def digit_val_def)

lemma is_digit_val: "is_digit c \<Longrightarrow> digit_char (digit_val c) = c \<and> digit_val c < 10"
  by (auto simp: is_digit_def digit_char_def digit_val_def)

text \<open>\<open>std::to_string\<close> of an unsigned integer: no leading zeros.\<close>

fun dec_string :: "nat \<Rightarrow> string" where
  "dec_string n =
     (if n < 10 then [digit_char n] else dec_string (n div 10) @ [digit_char (n mod 10)])"

declare dec_string.simps [simp del]

definition dec_val :: "string \<Rightarrow> nat" where
  "dec_val s = foldl (\<lambda>v c. 10 * v + digit_val c) 0 s"

lemma dec_val_snoc [simp]: "dec_val (s @ [c]) = 10 * dec_val s + digit_val c"
  by (simp add: dec_val_def)

lemma dec_string_ne [simp]: "dec_string n \<noteq> []"
  by (subst dec_string.simps) simp

lemma dec_string_digits: "\<forall>c \<in> set (dec_string n). is_digit c"
proof (induction n rule: dec_string.induct)
  case (1 n)
  then show ?case by (subst dec_string.simps) auto
qed

lemma dec_val_dec_string [simp]: "dec_val (dec_string n) = n"
proof (induction n rule: dec_string.induct)
  case (1 n)
  show ?case
  proof (cases "n < 10")
    case True
    then show ?thesis by (subst dec_string.simps) (simp add: dec_val_def)
  next
    case False
    with 1 have "dec_val (dec_string (n div 10)) = n div 10" by simp
    with False show ?thesis by (subst dec_string.simps) simp
  qed
qed

lemma dec_string_length:
  "n < 10 ^ k \<Longrightarrow> 0 < k \<Longrightarrow> length (dec_string n) \<le> k"
proof (induction n arbitrary: k rule: dec_string.induct)
  case (1 n)
  show ?case
  proof (cases "n < 10")
    case True
    then show ?thesis using "1.prems" by (subst dec_string.simps) simp
  next
    case False
    then obtain j where k: "k = Suc j" and j: "0 < j"
      using "1.prems" by (cases k; cases "k - 1") auto
    then have "length (dec_string (n div 10)) \<le> j"
      using "1.IH" [OF False, of j] "1.prems" by simp
    then show ?thesis using False k by (subst dec_string.simps) simp
  qed
qed

definition to_string_u64 :: "u64 \<Rightarrow> string" where
  "to_string_u64 w = dec_string (unat w)"

definition to_string_int :: "int \<Rightarrow> string" where
  "to_string_int i = (if i < 0 then CHR ''-'' # dec_string (nat (- i)) else dec_string (nat i))"

section \<open>\<open>std::from_chars\<close>\<close>

text \<open>
  The three outcomes of \<open>from_chars\<close> in base ten, with the unread rest of the input
  standing for the returned pointer. On \<open>Invalid_argument\<close> the pointer is the start of
  the input; on \<open>Out_of_range\<close> it is past the digits and the target is not written.
\<close>

datatype 'n from_chars =
    Parsed 'n string
  | Invalid_argument
  | Out_of_range string

definition from_chars_u64 :: "string \<Rightarrow> u64 from_chars" where
  "from_chars_u64 s =
     (let ds = takeWhile is_digit s; rest = dropWhile is_digit s
      in if ds = [] then Invalid_argument
         else if dec_val ds < 2 ^ 64 then Parsed (of_nat (dec_val ds)) rest
         else Out_of_range rest)"

text \<open>The \<open>int\<close> overload reads one optional minus sign and no plus sign.\<close>

definition from_chars_int :: "string \<Rightarrow> int from_chars" where
  "from_chars_int s =
     (let neg = (s \<noteq> [] \<and> hd s = CHR ''-'');
          body = (if neg then tl s else s);
          ds = takeWhile is_digit body; rest = dropWhile is_digit body;
          v = (if neg then - int (dec_val ds) else int (dec_val ds))
      in if ds = [] then Invalid_argument
         else if int32_min \<le> v \<and> v \<le> int32_max then Parsed v rest
         else Out_of_range rest)"

lemma from_chars_int_range: "from_chars_int s = Parsed v rest \<Longrightarrow> int32_min \<le> v \<and> v \<le> int32_max"
  by (auto simp: from_chars_int_def Let_def split: if_splits)

section \<open>The contract of a number printer and its reader\<close>

definition no_digit_first :: "string \<Rightarrow> bool" where
  "no_digit_first s \<longleftrightarrow> s = [] \<or> \<not> is_digit (hd s)"

lemma no_digit_first_simps [simp]:
  "no_digit_first []"
  "no_digit_first (c # s) \<longleftrightarrow> \<not> is_digit c"
  by (simp_all add: no_digit_first_def)

locale decimal_codec =
  fixes prn :: "'n \<Rightarrow> string"
    and rd :: "string \<Rightarrow> 'n from_chars"
    and printable :: "'n \<Rightarrow> bool"
  assumes prn_digits: "printable n \<Longrightarrow> \<forall>c \<in> set (prn n). is_digit c"
    and prn_ne: "printable n \<Longrightarrow> prn n \<noteq> []"
    and rd_prn: "printable n \<Longrightarrow> no_digit_first rest \<Longrightarrow> rd (prn n @ rest) = Parsed n rest"
begin

lemma rd_prn_all: "printable n \<Longrightarrow> rd (prn n) = Parsed n []"
  using rd_prn [of n "[]"] by simp

lemma prn_inj: "printable m \<Longrightarrow> printable n \<Longrightarrow> prn m = prn n \<Longrightarrow> m = n"
  by (metis rd_prn_all from_chars.inject(1))

lemma rd_prn_sep: "printable n \<Longrightarrow> \<not> is_digit c \<Longrightarrow> rd (prn n @ c # rest) = Parsed n (c # rest)"
  by (simp add: rd_prn)

lemma prn_free: "printable n \<Longrightarrow> \<not> is_digit c \<Longrightarrow> c \<notin> set (prn n)"
  using prn_digits [of n] by auto

end

lemma dec_string_span:
  assumes "no_digit_first rest"
  shows "takeWhile is_digit (dec_string n @ rest) = dec_string n"
    and "dropWhile is_digit (dec_string n @ rest) = rest"
  using takeWhile_append_stop [of "dec_string n" is_digit rest] dec_string_digits [of n] assms
  by (cases rest; simp)+

lemma from_chars_u64_dec:
  assumes "n < 2 ^ 64" and "no_digit_first rest"
  shows "from_chars_u64 (dec_string n @ rest) = Parsed (of_nat n) rest"
  using assms by (simp add: from_chars_u64_def dec_string_span)

lemma hd_dec_string_digit: "is_digit (hd (dec_string n))"
  using dec_string_digits [of n] by (cases "dec_string n") auto

lemma from_chars_int_dec:
  assumes "int n \<le> int32_max" and "no_digit_first rest"
  shows "from_chars_int (dec_string n @ rest) = Parsed (int n) rest"
proof -
  have "is_digit (hd (dec_string n @ rest))" by (simp add: hd_dec_string_digit)
  then have "hd (dec_string n @ rest) \<noteq> CHR ''-''"
    by (auto simp: is_digit_def)
  with assms show ?thesis by (simp add: from_chars_int_def dec_string_span)
qed

lemma from_chars_u64_to_string:
  "no_digit_first rest \<Longrightarrow> from_chars_u64 (to_string_u64 w @ rest) = Parsed w rest"
  using from_chars_u64_dec [of "unat w" rest] unat_u64_bound [of w] by (simp add: to_string_u64_def)

interpretation u64_codec: decimal_codec to_string_u64 from_chars_u64 "\<lambda>_. True"
  by unfold_locales
    (simp_all add: to_string_u64_def [of n for n] dec_string_digits
      from_chars_u64_to_string [unfolded to_string_u64_def])

interpretation int_codec: decimal_codec to_string_int from_chars_int "\<lambda>i. 0 \<le> i \<and> i \<le> int32_max"
  by unfold_locales (auto simp: to_string_int_def dec_string_digits from_chars_int_dec)

end
