(* ===== verification/Errors.thy ===== *)
theory Errors
  imports Text
begin

text \<open>
  \<open>include/grib/error.hpp\<close> and \<open>src/core/error.cpp\<close>: the error codes, the \<open>Error\<close>
  struct with its named constructors, and the classification of HTTP statuses.
  \<open>Result<T>\<close>, a \<open>std::expected<T, Error>\<close>, is the sum \<open>error + 'a\<close>.
\<close>

datatype error_code =
    Ok
  | NetworkError
  | RateLimited
  | ServerError
  | NotFound
  | InvalidRequest
  | ParseError
  | Timeout
  | DecodeError
  | FeedUnavailable
  | Unknown

fun error_code_to_string :: "error_code \<Rightarrow> string" where
  "error_code_to_string Ok = ''Ok''"
| "error_code_to_string NetworkError = ''NetworkError''"
| "error_code_to_string RateLimited = ''RateLimited''"
| "error_code_to_string ServerError = ''ServerError''"
| "error_code_to_string NotFound = ''NotFound''"
| "error_code_to_string InvalidRequest = ''InvalidRequest''"
| "error_code_to_string ParseError = ''ParseError''"
| "error_code_to_string Timeout = ''Timeout''"
| "error_code_to_string DecodeError = ''DecodeError''"
| "error_code_to_string FeedUnavailable = ''FeedUnavailable''"
| "error_code_to_string Unknown = ''Unknown''"

record error =
  err_code :: error_code
  err_message :: string
  err_http_status :: int
  err_detail :: string

type_synonym 'a result = "error + 'a"

definition err_is_ok :: "error \<Rightarrow> bool" where
  "err_is_ok e \<longleftrightarrow> err_code e = Ok"

definition err_ok :: error where
  "err_ok = \<lparr>err_code = Ok, err_message = [], err_http_status = 0, err_detail = []\<rparr>"

definition err_network :: "string \<Rightarrow> error" where
  "err_network msg =
     \<lparr>err_code = NetworkError, err_message = msg, err_http_status = 0, err_detail = []\<rparr>"

definition err_parse :: "string \<Rightarrow> error" where
  "err_parse msg =
     \<lparr>err_code = ParseError, err_message = msg, err_http_status = 0, err_detail = []\<rparr>"

definition err_not_found :: "string \<Rightarrow> error" where
  "err_not_found msg =
     \<lparr>err_code = NotFound, err_message = msg, err_http_status = 0, err_detail = []\<rparr>"

definition err_rate_limited :: "string \<Rightarrow> error" where
  "err_rate_limited msg =
     \<lparr>err_code = RateLimited, err_message = msg, err_http_status = 0, err_detail = []\<rparr>"

definition err_server :: "string \<Rightarrow> error" where
  "err_server msg =
     \<lparr>err_code = ServerError, err_message = msg, err_http_status = 0, err_detail = []\<rparr>"

definition err_invalid_request :: "string \<Rightarrow> error" where
  "err_invalid_request msg =
     \<lparr>err_code = InvalidRequest, err_message = msg, err_http_status = 0, err_detail = []\<rparr>"

definition err_timeout :: "string \<Rightarrow> error" where
  "err_timeout msg =
     \<lparr>err_code = Timeout, err_message = msg, err_http_status = 0, err_detail = []\<rparr>"

definition err_decode :: "string \<Rightarrow> error" where
  "err_decode msg =
     \<lparr>err_code = DecodeError, err_message = msg, err_http_status = 0, err_detail = []\<rparr>"

definition err_feed_unavailable :: "string \<Rightarrow> error" where
  "err_feed_unavailable msg =
     \<lparr>err_code = FeedUnavailable, err_message = msg, err_http_status = 404, err_detail = []\<rparr>"

lemmas error_factory_defs =
  err_ok_def err_network_def err_parse_def err_not_found_def err_rate_limited_def
  err_server_def err_invalid_request_def err_timeout_def err_decode_def
  err_feed_unavailable_def

text \<open>The code each named constructor carries, for the simplifier.\<close>

lemma err_code_factories [simp]:
  "err_code err_ok = Ok"
  "err_code (err_network m) = NetworkError"
  "err_code (err_parse m) = ParseError"
  "err_code (err_not_found m) = NotFound"
  "err_code (err_rate_limited m) = RateLimited"
  "err_code (err_server m) = ServerError"
  "err_code (err_invalid_request m) = InvalidRequest"
  "err_code (err_timeout m) = Timeout"
  "err_code (err_decode m) = DecodeError"
  "err_code (err_feed_unavailable m) = FeedUnavailable"
  by (simp_all add: error_factory_defs)

section \<open>Errors from HTTP responses\<close>

definition status_code_of :: "int \<Rightarrow> error_code" where
  "status_code_of status =
     (if status = 404 then FeedUnavailable
      else if status = 400 \<or> status = 416 then InvalidRequest
      else if status = 429 then RateLimited
      else if status \<ge> 500 then ServerError
      else Unknown)"

definition from_response :: "int \<Rightarrow> string \<Rightarrow> error" where
  "from_response status body =
     (let detail = (if body \<noteq> [] then take 256 body else []);
          message = ''HTTP '' @ to_string_int status;
          message' = (if detail \<noteq> [] then message @ '': '' @ detail else message)
      in \<lparr>err_code = status_code_of status, err_message = message',
          err_http_status = status, err_detail = detail\<rparr>)"

lemma from_response_fields:
  "err_code (from_response status body) = status_code_of status"
  "err_http_status (from_response status body) = status"
  "err_detail (from_response status body) = take 256 body"
  by (simp_all add: from_response_def Let_def)

lemma status_code_of_simps [simp]:
  "status_code_of s = ServerError \<longleftrightarrow> 500 \<le> s"
  "status_code_of s = RateLimited \<longleftrightarrow> s = 429"
  "status_code_of s = FeedUnavailable \<longleftrightarrow> s = 404"
  "status_code_of s \<noteq> NetworkError" "status_code_of s \<noteq> Timeout" "status_code_of s \<noteq> Ok"
  by (auto simp: status_code_of_def)

lemma to_string_int_length:
  assumes "int32_min \<le> i" and "i \<le> int32_max"
  shows "length (to_string_int i) \<le> 11"
proof -
  have "length (dec_string (nat \<bar>i\<bar>)) \<le> 10"
    using assms by (intro dec_string_length) auto
  then show ?thesis by (auto simp: to_string_int_def)
qed

text \<open>
  However large the body of a failed response is, the error built from it is small: the
  excerpt is the first 256 bytes and the message is bounded.
\<close>

lemma from_response_message_length:
  assumes "int32_min \<le> status" and "status \<le> int32_max"
  shows "length (err_message (from_response status body)) \<le> 274"
  using to_string_int_length [OF assms] by (simp add: from_response_def Let_def min_def)

end
