(* ===== verification/Sidecar.thy ===== *)
theory Sidecar
  imports Errors
begin

text \<open>
  \<open>include/grib/sidecar.hpp\<close> and the helpers of \<open>src/models/sidecar.cpp\<close> that both
  parsers use: the index entry, the selector with \<open>select\<close>, the splitter and the
  whole-token number reader. The locale \<open>tokenizer\<close> is what the parsers need of the
  splitter; it is interpreted on \<open>split\<close>, the code's loop.
\<close>

section \<open>Entries and selectors\<close>

record grib_index_entry =
  e_param :: string
  e_level :: string
  e_step :: string
  e_raw :: string
  e_offset :: u64
  e_length :: u64
  e_record :: u32
  e_member :: int

text \<open>A default-constructed entry.\<close>

definition new_entry :: grib_index_entry where
  "new_entry =
     \<lparr>e_param = [], e_level = [], e_step = [], e_raw = [],
      e_offset = 0, e_length = 0, e_record = 0, e_member = - 1\<rparr>"

record grib_selector =
  s_param :: "string option"
  s_level :: "string option"
  s_step :: "string option"
  s_member :: "int option"

text \<open>
  \<open>select\<close>: the loop with its four early \<open>continue\<close>s. \<open>lacks\<close> is the guard
  \<open>sel.f && e.f.find( *sel.f) == npos\<close> and \<open>differs\<close> the guard on the member.
\<close>

definition lacks :: "string option \<Rightarrow> string \<Rightarrow> bool" where
  "lacks wanted field = (case wanted of None \<Rightarrow> False | Some p \<Rightarrow> find_sub p field = None)"

definition differs :: "int option \<Rightarrow> int \<Rightarrow> bool" where
  "differs wanted m = (case wanted of None \<Rightarrow> False | Some w \<Rightarrow> m \<noteq> w)"

fun select_loop :: "grib_index_entry list \<Rightarrow> grib_selector \<Rightarrow> grib_index_entry list \<Rightarrow>
    grib_index_entry list" where
  "select_loop [] sel out = out"
| "select_loop (e # es) sel out =
     (if lacks (s_param sel) (e_param e) then select_loop es sel out
      else if lacks (s_level sel) (e_level e) then select_loop es sel out
      else if lacks (s_step sel) (e_step e) then select_loop es sel out
      else if differs (s_member sel) (e_member e) then select_loop es sel out
      else select_loop es sel (out @ [e]))"

definition select :: "grib_index_entry list \<Rightarrow> grib_selector \<Rightarrow> grib_index_entry list" where
  "select entries sel = select_loop entries sel []"

text \<open>What a selector means: every set field occurs in the entry, the member is equal.\<close>

definition selects :: "grib_selector \<Rightarrow> grib_index_entry \<Rightarrow> bool" where
  "selects sel e \<longleftrightarrow>
     (\<forall>p. s_param sel = Some p \<longrightarrow> sublist p (e_param e)) \<and>
     (\<forall>l. s_level sel = Some l \<longrightarrow> sublist l (e_level e)) \<and>
     (\<forall>s. s_step sel = Some s \<longrightarrow> sublist s (e_step e)) \<and>
     (\<forall>m. s_member sel = Some m \<longrightarrow> e_member e = m)"

lemma lacks_iff: "lacks wanted field \<longleftrightarrow> \<not> (\<forall>p. wanted = Some p \<longrightarrow> sublist p field)"
  by (cases wanted) (simp_all add: lacks_def find_sub_None)

lemma differs_iff: "differs wanted m \<longleftrightarrow> \<not> (\<forall>w. wanted = Some w \<longrightarrow> m = w)"
  by (cases wanted) (simp_all add: differs_def)

lemma selects_guards:
  "selects sel e \<longleftrightarrow>
     \<not> lacks (s_param sel) (e_param e) \<and> \<not> lacks (s_level sel) (e_level e) \<and>
     \<not> lacks (s_step sel) (e_step e) \<and> \<not> differs (s_member sel) (e_member e)"
  by (simp only: selects_def lacks_iff differs_iff not_not)

lemma select_loop_filter: "select_loop es sel out = out @ filter (selects sel) es"
  by (induction es arbitrary: out) (simp_all add: selects_guards)

lemma select_filter: "select es sel = filter (selects sel) es"
  by (simp add: select_def select_loop_filter)

text \<open>
  \<open>select\<close> returns exactly the entries that match, each as often as it occurs and in the
  order of the index: the parameter, level and step, when set, occur somewhere in the field
  (a substring, not an equal token), and the member is equal.
\<close>

theorem select_is_filter: "select es sel = filter (selects sel) es"
  by (rule select_filter)

section \<open>Splitting at a delimiter\<close>

function split_loop :: "string \<Rightarrow> char \<Rightarrow> nat \<Rightarrow> string list" where
  "split_loop s d start =
     (if start \<le> length s
      then (case find_char s d start of
              None \<Rightarrow> [drop start s]
            | Some pos \<Rightarrow> take (pos - start) (drop start s) # split_loop s d (pos + 1))
      else [])"
  by pat_completeness auto
termination
proof (relation "measure (\<lambda>(s, d, start). Suc (length s) - start)")
  fix s d start pos
  assume "start \<le> length s" and "find_char s d start = Some pos"
  then show "((s, d, pos + 1), s, d, start) \<in> measure (\<lambda>(s, d, start). Suc (length s) - start)"
    using find_char_SomeD(1,2) [of s d start pos] by simp
qed simp

declare split_loop.simps [simp del]

definition split :: "string \<Rightarrow> char \<Rightarrow> string list" where
  "split s d = split_loop s d 0"

text \<open>The reference: structural recursion on the text.\<close>

fun fields :: "char \<Rightarrow> string \<Rightarrow> string list" where
  "fields d [] = [[]]"
| "fields d (c # cs) =
     (if c = d then [] # fields d cs
      else (case fields d cs of [] \<Rightarrow> [[c]] | f # fs \<Rightarrow> (c # f) # fs))"

fun join :: "char \<Rightarrow> string list \<Rightarrow> string" where
  "join d [] = []"
| "join d [f] = f"
| "join d (f # g # fs) = f @ d # join d (g # fs)"

lemma fields_ne [simp]: "fields d s \<noteq> []"
  by (induction s) (auto split: list.splits)

lemma fields_no_delim: "d \<notin> set s \<Longrightarrow> fields d s = [s]"
  by (induction s) auto

lemma fields_append_delim: "d \<notin> set f \<Longrightarrow> fields d (f @ d # s) = f # fields d s"
  by (induction f) auto

lemma split_loop_fields: "start \<le> length s \<Longrightarrow> split_loop s d start = fields d (drop start s)"
proof (induction s d start rule: split_loop.induct)
  case (1 s d start)
  show ?case
  proof (cases "find_char s d start")
    case None
    then have "d \<notin> set (drop start s)" by (simp add: find_char_None)
    then show ?thesis
      using "1.prems" None by (subst split_loop.simps) (simp add: fields_no_delim)
  next
    case (Some pos)
    note pos = find_char_SomeD [OF Some]
    have ih: "split_loop s d (pos + 1) = fields d (drop (pos + 1) s)"
      using "1.IH" "1.prems" Some pos(2) by simp
    have "drop start s = take (pos - start) (drop start s) @ drop pos s"
      using pos(1) append_take_drop_id [of "pos - start" "drop start s"] by simp
    also have "drop pos s = d # drop (pos + 1) s"
      using drop_eq_Cons_nth [OF pos(2)] pos(3) by simp
    finally have "fields d (drop start s) =
        take (pos - start) (drop start s) # fields d (drop (pos + 1) s)"
      using fields_append_delim [OF pos(4)] by metis
    then show ?thesis
      using "1.prems" Some ih by (subst split_loop.simps) simp
  qed
qed

lemma split_fields: "split s d = fields d s"
  by (simp add: split_def split_loop_fields)

lemma fields_clean: "f \<in> set (fields d s) \<Longrightarrow> d \<notin> set f"
  by (induction s arbitrary: f) (auto split: list.splits if_splits)

lemma join_Cons: "fs \<noteq> [] \<Longrightarrow> join d (f # fs) = f @ d # join d fs"
  by (cases fs) auto

lemma join_fields: "join d (fields d s) = s"
proof (induction s)
  case Nil
  then show ?case by simp
next
  case (Cons c cs)
  then show ?case by (cases "fields d cs" rule: list.exhaust; cases "tl (fields d cs)") (auto simp: join_Cons)
qed

lemma fields_join:
  "fs \<noteq> [] \<Longrightarrow> \<forall>f \<in> set fs. d \<notin> set f \<Longrightarrow> fields d (join d fs) = fs"
  by (induction d fs rule: join.induct) (auto simp: fields_no_delim fields_append_delim)

lemma join_sub: "f \<in> set fs \<Longrightarrow> set f \<subseteq> set (join d fs)"
  by (induction d fs rule: join.induct) auto

lemma fields_sub: "f \<in> set (fields d s) \<Longrightarrow> set f \<subseteq> set s"
  using join_sub [of f "fields d s" d] by (simp add: join_fields)

text \<open>What the two parsers rely on when they cut the text into lines and a line into fields.\<close>

locale tokenizer =
  fixes cut :: "string \<Rightarrow> char \<Rightarrow> string list"
    and glue :: "char \<Rightarrow> string list \<Rightarrow> string"
  assumes cut_glue: "fs \<noteq> [] \<Longrightarrow> \<forall>f \<in> set fs. d \<notin> set f \<Longrightarrow> cut (glue d fs) d = fs"
    and glue_cut: "glue d (cut s d) = s"
    and cut_clean: "f \<in> set (cut s d) \<Longrightarrow> d \<notin> set f"
    and cut_ne: "cut s d \<noteq> []"
    and glue_Cons: "fs \<noteq> [] \<Longrightarrow> glue d (f # fs) = f @ d # glue d fs"
    and glue_single: "glue d [f] = f"
begin

text \<open>Terminated lines come back with one empty token after the last terminator.\<close>

lemma glue_terminated: "glue d (ls @ [[]]) = concat (map (\<lambda>l. l @ [d]) ls)"
  by (induction ls) (auto simp: glue_Cons glue_single)

lemma cut_terminated:
  "\<forall>l \<in> set ls. d \<notin> set l \<Longrightarrow> cut (concat (map (\<lambda>l. l @ [d]) ls)) d = ls @ [[]]"
  using cut_glue [of "ls @ [[]]" d] by (simp add: glue_terminated)

lemma cut_inj: "cut s d = cut t d \<Longrightarrow> s = t"
  by (metis glue_cut)

end

interpretation splitter: tokenizer split join
  by unfold_locales
    (auto simp: split_fields fields_join join_fields join_Cons dest: fields_clean)

section \<open>Whole-token numbers and line ends\<close>

text \<open>
  \<open>to_u64\<close>: true exactly when the whole token is one number in range. The reference
  parameter it fills is only read where it returned true.
\<close>

definition to_u64 :: "string \<Rightarrow> u64 option" where
  "to_u64 s =
     (case from_chars_u64 s of
        Parsed v rest \<Rightarrow> if rest = [] then Some v else None
      | Invalid_argument \<Rightarrow> None
      | Out_of_range rest \<Rightarrow> None)"

lemma to_u64_print [simp]: "to_u64 (to_string_u64 w) = Some w"
  by (simp add: to_u64_def u64_codec.rd_prn_all)

lemma to_u64_iff:
  "to_u64 s = Some v \<longleftrightarrow>
     s \<noteq> [] \<and> (\<forall>c \<in> set s. is_digit c) \<and> dec_val s < 2 ^ 64 \<and> v = of_nat (dec_val s)"
proof (cases "\<forall>c \<in> set s. is_digit c")
  case True
  then have t: "takeWhile is_digit s = s" and d: "dropWhile is_digit s = []"
    by (simp_all add: takeWhile_eq_all_conv dropWhile_eq_Nil_conv)
  have "to_u64 s = (if s = [] \<or> 2 ^ 64 \<le> dec_val s then None else Some (of_nat (dec_val s)))"
    unfolding to_u64_def from_chars_u64_def Let_def t d by simp
  with True show ?thesis by auto
next
  case False
  then have "dropWhile is_digit s \<noteq> []" by (simp add: dropWhile_eq_Nil_conv)
  with False show ?thesis by (auto simp: to_u64_def from_chars_u64_def Let_def)
qed

text \<open>Dropping one carriage return at the end of a line, as both parsers do.\<close>

definition strip_cr :: "string \<Rightarrow> string" where
  "strip_cr line = (if line \<noteq> [] \<and> last line = CHR 0x0D then butlast line else line)"

lemma strip_cr_clean: "CHR 0x0D \<notin> set line \<Longrightarrow> strip_cr line = line"
  by (metis strip_cr_def last_in_set)

lemma strip_cr_crlf: "strip_cr (line @ [CHR 0x0D]) = line"
  by (simp add: strip_cr_def)

end
