(* ===== verification/Nomads.thy ===== *)
theory Nomads
  imports Sidecar
begin

text \<open>
  The NOMADS half of \<open>src/models/sidecar.cpp\<close>: the ensemble tag, the line loop and the
  length loop of \<open>parse_nomads_idx\<close>, a declarative specification of the parser, and a
  printer of inventories that the parser inverts.
\<close>

section \<open>The ensemble tag\<close>

text \<open>The digit-skipping loop \<open>while (j < tok.size() && ...) ++j\<close>.\<close>

function scan_digits :: "string \<Rightarrow> nat \<Rightarrow> nat" where
  "scan_digits tok j =
     (if j < length tok \<and> is_digit (tok ! j) then scan_digits tok (Suc j) else j)"
  by pat_completeness auto
termination
  by (relation "measure (\<lambda>(tok, j). length tok - j)") auto

declare scan_digits.simps [simp del]

definition parse_nomads_member :: "string \<Rightarrow> int" where
  "parse_nomads_member rest =
     (case find_sub ''ENS='' rest of
        None \<Rightarrow> - 1
      | Some p \<Rightarrow>
          (let tok = drop (p + 4) rest in
           if prefix ''low-res ctl'' tok \<or> prefix ''hi-res ctl'' tok \<or> prefix ''ctl'' tok then 0
           else
             (let i = (if 0 < length tok \<and> (tok ! 0 = CHR ''+'' \<or> tok ! 0 = CHR ''-'') then 1 else 0);
                  j = scan_digits tok i
              in if j = i then - 1
                 else (case from_chars_int (take (j - i) (drop i tok)) of
                         Parsed n r \<Rightarrow> if prefix ''-'' tok then - 1 else n
                       | Invalid_argument \<Rightarrow> - 1
                       | Out_of_range r \<Rightarrow> - 1))))"

lemma scan_digits_span:
  "i \<le> length tok \<Longrightarrow> scan_digits tok i = i + length (takeWhile is_digit (drop i tok))"
proof (induction tok i rule: scan_digits.induct)
  case (1 tok j)
  show ?case
  proof (cases "j < length tok \<and> is_digit (tok ! j)")
    case True
    with 1 show ?thesis
      by (subst scan_digits.simps) (simp add: drop_eq_Cons_nth)
  next
    case False
    then have "takeWhile is_digit (drop j tok) = []"
      using "1.prems" by (cases "j < length tok") (auto simp: drop_eq_Cons_nth)
    with False show ?thesis by (subst scan_digits.simps) auto
  qed
qed

lemma from_chars_int_nonneg:
  assumes "from_chars_int s = Parsed n r" and "\<forall>c \<in> set s. is_digit c"
  shows "0 \<le> n"
proof -
  have "s \<noteq> [] \<Longrightarrow> hd s \<noteq> CHR ''-''"
    using assms(2) by (cases s) (auto simp: is_digit_def)
  then show ?thesis
    using assms(1) by (auto simp: from_chars_int_def Let_def split: if_splits)
qed

text \<open>Whatever the trailing fields hold, the member is a legal \<open>int\<close> of at least -1.\<close>

lemma parse_nomads_member_range:
  "- 1 \<le> parse_nomads_member rest \<and> parse_nomads_member rest \<le> int32_max"
proof (cases "find_sub ''ENS='' rest")
  case None
  then show ?thesis by (simp add: parse_nomads_member_def)
next
  case (Some p)
  define tok where "tok = drop (p + 4) rest"
  define i :: nat where
    "i = (if 0 < length tok \<and> (tok ! 0 = CHR ''+'' \<or> tok ! 0 = CHR ''-'') then 1 else 0)"
  define ds where "ds = take (scan_digits tok i - i) (drop i tok)"
  have "i \<le> length tok" by (cases tok) (auto simp: i_def)
  then have "ds = takeWhile is_digit (drop i tok)"
    by (simp add: ds_def scan_digits_span takeWhile_eq_take [symmetric])
  then have digits: "\<forall>c \<in> set ds. is_digit c" by (metis set_takeWhileD)
  have parsed: "- 1 \<le> n \<and> n \<le> int32_max" if "from_chars_int ds = Parsed n r" for n r
    using from_chars_int_nonneg [OF that digits] from_chars_int_range [OF that] by linarith
  show ?thesis
    unfolding parse_nomads_member_def Some option.case Let_def
      tok_def [symmetric] i_def [symmetric] ds_def [symmetric]
    by (cases "from_chars_int ds") (auto dest: parsed)
qed

section \<open>One line\<close>

abbreviation bad_record :: error where
  "bad_record \<equiv> err_parse ''nomads .idx: invalid or unsupported submessage record''"

abbreviation bad_offset :: "string \<Rightarrow> error" where
  "bad_offset line \<equiv> err_parse (''nomads .idx: bad byte offset in: '' @ line)"

abbreviation bad_order :: error where
  "bad_order \<equiv> err_parse ''nomads .idx: offsets must increase''"

text \<open>The body of the loop for a line with at least six fields \<open>f\<close>.\<close>

definition nomads_entry :: "string \<Rightarrow> string list \<Rightarrow> grib_index_entry result" where
  "nomads_entry line f =
     (case to_u64 (f ! 0) of
        None \<Rightarrow> Inl bad_record
      | Some rec \<Rightarrow>
          if rec = 0 \<or> rec > u32_max then Inl bad_record
          else
            (case to_u64 (f ! 1) of
               None \<Rightarrow> Inl (bad_offset line)
             | Some off \<Rightarrow>
                 (let trailing = concat (map (\<lambda>x. x @ '':'') (drop 6 f))
                  in Inr (new_entry\<lparr>
                       e_raw := line,
                       e_record := ucast rec,
                       e_offset := off,
                       e_param := f ! 3,
                       e_level := f ! 4,
                       e_step := f ! 5,
                       e_member := parse_nomads_member trailing\<rparr>))))"

text \<open>The first loop, over the lines of the text, with its \<open>continue\<close>s and early returns.\<close>

fun nomads_lines :: "string list \<Rightarrow> grib_index_entry list \<Rightarrow> grib_index_entry list result" where
  "nomads_lines [] entries = Inr entries"
| "nomads_lines (raw # lines) entries =
     (let line = strip_cr raw in
      if line = [] then nomads_lines lines entries
      else
        (let f = split line CHR '':'' in
         if length f < 6 then nomads_lines lines entries
         else
           (case nomads_entry line f of
              Inl err \<Rightarrow> Inl err
            | Inr e \<Rightarrow> nomads_lines lines (entries @ [e]))))"

text \<open>The second loop, which fills in the lengths in place.\<close>

function fill_lengths :: "grib_index_entry list \<Rightarrow> nat \<Rightarrow> grib_index_entry list result" where
  "fill_lengths es i =
     (if i + 1 < length es
      then
        (if e_offset (es ! (i + 1)) \<le> e_offset (es ! i) then Inl bad_order
         else fill_lengths
                (es[i := (es ! i)\<lparr>e_length := e_offset (es ! (i + 1)) - e_offset (es ! i)\<rparr>]) (i + 1))
      else Inr es)"
  by pat_completeness auto
termination
  by (relation "measure (\<lambda>(es, i). length es - i)") auto

declare fill_lengths.simps [simp del]

definition parse_nomads_idx :: "string \<Rightarrow> grib_index_entry list result" where
  "parse_nomads_idx text =
     (case nomads_lines (split text CHR 0x0A) [] of
        Inl err \<Rightarrow> Inl err
      | Inr entries \<Rightarrow> fill_lengths entries 0)"

section \<open>Specification\<close>

text \<open>
  The lines that count: non-empty after the carriage return is dropped, with at least six
  fields. All of them must give an entry, and the offsets must increase.
\<close>

definition is_inventory :: "string \<Rightarrow> bool" where
  "is_inventory line \<longleftrightarrow> line \<noteq> [] \<and> 6 \<le> length (split line CHR '':'')"

definition inventory_lines :: "string \<Rightarrow> string list" where
  "inventory_lines text = filter is_inventory (map strip_cr (split text CHR 0x0A))"

definition line_entry :: "string \<Rightarrow> grib_index_entry result" where
  "line_entry line = nomads_entry line (split line CHR '':'')"

definition increasing :: "grib_index_entry list \<Rightarrow> bool" where
  "increasing es \<longleftrightarrow> sorted_wrt (<) (map e_offset es)"

fun with_lengths :: "grib_index_entry list \<Rightarrow> grib_index_entry list" where
  "with_lengths [] = []"
| "with_lengths [e] = [e]"
| "with_lengths (a # b # es) =
     a\<lparr>e_length := e_offset b - e_offset a\<rparr> # with_lengths (b # es)"

definition nomads_spec :: "string \<Rightarrow> grib_index_entry list result" where
  "nomads_spec text =
     (case collect line_entry (inventory_lines text) of
        Inl err \<Rightarrow> Inl err
      | Inr es \<Rightarrow> if increasing es then Inr (with_lengths es) else Inl bad_order)"

lemma nomads_lines_collect:
  "nomads_lines ls acc =
     (case collect line_entry (filter is_inventory (map strip_cr ls)) of
        Inl err \<Rightarrow> Inl err
      | Inr es \<Rightarrow> Inr (acc @ es))"
proof (induction ls acc rule: nomads_lines.induct)
  case (1 acc)
  then show ?case by simp
next
  case (2 raw ls acc)
  then show ?case
    by (auto simp: Let_def is_inventory_def line_entry_def split: sum.splits)
qed

lemma increasing_Cons2:
  "increasing (a # b # es) \<longleftrightarrow> e_offset a < e_offset b \<and> increasing (b # es)"
  by (auto simp: increasing_def)

lemma increasing_short: "length es \<le> 1 \<Longrightarrow> increasing es"
  by (cases es) (auto simp: increasing_def)

lemma with_lengths_short: "length es \<le> 1 \<Longrightarrow> with_lengths es = es"
  by (cases es rule: with_lengths.cases) auto

lemma drop_two: "i + 1 < length xs \<Longrightarrow> drop i xs = xs ! i # xs ! (i + 1) # drop (i + 2) xs"
  by (simp add: drop_eq_Cons_nth)

lemma fill_lengths_spec:
  "i \<le> length es \<Longrightarrow>
   fill_lengths es i =
     (if increasing (drop i es) then Inr (take i es @ with_lengths (drop i es)) else Inl bad_order)"
proof (induction es i rule: fill_lengths.induct)
  case (1 es i)
  show ?case
  proof (cases "i + 1 < length es")
    case False
    then have "length (drop i es) \<le> 1" by simp
    with False show ?thesis
      by (subst fill_lengths.simps) (simp add: increasing_short with_lengths_short)
  next
    case True
    let ?a = "es ! i" and ?b = "es ! (i + 1)"
    let ?a' = "?a\<lparr>e_length := e_offset ?b - e_offset ?a\<rparr>"
    note two = drop_two [OF True]
    have rest: "drop (i + 1) (es[i := ?a']) = ?b # drop (i + 2) es"
      using True by (simp add: drop_eq_Cons_nth)
    have front: "take (i + 1) (es[i := ?a']) = take i es @ [?a']"
      using True by (simp add: take_Suc_conv_app_nth)
    show ?thesis
    proof (cases "e_offset ?b \<le> e_offset ?a")
      case True
      then have "\<not> e_offset ?a < e_offset ?b" by simp
      with True \<open>i + 1 < length es\<close> show ?thesis
        by (subst fill_lengths.simps) (simp only: two increasing_Cons2, simp)
    next
      case False
      have "fill_lengths (es[i := ?a']) (i + 1) =
          (if increasing (?b # drop (i + 2) es)
           then Inr (take i es @ ?a' # with_lengths (?b # drop (i + 2) es)) else Inl bad_order)"
        by (rule "1.IH" [OF True False, unfolded rest front, simplified append_assoc append.simps])
          (use True in simp)
      with True False show ?thesis
        by (subst fill_lengths.simps) (simp only: two increasing_Cons2 with_lengths.simps, simp)
    qed
  qed
qed

lemma parse_nomads_idx_spec: "parse_nomads_idx text = nomads_spec text"
  by (simp add: parse_nomads_idx_def nomads_spec_def nomads_lines_collect inventory_lines_def
      fill_lengths_spec split: sum.split)

section \<open>The entries of a successful parse\<close>

lemma line_entry_InrE:
  assumes "line_entry line = Inr e"
  obtains rec off where "to_u64 (split line CHR '':'' ! 0) = Some rec"
    and "to_u64 (split line CHR '':'' ! 1) = Some off"
    and "rec \<noteq> 0" and "rec \<le> u32_max"
    and "e = new_entry\<lparr>
      e_raw := line, e_record := ucast rec, e_offset := off,
      e_param := split line CHR '':'' ! 3, e_level := split line CHR '':'' ! 4,
      e_step := split line CHR '':'' ! 5,
      e_member := parse_nomads_member (concat (map (\<lambda>x. x @ '':'') (drop 6 (split line CHR '':''))))\<rparr>"
  using assms
  by (auto simp: line_entry_def nomads_entry_def Let_def not_less split: option.splits if_splits)

lemma line_entry_fields:
  assumes "line_entry line = Inr e"
  shows "e_length e = 0" and "e_raw e = line" and "e_record e \<noteq> 0"
    and "- 1 \<le> e_member e" and "e_member e \<le> int32_max"
proof -
  from assms obtain rec off where ok: "rec \<noteq> 0" "rec \<le> u32_max"
    and e: "e = new_entry\<lparr>
      e_raw := line, e_record := ucast rec, e_offset := off,
      e_param := split line CHR '':'' ! 3, e_level := split line CHR '':'' ! 4,
      e_step := split line CHR '':'' ! 5,
      e_member := parse_nomads_member (concat (map (\<lambda>x. x @ '':'') (drop 6 (split line CHR '':''))))\<rparr>"
    by (rule line_entry_InrE)
  have "unat rec < 2 ^ 32"
    using ok(2) by (simp add: word_le_nat_alt)
  then have "unat (ucast rec :: u32) = unat rec"
    by (simp add: unsigned_ucast_eq take_bit_nat_eq_self)
  then have "(ucast rec :: u32) \<noteq> 0"
    using ok(1) by (metis unsigned_0 unat_eq_zero)
  with e show "e_length e = 0" "e_raw e = line" "e_record e \<noteq> 0"
      "- 1 \<le> e_member e" "e_member e \<le> int32_max"
    using parse_nomads_member_range by (simp_all add: new_entry_def)
qed

lemma with_lengths_length [simp]: "length (with_lengths es) = length es"
  by (induction es rule: with_lengths.induct) auto

lemma with_lengths_nth:
  "i < length es \<Longrightarrow>
   with_lengths es ! i =
     (if i + 1 < length es
      then (es ! i)\<lparr>e_length := e_offset (es ! (i + 1)) - e_offset (es ! i)\<rparr>
      else es ! i)"
proof (induction es arbitrary: i rule: with_lengths.induct)
  case (3 a b es)
  then show ?case by (cases i) auto
qed auto

lemma with_lengths_offsets [simp]: "map e_offset (with_lengths es) = map e_offset es"
  by (induction es rule: with_lengths.induct) auto

lemma increasing_with_lengths [simp]: "increasing (with_lengths es) = increasing es"
  by (simp add: increasing_def)

lemma increasing_step:
  assumes "increasing es" and "i + 1 < length es"
  shows "e_offset (es ! i) < e_offset (es ! (i + 1))"
  using assms by (simp add: increasing_def sorted_wrt_iff_nth_less)

text \<open>A successful parse, unfolded once for all the properties below.\<close>

lemma parse_nomads_idx_InrE:
  assumes "parse_nomads_idx text = Inr es"
  obtains base where "list_all2 (\<lambda>l e. line_entry l = Inr e) (inventory_lines text) base"
    and "increasing base" and "es = with_lengths base"
  using assms
  by (auto simp: parse_nomads_idx_spec nomads_spec_def collect_Inr [symmetric]
      split: sum.splits if_splits)

lemma base_entry:
  assumes "list_all2 (\<lambda>l e. line_entry l = Inr e) ls base" and "i < length base"
  shows "line_entry (ls ! i) = Inr (base ! i)"
  using assms by (auto simp: list_all2_conv_all_nth)

section \<open>Printing an inventory\<close>

datatype ens_tag = No_ens | Low_res_ctl | Hi_res_ctl | Perturbed nat

record nomads_row =
  r_record :: u32
  r_offset :: u64
  r_date :: string
  r_var :: string
  r_level :: string
  r_fcst :: string
  r_ens :: ens_tag

fun ens_fields :: "ens_tag \<Rightarrow> string list" where
  "ens_fields No_ens = []"
| "ens_fields Low_res_ctl = [''ENS=low-res ctl'']"
| "ens_fields Hi_res_ctl = [''ENS=hi-res ctl'']"
| "ens_fields (Perturbed n) = [''ENS=+'' @ dec_string n]"

fun ens_member :: "ens_tag \<Rightarrow> int" where
  "ens_member No_ens = - 1"
| "ens_member Low_res_ctl = 0"
| "ens_member Hi_res_ctl = 0"
| "ens_member (Perturbed n) = int n"

definition row_fields :: "nomads_row \<Rightarrow> string list" where
  "row_fields r =
     [dec_string (unat (r_record r)), to_string_u64 (r_offset r), ''d='' @ r_date r,
      r_var r, r_level r, r_fcst r] @ ens_fields (r_ens r) @ [[]]"

definition row_line :: "nomads_row \<Rightarrow> string" where
  "row_line r = join CHR '':'' (row_fields r)"

definition print_inventory :: "nomads_row list \<Rightarrow> string" where
  "print_inventory rows = concat (map (\<lambda>r. row_line r @ [CHR 0x0A]) rows)"

definition row_entry :: "nomads_row \<Rightarrow> grib_index_entry" where
  "row_entry r = new_entry\<lparr>
     e_raw := row_line r,
     e_record := r_record r,
     e_offset := r_offset r,
     e_param := r_var r,
     e_level := r_level r,
     e_step := r_fcst r,
     e_member := ens_member (r_ens r)\<rparr>"

text \<open>A text field of a row may hold anything but the field and line separators.\<close>

definition plain :: "string \<Rightarrow> bool" where
  "plain s \<longleftrightarrow> CHR '':'' \<notin> set s \<and> CHR 0x0A \<notin> set s"

definition valid_row :: "nomads_row \<Rightarrow> bool" where
  "valid_row r \<longleftrightarrow>
     r_record r \<noteq> 0 \<and> plain (r_date r) \<and> plain (r_var r) \<and> plain (r_level r) \<and>
     plain (r_fcst r) \<and> (case r_ens r of Perturbed n \<Rightarrow> int n \<le> int32_max | _ \<Rightarrow> True)"

lemma plain_dec [simp]: "plain (dec_string n)"
  using dec_string_digits [of n] by (auto simp: plain_def is_digit_def)

lemma plain_append [simp]: "plain (s @ t) \<longleftrightarrow> plain s \<and> plain t"
  by (auto simp: plain_def)

lemma plain_Cons [simp]: "plain (c # s) \<longleftrightarrow> c \<noteq> CHR '':'' \<and> c \<noteq> CHR 0x0A \<and> plain s"
  by (auto simp: plain_def)

lemma plain_Nil [simp]: "plain []"
  by (simp add: plain_def)

lemma row_fields_plain: "valid_row r \<Longrightarrow> \<forall>f \<in> set (row_fields r). plain f"
  by (cases "r_ens r") (auto simp: row_fields_def valid_row_def to_string_u64_def)

lemma split_row_line:
  assumes "valid_row r"
  shows "split (row_line r) CHR '':'' = row_fields r"
proof -
  have "row_fields r \<noteq> []" by (simp add: row_fields_def)
  moreover have "\<forall>f \<in> set (row_fields r). CHR '':'' \<notin> set f"
    using row_fields_plain [OF assms] by (auto simp: plain_def)
  ultimately show ?thesis by (simp add: row_line_def splitter.cut_glue)
qed

lemma parse_member_perturbed:
  assumes "int n \<le> int32_max" and "no_digit_first rest"
  shows "parse_nomads_member (''ENS=+'' @ dec_string n @ rest) = int n"
proof -
  let ?tok = "CHR ''+'' # dec_string n @ rest"
  have sub: "find_sub ''ENS='' (''ENS=+'' @ dec_string n @ rest) = Some 0" by simp
  have scan: "scan_digits ?tok 1 = 1 + length (dec_string n)"
    using assms(2) by (simp add: scan_digits_span dec_string_span)
  have num: "from_chars_int (dec_string n) = Parsed (int n) []"
    using from_chars_int_dec [of n "[]"] assms(1) by simp
  show ?thesis
    unfolding parse_nomads_member_def sub by (simp add: scan [simplified] num)
qed

lemma parse_member_ens:
  assumes "case t of Perturbed n \<Rightarrow> int n \<le> int32_max | _ \<Rightarrow> True"
  shows "parse_nomads_member (concat (map (\<lambda>x. x @ '':'') (ens_fields t @ [[]]))) = ens_member t"
proof (cases t)
  case (Perturbed n)
  then show ?thesis
    using parse_member_perturbed [of n "''::''"] assms by (simp add: is_digit_def)
qed (simp_all add: parse_nomads_member_def)

lemma row_line_clean:
  assumes "valid_row r"
  shows "CHR 0x0A \<notin> set (row_line r)" and "row_line r \<noteq> []" and "strip_cr (row_line r) = row_line r"
proof -
  have join_set: "set (join d fs) \<subseteq> insert d (\<Union> (set ` set fs))" for d fs
    by (induction d fs rule: join.induct) auto
  show "CHR 0x0A \<notin> set (row_line r)"
    using join_set [of "CHR '':''" "row_fields r"] row_fields_plain [OF assms]
    by (force simp: row_line_def plain_def)
  have last: "fs \<noteq> [] \<Longrightarrow> join d (fs @ [[]]) = join d fs @ [d]" for d fs
    by (induction fs rule: induct_list012) (auto simp: join_Cons)
  have "\<exists>l. row_line r = l @ '':''"
    by (simp add: row_line_def row_fields_def last [of "_ # _", simplified])
  then show "row_line r \<noteq> []" and "strip_cr (row_line r) = row_line r"
    by (auto simp: strip_cr_def)
qed

lemma line_entry_row:
  assumes "valid_row r"
  shows "line_entry (row_line r) = Inr (row_entry r)"
proof -
  let ?rec = "ucast (r_record r) :: u64"
  have bound: "unat (r_record r) < 2 ^ 32"
    using unsigned_less [of "r_record r"] by simp
  then have un: "unat ?rec = unat (r_record r)"
    by (simp add: unsigned_ucast_eq take_bit_nat_eq_self)
  have rec: "to_u64 (dec_string (unat (r_record r))) = Some ?rec"
    using to_u64_print [of ?rec] by (simp add: to_string_u64_def un)
  have "r_record r \<noteq> 0" using assms by (simp add: valid_row_def)
  then have "?rec \<noteq> 0" using un by (metis unat_eq_zero unsigned_0)
  moreover have "\<not> u32_max < ?rec" using un bound by (simp add: word_less_nat_alt)
  moreover have "ucast ?rec = r_record r"
    by (rule ucast_up_ucast_id) (simp add: is_up)
  moreover have "parse_nomads_member (concat (map (\<lambda>x. x @ '':'') (ens_fields (r_ens r) @ [[]])))
      = ens_member (r_ens r)"
    using assms by (intro parse_member_ens) (simp add: valid_row_def)
  ultimately show ?thesis
    unfolding line_entry_def split_row_line [OF assms] nomads_entry_def row_fields_def
    by (simp add: rec row_entry_def)
qed

lemma inventory_lines_print:
  assumes "\<forall>r \<in> set rows. valid_row r"
  shows "inventory_lines (print_inventory rows) = map row_line rows"
proof -
  have "split (print_inventory rows) CHR 0x0A = map row_line rows @ [[]]"
    using splitter.cut_terminated [of "map row_line rows" "CHR 0x0A"] assms row_line_clean(1)
    by (simp add: print_inventory_def comp_def)
  moreover have "map (strip_cr \<circ> row_line) rows = map row_line rows"
    using assms row_line_clean(3) by simp
  moreover have "filter is_inventory (map row_line rows) = map row_line rows"
    using assms row_line_clean(2) split_row_line
    by (auto simp: is_inventory_def row_fields_def filter_id_conv)
  moreover have "\<not> is_inventory (strip_cr [])"
    by (simp add: is_inventory_def strip_cr_def)
  ultimately show ?thesis by (simp add: inventory_lines_def del: map_eq_conv)
qed

lemma parse_print_inventory:
  assumes "\<forall>r \<in> set rows. valid_row r" and "sorted_wrt (<) (map r_offset rows)"
  shows "parse_nomads_idx (print_inventory rows) = Inr (with_lengths (map row_entry rows))"
proof -
  have "collect line_entry (map row_line rows) = Inr (map row_entry rows)"
    using assms(1)
    by (simp add: collect_Inr list_all2_map1 list_all2_map2 list_all2_same line_entry_row)
  moreover have "increasing (map row_entry rows)"
    using assms(2) by (simp add: increasing_def row_entry_def comp_def)
  ultimately show ?thesis
    by (simp add: parse_nomads_idx_spec nomads_spec_def inventory_lines_print [OF assms(1)])
qed

text \<open>A two-record inventory of the kind the tests use.\<close>

definition sample_rows :: "nomads_row list" where
  "sample_rows =
     [\<lparr>r_record = 1, r_offset = 0, r_date = ''2026051700'', r_var = ''PRMSL'',
       r_level = ''mean sea level'', r_fcst = ''anl'', r_ens = No_ens\<rparr>,
      \<lparr>r_record = 2, r_offset = 1048576, r_date = ''2026051700'', r_var = ''TMP'',
       r_level = ''2 m above ground'', r_fcst = ''anl'', r_ens = Perturbed 5\<rparr>]"

lemma sample_rows_valid:
  "\<forall>r \<in> set sample_rows. valid_row r" "sorted_wrt (<) (map r_offset sample_rows)"
  by (simp_all add: sample_rows_def valid_row_def)

lemmas sample_rows_parse = parse_print_inventory [OF sample_rows_valid]

text \<open>What an entry keeps of the line it was read from.\<close>

definition reads_line :: "grib_index_entry \<Rightarrow> bool" where
  "reads_line e \<longleftrightarrow>
     (let f = split (e_raw e) CHR '':'' in
        e_param e = f ! 3 \<and> e_level e = f ! 4 \<and> e_step e = f ! 5 \<and>
        Some (e_offset e) = to_u64 (f ! 1) \<and>
        e_member e = parse_nomads_member (concat (map (\<lambda>x. x @ '':'') (drop 6 f)))) \<and>
     e_record e \<noteq> 0 \<and> - 1 \<le> e_member e \<and> e_member e \<le> int32_max"

lemma reads_line_length [simp]: "reads_line (e\<lparr>e_length := n\<rparr>) = reads_line e"
  by (simp add: reads_line_def)

lemma line_entry_reads:
  assumes "line_entry line = Inr e"
  shows "reads_line e"
  using assms
proof (rule line_entry_InrE)
  fix rec off
  assume "to_u64 (split line CHR '':'' ! 1) = Some off"
    and "e = new_entry\<lparr>
      e_raw := line, e_record := ucast rec, e_offset := off,
      e_param := split line CHR '':'' ! 3, e_level := split line CHR '':'' ! 4,
      e_step := split line CHR '':'' ! 5,
      e_member := parse_nomads_member (concat (map (\<lambda>x. x @ '':'') (drop 6 (split line CHR '':''))))\<rparr>"
  with line_entry_fields [OF assms] show ?thesis by (simp add: reads_line_def)
qed

section \<open>Properties of the NOMADS parser\<close>

text \<open>
  C6: the two in-place loops of \<open>parse_nomads_idx\<close> compute the declarative specification
  on every text: all inventory lines must parse, the offsets must increase strictly, and
  each record's length is the distance to the next record (0 for the last).
\<close>

theorem nomads_meets_spec: "parse_nomads_idx text = nomads_spec text"
  by (rule parse_nomads_idx_spec)

lemma ranges_tile:
  assumes "parse_nomads_idx text = Inr es"
  shows "(\<forall>i. i + 1 < length es \<longrightarrow>
            0 < unat (e_length (es ! i)) \<and>
            unat (e_offset (es ! i)) + unat (e_length (es ! i)) = unat (e_offset (es ! (i + 1)))) \<and>
         (es \<noteq> [] \<longrightarrow> e_length (last es) = 0)"
proof -
  from assms obtain base where base: "list_all2 (\<lambda>l e. line_entry l = Inr e) (inventory_lines text) base"
    and inc: "increasing base" and es: "es = with_lengths base"
    by (rule parse_nomads_idx_InrE)
  have step: "0 < unat (e_length (es ! i)) \<and>
      unat (e_offset (es ! i)) + unat (e_length (es ! i)) = unat (e_offset (es ! (i + 1)))"
    if "i + 1 < length es" for i
    using that increasing_step [OF inc, of i]
    by (simp add: es with_lengths_nth unat_sub_le word_less_nat_alt word_le_nat_alt)
  have "e_length (last es) = 0" if "es \<noteq> []"
    using that line_entry_fields(1) [OF base_entry [OF base, of "length base - 1"]]
    by (cases "base = []") (auto simp: es last_conv_nth with_lengths_nth)
  with step show ?thesis by blast
qed

text \<open>
  C19: the byte ranges of a parsed inventory tile the file: every record but the last has a
  positive length and ends, computed without wrap-around, exactly where the next record
  begins; the last record is open-ended (length 0).
\<close>

theorem nomads_ranges_tile:
  assumes "parse_nomads_idx text = Inr es"
  shows "(\<forall>i. i + 1 < length es \<longrightarrow>
            0 < unat (e_length (es ! i)) \<and>
            unat (e_offset (es ! i)) + unat (e_length (es ! i)) = unat (e_offset (es ! (i + 1)))) \<and>
         (es \<noteq> [] \<longrightarrow> e_length (last es) = 0)"
  using assms by (rule ranges_tile)

theorem nomads_ranges_tile_witness:
  "parse_nomads_idx (print_inventory sample_rows) = Inr (with_lengths (map row_entry sample_rows)) \<and>
   e_length (last (with_lengths (map row_entry sample_rows))) = 0"
  using nomads_ranges_tile [OF sample_rows_parse] sample_rows_parse
  by (simp add: sample_rows_def)

text \<open>
  Every entry of a successful parse is one inventory line, in the order of the text: it
  keeps the line as \<open>raw\<close>, its parameter, level and step are the fourth, fifth and sixth
  field, its offset is the number in the second field, its record number is not 0 and its
  member, decoded from the fields after the sixth, is a legal \<open>int\<close> of at least -1.
\<close>

theorem nomads_entries_are_lines:
  assumes "parse_nomads_idx text = Inr es"
  shows "map e_raw es = inventory_lines text \<and> (\<forall>e \<in> set es. reads_line e)"
proof -
  from assms obtain base where base: "list_all2 (\<lambda>l e. line_entry l = Inr e) (inventory_lines text) base"
    and es: "es = with_lengths base"
    by (rule parse_nomads_idx_InrE)
  have raws: "map e_raw es = map e_raw base"
    by (rule nth_equalityI) (auto simp: es with_lengths_nth)
  have "map e_raw base = inventory_lines text"
    using base by (auto simp: list_all2_conv_all_nth line_entry_fields(2) intro: nth_equalityI)
  moreover have "reads_line (es ! i)" if "i < length es" for i
    using that line_entry_reads [OF base_entry [OF base, of i]] by (simp add: es with_lengths_nth)
  ultimately show ?thesis using raws by (auto simp: in_set_conv_nth)
qed

theorem nomads_entries_are_lines_witness:
  "map e_raw (with_lengths (map row_entry sample_rows)) =
     inventory_lines (print_inventory sample_rows)"
  using nomads_entries_are_lines [OF sample_rows_parse] by simp

text \<open>
  C18: printing and parsing are inverse: the parser reads every inventory of valid rows with
  increasing offsets back to exactly its records, with all 64 bits of the offsets, the
  text fields unchanged, the ensemble tag decoded and the lengths filled in.
\<close>

theorem nomads_roundtrip:
  assumes "\<forall>r \<in> set rows. valid_row r" and "sorted_wrt (<) (map r_offset rows)"
  shows "parse_nomads_idx (print_inventory rows) = Inr (with_lengths (map row_entry rows))"
  using assms by (rule parse_print_inventory)

theorem nomads_roundtrip_witness:
  "map e_member (projr (parse_nomads_idx (print_inventory sample_rows))) = [- 1, 5] \<and>
   map e_length (projr (parse_nomads_idx (print_inventory sample_rows))) = [1048576, 0]"
  using nomads_roundtrip [OF sample_rows_valid]
  by (simp add: sample_rows_def row_entry_def new_entry_def)

text \<open>
  C34: a rejected inventory is rejected with a \<open>ParseError\<close> and for a reason: either its first
  bad inventory line has a record number or offset that is no number in range, or all lines
  parse and some record does not start after the one before it.
\<close>

theorem nomads_rejects_for_a_reason:
  assumes "parse_nomads_idx text = Inl err"
  shows "err_code err = ParseError \<and>
    ((\<exists>good bad rest. inventory_lines text = good @ bad # rest \<and>
        (\<forall>l \<in> set good. is_value (line_entry l)) \<and> line_entry bad = Inl err \<and>
        (let f = split bad CHR '':'' in to_u64 (f ! 1) = None \<or>
           (case to_u64 (f ! 0) of None \<Rightarrow> True | Some rec \<Rightarrow> rec = 0 \<or> u32_max < rec))) \<or>
     (\<exists>es i. collect line_entry (inventory_lines text) = Inr es \<and> i + 1 < length es \<and>
        e_offset (es ! (i + 1)) \<le> e_offset (es ! i)))"
proof (cases "collect line_entry (inventory_lines text)")
  case (Inl e)
  then have "e = err" using assms by (simp add: parse_nomads_idx_spec nomads_spec_def)
  with Inl obtain good bad rest where split: "inventory_lines text = good @ bad # rest"
    and good: "\<forall>l \<in> set good. is_value (line_entry l)" and bad: "line_entry bad = Inl err"
    by (auto simp: collect_Inl)
  have "err_code err = ParseError \<and>
      (let f = split bad CHR '':'' in to_u64 (f ! 1) = None \<or>
         (case to_u64 (f ! 0) of None \<Rightarrow> True | Some rec \<Rightarrow> rec = 0 \<or> u32_max < rec))"
    using bad
    by (auto simp: line_entry_def nomads_entry_def Let_def split: option.splits if_splits)
  with split good bad show ?thesis by blast
next
  case (Inr es)
  then have "\<not> increasing es" and "err = bad_order"
    using assms by (auto simp: parse_nomads_idx_spec nomads_spec_def split: if_splits)
  then obtain i where "i + 1 < length es" and "\<not> e_offset (es ! i) < e_offset (es ! (i + 1))"
    unfolding increasing_def
    by (subst (asm) sorted_wrt_iff_nth_Suc_transp) (auto simp: transp_def)
  with Inr \<open>err = bad_order\<close> show ?thesis by (auto simp: not_less)
qed

theorem nomads_rejects_for_a_reason_witness:
  "parse_nomads_idx ''1:12junk:d=2026:TMP:2 m above ground:anl:'' =
     Inl (bad_offset ''1:12junk:d=2026:TMP:2 m above ground:anl:'') \<and>
   err_code (bad_offset ''1:12junk:d=2026:TMP:2 m above ground:anl:'') = ParseError"
proof -
  have e: "parse_nomads_idx ''1:12junk:d=2026:TMP:2 m above ground:anl:'' =
     Inl (bad_offset ''1:12junk:d=2026:TMP:2 m above ground:anl:'')"
    by (simp add: parse_nomads_idx_def split_fields strip_cr_def nomads_entry_def to_u64_def
        from_chars_u64_def is_digit_def dec_val_def digit_val_def Let_def)
  show ?thesis using e nomads_rejects_for_a_reason [OF e] by simp
qed

end
