(* ===== verification/Binary64.thy ===== *)
theory Binary64
  imports Prelude "HOL-Library.Log_Nat"
begin

text \<open>
  The C++ \<open>double\<close> as IEEE 754 binary64 with round-to-nearest-even: finite values are the
  rationals they denote, zero has a sign, and there are the infinities and one NaN.
  Every arithmetic operation is the exact result rounded once. The facts the clients need
  are that rounding is monotone and leaves representable values alone.
  The comparison-based functions \<open>std::min\<close>, \<open>std::max\<close> and \<open>std::clamp\<close> are defined
  from \<open>operator<\<close> alone, as the standard does, for any ordered type.
\<close>

section \<open>\<open>std::min\<close>, \<open>std::max\<close>, \<open>std::clamp\<close>\<close>

definition std_min :: "'a::ord \<Rightarrow> 'a \<Rightarrow> 'a" where
  "std_min a b = (if b < a then b else a)"

definition std_max :: "'a::ord \<Rightarrow> 'a \<Rightarrow> 'a" where
  "std_max a b = (if a < b then b else a)"

definition std_clamp :: "'a::ord \<Rightarrow> 'a \<Rightarrow> 'a \<Rightarrow> 'a" where
  "std_clamp v lo hi = (if v < lo then lo else if hi < v then hi else v)"

lemma std_min_linorder [simp]: "std_min (a :: 'a::linorder) b = min a b"
  by (auto simp: std_min_def min_def)

lemma std_max_linorder [simp]: "std_max (a :: 'a::linorder) b = max a b"
  by (auto simp: std_max_def max_def)

lemma std_clamp_linorder [simp]:
  "lo \<le> hi \<Longrightarrow> std_clamp (v :: 'a::linorder) lo hi = max lo (min v hi)"
  by (auto simp: std_clamp_def max_def min_def)

section \<open>Rounding a rational\<close>

text \<open>Integer part of the binary logarithm of a positive rational.\<close>

definition floor_log2 :: "rat \<Rightarrow> int" where
  "floor_log2 x =
     (case quotient_of x of
        (n, d) \<Rightarrow> (let k = bitlen n - bitlen d in if 2 powi k \<le> x then k else k - 1))"

text \<open>Nearest integer, ties to even.\<close>

definition rne :: "rat \<Rightarrow> int" where
  "rne x =
     (let f = \<lfloor>x\<rfloor>; r = x - of_int f
      in if r < 1 / 2 then f else if 1 / 2 < r then f + 1 else if even f then f else f + 1)"

text \<open>The exponent of the last place kept: 53 significant bits, none below \<open>2 ^ -1074\<close>.\<close>

definition expo :: "rat \<Rightarrow> int" where
  "expo x = max (- 1074) (floor_log2 x - 52)"

definition round_pos :: "rat \<Rightarrow> rat" where
  "round_pos x = of_int (rne (x / 2 powi expo x)) * 2 powi expo x"

abbreviation max_exp :: rat where
  "max_exp \<equiv> 2 ^ 1024"

lemma powi2_pos [simp]: "(0 :: rat) < 2 powi e"
  by simp

lemma powi2_le: "(2 :: rat) powi a \<le> 2 powi b \<longleftrightarrow> a \<le> b"
  by (meson power_int_increasing power_int_strict_increasing one_le_numeral one_less_numeral_iff
      semiring_norm(76) not_le)

lemma powi2_less: "(2 :: rat) powi a < 2 powi b \<longleftrightarrow> a < b"
  using powi2_le [of b a] by (simp add: not_le [symmetric])

lemma powi2_add: "(2 :: rat) powi (a + b) = 2 powi a * 2 powi b"
  by (simp add: power_int_add)

lemma floor_log2_bounds:
  assumes "0 < x"
  shows "2 powi floor_log2 x \<le> x" and "x < 2 powi (floor_log2 x + 1)"
proof -
  obtain n d where nd: "quotient_of x = (n, d)" by force
  have d: "0 < d" and x: "x = of_int n / of_int d"
    using nd quotient_of_denom_pos quotient_of_div by auto
  then have n: "0 < n" using assms by (simp add: zero_less_divide_iff)
  have bn: "2 ^ nat (bitlen n - 1) \<le> n" "n < 2 ^ nat (bitlen n)"
    and bd: "2 ^ nat (bitlen d - 1) \<le> d" "d < 2 ^ nat (bitlen d)"
    using bitlen_bounds n d by blast+
  have ln: "1 \<le> bitlen n" and ld: "1 \<le> bitlen d"
    using n d bitlen_eq_zero_iff bitlen_nonneg by (metis int_one_le_iff_zero_less order_le_less not_le)+
  have up: "(of_int m :: rat) < 2 powi bitlen m" and lo: "2 powi (bitlen m - 1) \<le> (of_int m :: rat)"
    if "m < 2 ^ nat (bitlen m)" "2 ^ nat (bitlen m - 1) \<le> m" "1 \<le> bitlen m" for m
  proof -
    have "(of_int m :: rat) < of_int (2 ^ nat (bitlen m))"
      and "(of_int (2 ^ nat (bitlen m - 1)) :: rat) \<le> of_int m"
      using that(1,2) by (simp_all only: of_int_less_iff of_int_le_iff)
    then show "(of_int m :: rat) < 2 powi bitlen m" "2 powi (bitlen m - 1) \<le> (of_int m :: rat)"
      using that(3) by (simp_all add: power_int_nonneg_exp)
  qed
  define k where "k = bitlen n - bitlen d"
  have "x < 2 powi bitlen n / 2 powi (bitlen d - 1)"
    unfolding x using up [OF bn(2,1) ln] lo [OF bd(2,1) ld] d n
    by (intro frac_less) auto
  also have "\<dots> = 2 powi (k + 1)"
    by (simp add: k_def power_int_diff power_int_add)
  finally have hi: "x < 2 powi (k + 1)" .
  have "2 powi (bitlen n - 1) / 2 powi bitlen d < x"
    unfolding x using up [OF bd(2,1) ld] lo [OF bn(2,1) ln] d n
    by (intro frac_less2) auto
  moreover have "2 powi (bitlen n - 1) / 2 powi bitlen d = (2 :: rat) powi (k - 1)"
    by (simp add: k_def power_int_diff)
  ultimately have lo': "2 powi (k - 1) < x" by simp
  have fl: "floor_log2 x = (if 2 powi k \<le> x then k else k - 1)"
    by (simp add: floor_log2_def nd k_def Let_def)
  show "2 powi floor_log2 x \<le> x" and "x < 2 powi (floor_log2 x + 1)"
    using fl hi lo' by auto
qed

lemma floor_log2_unique:
  assumes "2 powi k \<le> x" and "x < 2 powi (k + 1)"
  shows "floor_log2 x = k"
proof -
  have "0 < x" using assms(1) powi2_pos less_le_trans by blast
  note b = floor_log2_bounds [OF this]
  from b(1) assms(2) have "(2 :: rat) powi floor_log2 x < 2 powi (k + 1)" by (rule le_less_trans)
  moreover from assms(1) b(2) have "(2 :: rat) powi k < 2 powi (floor_log2 x + 1)" by (rule le_less_trans)
  ultimately show ?thesis by (simp add: powi2_less)
qed

lemma floor_log2_mono:
  assumes "0 < x" and "x \<le> y"
  shows "floor_log2 x \<le> floor_log2 y"
proof -
  have "0 < y" using assms by simp
  have "(2 :: rat) powi floor_log2 x < 2 powi (floor_log2 y + 1)"
    using floor_log2_bounds(1) [OF assms(1)] floor_log2_bounds(2) [OF \<open>0 < y\<close>] assms(2) by linarith
  then show ?thesis by (simp add: powi2_less)
qed

lemma expo_mono: "0 < x \<Longrightarrow> x \<le> y \<Longrightarrow> expo x \<le> expo y"
  using floor_log2_mono [of x y] by (auto simp: expo_def)

lemma rne_of_int [simp]: "rne (of_int k) = k"
  by (simp add: rne_def)

lemma rne_near: "of_int (rne x) - 1 / 2 \<le> x" "x \<le> of_int (rne x) + 1 / 2"
  by (auto simp: rne_def Let_def; linarith)+

lemma rne_mono:
  assumes "x \<le> y"
  shows "rne x \<le> rne y"
proof -
  have cases: "rne z = \<lfloor>z\<rfloor> \<or> rne z = \<lfloor>z\<rfloor> + 1" for z
    by (auto simp: rne_def Let_def)
  have le: "\<lfloor>x\<rfloor> \<le> \<lfloor>y\<rfloor>" using assms by (rule floor_mono)
  show ?thesis
  proof (cases "\<lfloor>x\<rfloor> = \<lfloor>y\<rfloor>")
    case True
    then show ?thesis using assms by (auto simp: rne_def Let_def)
  next
    case False
    then show ?thesis using cases [of x] cases [of y] le by auto
  qed
qed

lemma rne_ge: "of_int k \<le> x \<Longrightarrow> k \<le> rne x"
  using rne_mono [of "of_int k" x] by simp

lemma rne_le: "x \<le> of_int k \<Longrightarrow> rne x \<le> k"
  using rne_mono [of x "of_int k"] by simp

lemma round_pos_nonneg: "0 < x \<Longrightarrow> 0 \<le> round_pos x"
  using rne_ge [of 0 "x / 2 powi expo x"] by (simp add: round_pos_def)

text \<open>A value on the grid of its own exponent is not changed.\<close>

lemma round_pos_grid:
  assumes "x = of_int m * 2 powi e" and "expo x \<le> e"
  shows "round_pos x = x"
proof -
  have "x / 2 powi expo x = of_int m * 2 powi (e - expo x)"
    using assms(1) by (simp add: power_int_diff)
  also have "\<dots> = of_int (m * 2 ^ nat (e - expo x))"
    using assms(2) by (simp add: power_int_nonneg_exp)
  finally have q: "x / 2 powi expo x = of_int (m * 2 ^ nat (e - expo x))" .
  then have "round_pos x = (x / 2 powi expo x) * 2 powi expo x"
    unfolding round_pos_def by (simp only: rne_of_int)
  then show ?thesis by simp
qed

lemma round_pos_53bit:
  assumes "0 < m" and "m < 2 ^ 53" and "- 1074 \<le> e"
  shows "round_pos (of_int m * 2 powi e) = of_int m * 2 powi e"
proof (rule round_pos_grid [OF refl])
  let ?x = "of_int m * 2 powi e :: rat"
  have pos: "0 < ?x" using assms(1) by simp
  have "(of_int m :: rat) < of_int (2 ^ 53)" using assms(2) by (simp only: of_int_less_iff)
  then have "?x < 2 powi (53 + e)" by (simp add: powi2_add)
  then have "(2 :: rat) powi floor_log2 ?x < 2 powi (53 + e)"
    using floor_log2_bounds(1) [OF pos] by (rule le_less_trans [rotated])
  then show "expo ?x \<le> e" using assms(3) by (simp add: powi2_less expo_def)
qed

lemma round_pos_shape:
  assumes "0 < x"
  obtains m where "round_pos x = of_int m * 2 powi expo x" and "0 \<le> m" and "m \<le> 2 ^ 53"
proof (rule that [of "rne (x / 2 powi expo x)"])
  show "round_pos x = of_int (rne (x / 2 powi expo x)) * 2 powi expo x"
    by (simp add: round_pos_def)
  show "0 \<le> rne (x / 2 powi expo x)"
    using assms by (intro rne_ge) simp
  have "x < 2 powi (floor_log2 x + 1)" by (rule floor_log2_bounds(2) [OF assms])
  also have "\<dots> \<le> 2 powi (53 + expo x)" by (simp add: powi2_le expo_def)
  finally have "x / 2 powi expo x \<le> of_int (2 ^ 53)"
    by (simp add: powi2_add divide_le_eq)
  then show "rne (x / 2 powi expo x) \<le> 2 ^ 53" by (rule rne_le)
qed

lemma round_pos_idem:
  assumes "0 < x" and "0 < round_pos x"
  shows "round_pos (round_pos x) = round_pos x"
proof -
  obtain m where m: "round_pos x = of_int m * 2 powi expo x" "0 \<le> m" "m \<le> 2 ^ 53"
    using round_pos_shape [OF assms(1)] .
  have e: "- 1074 \<le> expo x" by (simp add: expo_def)
  have "0 < m" using assms(2) m(1,2) by (cases "m = 0") auto
  show ?thesis
  proof (cases "m = 2 ^ 53")
    case False
    then show ?thesis using m \<open>0 < m\<close> e round_pos_53bit [of m "expo x"] by simp
  next
    case True
    then have "round_pos x = of_int (2 ^ 52) * 2 powi (expo x + 1)"
      using m(1) by (simp add: powi2_add)
    then show ?thesis using e round_pos_53bit [of "2 ^ 52" "expo x + 1"] by simp
  qed
qed

lemma round_pos_mono:
  assumes "0 < x" and "x \<le> y"
  shows "round_pos x \<le> round_pos y"
proof (cases "expo x = expo y")
  case True
  then have "x / 2 powi expo x \<le> y / 2 powi expo y"
    using assms(2) by (simp add: divide_right_mono)
  then have "rne (x / 2 powi expo x) \<le> rne (y / 2 powi expo y)" by (rule rne_mono)
  then show ?thesis by (simp add: round_pos_def True)
next
  case False
  then have less: "expo x < expo y" using expo_mono [OF assms] by simp
  have "0 < y" using assms by simp
  have ey: "expo y = floor_log2 y - 52"
    using less by (auto simp: expo_def max_def split: if_splits)
  have "of_int (2 ^ 52) \<le> y / 2 powi expo y"
    using floor_log2_bounds(1) [OF \<open>0 < y\<close>] by (simp add: ey le_divide_eq power_int_diff)
  then have "2 ^ 52 \<le> rne (y / 2 powi expo y)" by (rule rne_ge)
  then have "of_int (2 ^ 52) * 2 powi expo y \<le> round_pos y"
    unfolding round_pos_def by (intro mult_right_mono) (simp_all only: of_int_le_iff, simp)
  then have hi: "2 powi (52 + expo y) \<le> round_pos y" by (simp add: powi2_add)
  obtain m where m: "round_pos x = of_int m * 2 powi expo x" "m \<le> 2 ^ 53"
    using round_pos_shape [OF assms(1)] .
  have "(of_int m :: rat) \<le> of_int (2 ^ 53)" using m(2) by (simp only: of_int_le_iff)
  then have "round_pos x \<le> 2 powi (53 + expo x)"
    by (simp add: m(1) powi2_add)
  also have "\<dots> \<le> 2 powi (52 + expo y)" using less by (simp add: powi2_le)
  finally show ?thesis using hi by simp
qed

section \<open>Doubles\<close>

datatype double = Fin rat | Neg_zero | Pos_inf | Neg_inf | NaN

text \<open>Rounding an exact non-zero result to a double; zero results fix their sign themselves.\<close>

definition round64 :: "rat \<Rightarrow> double" where
  "round64 x =
     (if x = 0 then Fin 0
      else
        (let r = round_pos \<bar>x\<bar>
         in if max_exp \<le> r then (if x < 0 then Neg_inf else Pos_inf)
            else if x < 0 then (if r = 0 then Neg_zero else Fin (- r))
            else Fin r))"

fun num :: "double \<Rightarrow> rat" where
  "num (Fin x) = x"
| "num _ = 0"

fun is_finite :: "double \<Rightarrow> bool" where
  "is_finite (Fin _) = True"
| "is_finite Neg_zero = True"
| "is_finite _ = False"

fun signbit :: "double \<Rightarrow> bool" where
  "signbit (Fin x) = (x < 0)"
| "signbit Neg_zero = True"
| "signbit Neg_inf = True"
| "signbit _ = False"

text \<open>\<open>operator<\<close> and \<open>operator<=\<close>: false whenever a NaN is involved.\<close>

instantiation double :: ord
begin

fun less_double :: "double \<Rightarrow> double \<Rightarrow> bool" where
  "less_double NaN b = False"
| "less_double a NaN = False"
| "less_double Neg_inf b = (b \<noteq> Neg_inf)"
| "less_double a Neg_inf = False"
| "less_double Pos_inf b = False"
| "less_double a Pos_inf = True"
| "less_double a b = (num a < num b)"

definition less_eq_double :: "double \<Rightarrow> double \<Rightarrow> bool" where
  "less_eq_double a b \<longleftrightarrow> a \<noteq> NaN \<and> b \<noteq> NaN \<and> \<not> b < a"

instance ..

end

instantiation double :: "{zero, one, uminus, plus, minus, times}"
begin

definition zero_double :: double where
  "zero_double = Fin 0"

definition one_double :: double where
  "one_double = Fin 1"

definition uminus_double :: "double \<Rightarrow> double" where
  "uminus_double a =
     (case a of
        Fin x \<Rightarrow> if x = 0 then Neg_zero else Fin (- x)
      | Neg_zero \<Rightarrow> Fin 0
      | Pos_inf \<Rightarrow> Neg_inf
      | Neg_inf \<Rightarrow> Pos_inf
      | NaN \<Rightarrow> NaN)"

definition plus_double :: "double \<Rightarrow> double \<Rightarrow> double" where
  "plus_double a b =
     (if a = NaN \<or> b = NaN then NaN
      else if is_finite a \<and> is_finite b then
        (if num a + num b = 0 then (if signbit a \<and> signbit b then Neg_zero else Fin 0)
         else round64 (num a + num b))
      else if is_finite a then b
      else if is_finite b \<or> a = b then a
      else NaN)"

definition minus_double :: "double \<Rightarrow> double \<Rightarrow> double" where
  "minus_double a b = a + - b"

definition times_double :: "double \<Rightarrow> double \<Rightarrow> double" where
  "times_double a b =
     (if a = NaN \<or> b = NaN then NaN
      else if is_finite a \<and> is_finite b then
        (if num a * num b = 0 then (if signbit a \<noteq> signbit b then Neg_zero else Fin 0)
         else round64 (num a * num b))
      else if (is_finite a \<and> num a = 0) \<or> (is_finite b \<and> num b = 0) then NaN
      else if signbit a \<noteq> signbit b then Neg_inf else Pos_inf)"

instance ..

end

section \<open>Conversions\<close>

text \<open>\<open>static_cast<double>\<close> of a 64-bit integer, and the truncation of a finite double.\<close>

definition of_int64 :: "int \<Rightarrow> double" where
  "of_int64 i = round64 (of_int i)"

definition trunc_rat :: "rat \<Rightarrow> int" where
  "trunc_rat x = (if 0 \<le> x then \<lfloor>x\<rfloor> else \<lceil>x\<rceil>)"

text \<open>\<open>operator==\<close>, which identifies the two zeros, and \<open>std::trunc\<close>.\<close>

definition double_eq :: "double \<Rightarrow> double \<Rightarrow> bool" where
  "double_eq a b \<longleftrightarrow>
     a \<noteq> NaN \<and> b \<noteq> NaN \<and> (a = b \<or> (is_finite a \<and> is_finite b \<and> num a = num b))"

fun double_trunc :: "double \<Rightarrow> double" where
  "double_trunc (Fin x) =
     (if trunc_rat x = 0 \<and> x < 0 then Neg_zero else Fin (of_int (trunc_rat x)))"
| "double_trunc d = d"

text \<open>\<open>std::fmod\<close> by a finite non-zero divisor: exact, with the sign of the dividend.\<close>

definition fmod :: "double \<Rightarrow> double \<Rightarrow> double" where
  "fmod a b =
     (if a = NaN \<or> b = NaN \<or> \<not> is_finite a \<or> (is_finite b \<and> num b = 0) then NaN
      else if \<not> is_finite b then a
      else
        (let r = num a - of_int (trunc_rat (num a / num b)) * num b
         in if r = 0 then (if signbit a then Neg_zero else Fin 0) else Fin r))"

section \<open>Well-formed doubles\<close>

text \<open>
  A rational is representable when rounding keeps it and it is below \<open>2 ^ 1024\<close>. The
  invariant \<open>is_double\<close> says that a finite value is representable; every operation of
  the code keeps it because its result is rounded.
\<close>

definition representable :: "rat \<Rightarrow> bool" where
  "representable x \<longleftrightarrow> x = 0 \<or> (round_pos \<bar>x\<bar> = \<bar>x\<bar> \<and> \<bar>x\<bar> < max_exp)"

fun is_double :: "double \<Rightarrow> bool" where
  "is_double (Fin x) = representable x"
| "is_double _ = True"

lemma representable_uminus [simp]: "representable (- x) = representable x"
  by (simp add: representable_def)

lemma round64_is_double [simp]: "is_double (round64 x)"
proof (cases "x = 0")
  case True
  then show ?thesis by (simp add: round64_def representable_def)
next
  case False
  have "representable (round_pos \<bar>x\<bar>)" if "round_pos \<bar>x\<bar> < max_exp"
    using that False round_pos_idem [of "\<bar>x\<bar>"] round_pos_nonneg [of "\<bar>x\<bar>"]
    by (cases "round_pos \<bar>x\<bar> = 0") (auto simp: representable_def)
  with False show ?thesis by (auto simp: round64_def Let_def)
qed

lemma arith_is_double [simp]:
  "is_double a \<Longrightarrow> is_double b \<Longrightarrow> is_double (a + b)"
  "is_double a \<Longrightarrow> is_double b \<Longrightarrow> is_double (a * b)"
  by (auto simp: plus_double_def times_double_def representable_def)

text \<open>Rounding leaves representable values alone, so every small integer is exact.\<close>

lemma round64_representable: "representable x \<Longrightarrow> round64 x = Fin x"
  by (auto simp: round64_def representable_def Let_def)

lemma representable_of_int:
  assumes "\<bar>i\<bar> < 2 ^ 53"
  shows "representable (of_int i)"
proof (cases "i = 0")
  case True
  then show ?thesis by (simp add: representable_def)
next
  case False
  have "round_pos (of_int \<bar>i\<bar> * 2 powi 0) = of_int \<bar>i\<bar> * 2 powi 0"
    using assms False by (intro round_pos_53bit) auto
  moreover have "(of_int \<bar>i\<bar> :: rat) < of_int (2 ^ 53)" using assms by (simp only: of_int_less_iff)
  moreover have "(2 :: rat) ^ 53 \<le> 2 ^ 1024" by (rule power_increasing) auto
  ultimately show ?thesis by (simp add: representable_def)
qed

lemma of_int64_exact: "\<bar>i\<bar> < 2 ^ 53 \<Longrightarrow> of_int64 i = Fin (of_int i)"
  by (simp add: of_int64_def round64_representable representable_of_int)

text \<open>
  The fact behind every comparison the code makes before it converts back to an integer:
  a representable value strictly below a rounded one is below or equal to the exact one.
\<close>

lemma less_round64:
  assumes "representable d" and "0 \<le> d" and "0 \<le> x" and "Fin d < round64 x"
  shows "d \<le> x"
proof (rule ccontr)
  assume "\<not> d \<le> x"
  then have less: "x < d" by simp
  show False
  proof (cases "x = 0")
    case True
    then show ?thesis using assms(2,4) by (simp add: round64_def)
  next
    case False
    then have pos: "0 < x" using assms(3) by simp
    have "round_pos x \<le> round_pos d" using pos less by (intro round_pos_mono) simp_all
    moreover have "round_pos d = d" and "d < max_exp"
      using assms(1,2) less pos by (auto simp: representable_def)
    ultimately have "round_pos x \<le> d" and "round_pos x < max_exp" by simp_all
    then show ?thesis using assms(4) pos by (simp add: round64_def Let_def)
  qed
qed

lemma representable_grid:
  assumes "x = of_int m * 2 powi e" and "\<bar>m\<bar> < 2 ^ 53" and "- 1074 \<le> e" and "\<bar>x\<bar> < max_exp"
  shows "representable x"
proof (cases "m = 0")
  case True
  then show ?thesis using assms(1) by (simp add: representable_def)
next
  case False
  have "\<bar>x\<bar> = of_int \<bar>m\<bar> * 2 powi e" using assms(1) by (simp add: abs_mult)
  then have "round_pos \<bar>x\<bar> = \<bar>x\<bar>"
    using round_pos_53bit [of "\<bar>m\<bar>" e] False assms(2,3) by simp
  then show ?thesis using assms(4) by (simp add: representable_def)
qed

text \<open>Rounding stays between zero and a representable bound.\<close>

lemma round64_upto:
  assumes "0 \<le> q" and "q \<le> b" and "representable b"
  shows "is_finite (round64 q)" and "0 \<le> num (round64 q)" and "num (round64 q) \<le> b"
proof -
  have "is_finite (round64 q) \<and> 0 \<le> num (round64 q) \<and> num (round64 q) \<le> b"
  proof (cases "q = 0")
    case True
    then show ?thesis using assms(2) by (simp add: round64_def)
  next
    case False
    then have pos: "0 < q" "0 < b" using assms(1,2) by auto
    have "round_pos q \<le> round_pos b" using pos(1) assms(2) by (rule round_pos_mono)
    moreover have "round_pos b = b" "b < max_exp" using assms(3) pos(2) by (auto simp: representable_def)
    ultimately have "round_pos q \<le> b" "\<not> max_exp \<le> round_pos q" by simp_all
    then show ?thesis
      using pos round_pos_nonneg [OF pos(1)] by (simp add: round64_def Let_def)
  qed
  then show "is_finite (round64 q)" "0 \<le> num (round64 q)" "num (round64 q) \<le> b" by auto
qed

end
