(* ===== verification/Ecmwf.thy ===== *)
theory Ecmwf
  imports Sidecar Binary64
begin

text \<open>
  The ECMWF half of \<open>src/models/sidecar.cpp\<close>: reading offsets and lengths exactly out of
  JSON numbers, rendering JSON scalars as text, and \<open>parse_ecmwf_index\<close>.
  The JSON library (glaze) is a parameter: the record \<open>glaze\<close> holds the calls the code
  makes on a \<open>glz::generic_u64\<close>, and nothing is assumed about them. The decimal text of
  a double (\<open>std::to_chars\<close>) is the parameter \<open>f64_chars\<close> of the same record.
\<close>

section \<open>The JSON library as the code calls it\<close>

record 'j glaze =
  gz_read :: "string \<Rightarrow> 'j option"
  gz_is_object :: "'j \<Rightarrow> bool"
  gz_find :: "'j \<Rightarrow> string \<Rightarrow> 'j option"
  gz_is_number :: "'j \<Rightarrow> bool"
  gz_string :: "'j \<Rightarrow> string option"
  gz_u64 :: "'j \<Rightarrow> u64 option"
  gz_i64 :: "'j \<Rightarrow> u64 option"
  gz_f64 :: "'j \<Rightarrow> double option"
  f64_chars :: "double \<Rightarrow> string option"

text \<open>
  \<open>gz_read\<close> is \<open>glz::read\<close> with the code's options, \<open>None\<close> when it reports an error;
  \<open>gz_string\<close> is \<open>is_string()\<close> with \<open>get<std::string>()\<close>; \<open>gz_u64\<close>, \<open>gz_i64\<close> and
  \<open>gz_f64\<close> are the three \<open>get_if\<close>s. A signed 64-bit number is its word, read by \<open>sint\<close>.
\<close>

section \<open>Scalars\<close>

definition generic_to_string :: "'j glaze \<Rightarrow> 'j \<Rightarrow> string" where
  "generic_to_string G v =
     (case gz_string G v of
        Some s \<Rightarrow> s
      | None \<Rightarrow>
          (case gz_u64 G v of
             Some number \<Rightarrow> to_string_u64 number
           | None \<Rightarrow>
               (case gz_i64 G v of
                  Some number \<Rightarrow> to_string_int (sint number)
                | None \<Rightarrow>
                    (case gz_f64 G v of
                       None \<Rightarrow> []
                     | Some number \<Rightarrow>
                         if is_finite number then
                           (case f64_chars G number of Some text \<Rightarrow> text | None \<Rightarrow> [])
                         else []))))"

text \<open>The conditions on a double that \<open>exact_u64\<close> accepts, in the code's order.\<close>

definition exact_double :: "double \<Rightarrow> bool" where
  "exact_double d \<longleftrightarrow>
     is_finite d \<and> Fin 0 \<le> d \<and> d < Fin 9007199254740992 \<and> double_eq (double_trunc d) d"

definition exact_u64 :: "'j glaze \<Rightarrow> 'j \<Rightarrow> u64 option" where
  "exact_u64 G v =
     (case gz_u64 G v of
        Some number \<Rightarrow> Some number
      | None \<Rightarrow>
          (case (case gz_i64 G v of Some number \<Rightarrow> if 0 \<le> sint number then Some number else None
                 | None \<Rightarrow> None) of
             Some number \<Rightarrow> Some number
           | None \<Rightarrow>
               (case gz_f64 G v of
                  Some number \<Rightarrow>
                    if exact_double number then Some (of_int (trunc_rat (num number))) else None
                | None \<Rightarrow> None)))"

section \<open>One line\<close>

abbreviation bad_json :: "string \<Rightarrow> error" where
  "bad_json line \<equiv> err_parse (''ecmwf .index: invalid JSON line: '' @ line)"

abbreviation missing_range :: "string \<Rightarrow> error" where
  "missing_range line \<equiv> err_parse (''ecmwf .index: missing _offset/_length in: '' @ line)"

abbreviation bad_range :: error where
  "bad_range \<equiv> err_parse ''ecmwf .index: invalid byte range''"

text \<open>The member: \<open>type\<close> "cf" is the control run, otherwise \<open>number\<close> if it is an \<open>int\<close>.\<close>

definition whole_int :: "string \<Rightarrow> int" where
  "whole_int n =
     (if n = [] then - 1
      else (case from_chars_int n of
              Parsed parsed rest \<Rightarrow> if rest = [] then parsed else - 1
            | Invalid_argument \<Rightarrow> - 1
            | Out_of_range rest \<Rightarrow> - 1))"

definition ecmwf_member :: "'j glaze \<Rightarrow> 'j \<Rightarrow> int" where
  "ecmwf_member G obj =
     (if (case gz_find G obj ''type'' of Some t \<Rightarrow> gz_string G t = Some ''cf'' | None \<Rightarrow> False) then 0
      else (case gz_find G obj ''number'' of
              Some n \<Rightarrow> whole_int (generic_to_string G n)
            | None \<Rightarrow> - 1))"

definition field_text :: "'j glaze \<Rightarrow> 'j \<Rightarrow> string \<Rightarrow> string" where
  "field_text G obj key =
     (case gz_find G obj key of Some v \<Rightarrow> generic_to_string G v | None \<Rightarrow> [])"

definition ecmwf_level :: "'j glaze \<Rightarrow> 'j \<Rightarrow> string" where
  "ecmwf_level G obj =
     (case gz_find G obj ''levelist'' of
        Some ll \<Rightarrow> generic_to_string G ll
      | None \<Rightarrow> (case gz_find G obj ''levtype'' of
                   Some lt \<Rightarrow> generic_to_string G lt
                 | None \<Rightarrow> []))"

definition ecmwf_range :: "'j glaze \<Rightarrow> 'j \<Rightarrow> string \<Rightarrow> (u64 \<times> u64) result" where
  "ecmwf_range G obj line =
     (case (gz_find G obj ''_offset'', gz_find G obj ''_length'') of
        (Some off, Some len) \<Rightarrow>
          if \<not> gz_is_number G off \<or> \<not> gz_is_number G len then Inl (missing_range line)
          else
            (case (exact_u64 G off, exact_u64 G len) of
               (Some o64, Some l64) \<Rightarrow>
                 if 0 < l64 \<and> u64_max - o64 < l64 - 1 then Inl bad_range else Inr (o64, l64)
             | _ \<Rightarrow> Inl bad_range)
      | _ \<Rightarrow> Inl (missing_range line))"

definition ecmwf_entry :: "'j glaze \<Rightarrow> string \<Rightarrow> grib_index_entry result" where
  "ecmwf_entry G line =
     (case gz_read G line of
        None \<Rightarrow> Inl (bad_json line)
      | Some doc \<Rightarrow>
          if \<not> gz_is_object G doc then Inl (bad_json line)
          else
            (case ecmwf_range G doc line of
               Inl err \<Rightarrow> Inl err
             | Inr (off, len) \<Rightarrow>
                 Inr (new_entry\<lparr>
                   e_raw := line,
                   e_offset := off,
                   e_length := len,
                   e_param := field_text G doc ''param'',
                   e_level := ecmwf_level G doc,
                   e_step := field_text G doc ''step'',
                   e_member := ecmwf_member G doc\<rparr>)))"

fun ecmwf_lines :: "'j glaze \<Rightarrow> string list \<Rightarrow> grib_index_entry list \<Rightarrow>
    grib_index_entry list result" where
  "ecmwf_lines G [] entries = Inr entries"
| "ecmwf_lines G (raw # lines) entries =
     (let line = strip_cr raw in
      if line = [] then ecmwf_lines G lines entries
      else (case ecmwf_entry G line of
              Inl err \<Rightarrow> Inl err
            | Inr e \<Rightarrow> ecmwf_lines G lines (entries @ [e])))"

definition parse_ecmwf_index :: "'j glaze \<Rightarrow> string \<Rightarrow> grib_index_entry list result" where
  "parse_ecmwf_index G text = ecmwf_lines G (split text CHR 0x0A) []"

section \<open>Specification\<close>

definition json_lines :: "string \<Rightarrow> string list" where
  "json_lines text = filter (\<lambda>l. l \<noteq> []) (map strip_cr (split text CHR 0x0A))"

lemma ecmwf_lines_collect:
  "ecmwf_lines G ls acc =
     (case collect (ecmwf_entry G) (filter (\<lambda>l. l \<noteq> []) (map strip_cr ls)) of
        Inl err \<Rightarrow> Inl err
      | Inr es \<Rightarrow> Inr (acc @ es))"
  by (induction G ls acc rule: ecmwf_lines.induct) (auto simp: Let_def split: sum.splits)

lemma parse_ecmwf_index_collect:
  "parse_ecmwf_index G text = collect (ecmwf_entry G) (json_lines text)"
  by (simp add: parse_ecmwf_index_def json_lines_def ecmwf_lines_collect split: sum.split)

section \<open>Exact numbers and byte ranges\<close>

lemma exact_double_value:
  assumes "exact_double d"
  shows "num d = of_int (trunc_rat (num d))" and "0 \<le> trunc_rat (num d)"
    and "trunc_rat (num d) < 2 ^ 53"
proof -
  from assms have fin: "is_finite d" and nonneg: "Fin 0 \<le> d" and small: "d < Fin 9007199254740992"
    and whole: "double_eq (double_trunc d) d"
    by (auto simp: exact_double_def)
  have ge: "0 \<le> num d" and lt: "num d < 2 ^ 53"
    using fin nonneg small by (cases d; simp add: less_eq_double_def not_less)+
  show eq: "num d = of_int (trunc_rat (num d))"
    using fin whole ge by (cases d) (auto simp: double_eq_def trunc_rat_def split: if_splits)
  then show "0 \<le> trunc_rat (num d)" using ge by (simp add: trunc_rat_def)
  have "(of_int (trunc_rat (num d)) :: rat) < of_int (2 ^ 53)" using eq lt by simp
  then show "trunc_rat (num d) < 2 ^ 53" by (simp only: of_int_less_iff)
qed

lemma ecmwf_range_fits:
  assumes "ecmwf_range G obj line = Inr (off, len)"
  shows "len = 0 \<or> unat off + unat len - 1 < 2 ^ 64"
proof -
  have "\<not> (0 < len \<and> u64_max - off < len - 1)"
    using assms by (auto simp: ecmwf_range_def split: option.splits if_splits)
  then have "\<not> (0 < unat len \<and> 2 ^ 64 \<le> unat off + unat len - 1)"
    by (simp only: range_guard_iff not_False_eq_True)
  then show ?thesis by (auto simp: unat_gt_0)
qed

lemma ecmwf_entry_InrE:
  assumes "ecmwf_entry G line = Inr e"
  obtains doc where "gz_read G line = Some doc" and "gz_is_object G doc"
    and "ecmwf_range G doc line = Inr (e_offset e, e_length e)"
    and "e_raw e = line" and "e_member e = ecmwf_member G doc"
    and "e_param e = field_text G doc ''param''" and "e_level e = ecmwf_level G doc"
    and "e_step e = field_text G doc ''step''"
  using assms by (auto simp: ecmwf_entry_def split: option.splits if_splits sum.splits)

lemma whole_int_range: "int32_min \<le> whole_int s \<and> whole_int s \<le> int32_max"
  by (cases "from_chars_int s") (auto simp: whole_int_def dest: from_chars_int_range)

lemma ecmwf_member_range: "int32_min \<le> ecmwf_member G obj \<and> ecmwf_member G obj \<le> int32_max"
  using whole_int_range by (auto simp: ecmwf_member_def split: option.split)

lemma whole_int_print: "0 \<le> n \<Longrightarrow> n \<le> int32_max \<Longrightarrow> whole_int (to_string_int n) = n"
  using int_codec.rd_prn_all [of n] int_codec.prn_ne [of n] by (simp add: whole_int_def)

lemma sint_nonneg: "0 \<le> sint (w :: u64) \<Longrightarrow> sint w = int (unat w)"
proof -
  assume "0 \<le> sint w"
  moreover have "sint w < 2 ^ 63" using sint_lt [of w] by simp
  ultimately have "uint (of_int (sint w) :: u64) = sint w"
    by (intro uint_of_int_u64) simp_all
  then show ?thesis by simp
qed

section \<open>A concrete reader\<close>

text \<open>
  An instance of the parameter, for evaluation: JSON values as a datatype and a reader
  that knows a table of documents.
\<close>

datatype jval =
    JStr string
  | JU64 u64
  | JI64 u64
  | JF64 double
  | JObj "(string \<times> jval) list"

definition table_glaze :: "(string \<times> jval) list \<Rightarrow> jval glaze" where
  "table_glaze docs =
     \<lparr>gz_read = map_of docs,
      gz_is_object = (\<lambda>v. case v of JObj _ \<Rightarrow> True | _ \<Rightarrow> False),
      gz_find = (\<lambda>v k. case v of JObj kvs \<Rightarrow> map_of kvs k | _ \<Rightarrow> None),
      gz_is_number = (\<lambda>v. case v of JU64 _ \<Rightarrow> True | JI64 _ \<Rightarrow> True | JF64 _ \<Rightarrow> True | _ \<Rightarrow> False),
      gz_string = (\<lambda>v. case v of JStr s \<Rightarrow> Some s | _ \<Rightarrow> None),
      gz_u64 = (\<lambda>v. case v of JU64 w \<Rightarrow> Some w | _ \<Rightarrow> None),
      gz_i64 = (\<lambda>v. case v of JI64 w \<Rightarrow> Some w | _ \<Rightarrow> None),
      gz_f64 = (\<lambda>v. case v of JF64 d \<Rightarrow> Some d | _ \<Rightarrow> None),
      f64_chars = (\<lambda>_. None)\<rparr>"

definition sample_docs :: "(string \<times> jval) list" where
  "sample_docs =
     [(''{cf}'', JObj [(''type'', JStr ''cf''), (''number'', JStr ''0''), (''levtype'', JStr ''sfc''),
         (''param'', JStr ''2t''), (''_offset'', JU64 9000), (''_length'', JU64 1000)]),
      (''{pf}'', JObj [(''type'', JStr ''pf''), (''number'', JStr ''12''), (''levtype'', JStr ''sfc''),
         (''param'', JStr ''2t''), (''_offset'', JF64 (Fin 10000)), (''_length'', JU64 1000)])]"

definition sample_index :: string where
  "sample_index = ''{cf}'' @ [CHR 0x0A] @ ''{pf}'' @ [CHR 0x0A]"

lemmas sample_index_defs =
  sample_docs_def table_glaze_def ecmwf_entry_def ecmwf_range_def
  exact_u64_def exact_double_def double_eq_def less_eq_double_def trunc_rat_def
  field_text_def ecmwf_level_def ecmwf_member_def generic_to_string_def whole_int_def
  from_chars_int_def is_digit_def dec_val_def digit_val_def

lemma sample_index_lines: "json_lines sample_index = [''{cf}'', ''{pf}'']"
  by (simp add: json_lines_def sample_index_def split_fields strip_cr_def)

lemma sample_index_parse:
  "parse_ecmwf_index (table_glaze sample_docs) sample_index =
     Inr [new_entry\<lparr>e_raw := ''{cf}'', e_offset := 9000, e_length := 1000, e_param := ''2t'',
            e_level := ''sfc'', e_member := 0\<rparr>,
          new_entry\<lparr>e_raw := ''{pf}'', e_offset := 10000, e_length := 1000, e_param := ''2t'',
            e_level := ''sfc'', e_member := 12\<rparr>]"
  by (simp add: parse_ecmwf_index_collect sample_index_lines sample_index_defs new_entry_def)

section \<open>Properties of the ECMWF parser\<close>

text \<open>
  The loop of \<open>parse_ecmwf_index\<close> is the collection of one entry per non-empty line
  (after one carriage return is dropped), failing with the error of the first bad line,
  for every JSON library.
\<close>

theorem ecmwf_meets_spec:
  "parse_ecmwf_index G text = collect (ecmwf_entry G) (json_lines text)"
  by (rule parse_ecmwf_index_collect)

lemma ranges_fit:
  assumes "parse_ecmwf_index G text = Inr es" and "e \<in> set es"
  shows "e_length e = 0 \<or> unat (e_offset e) + unat (e_length e) - 1 < 2 ^ 64"
proof -
  obtain line where "ecmwf_entry G line = Inr e"
    using assms by (auto simp: parse_ecmwf_index_collect collect_Inr list_all2_conv_all_nth in_set_conv_nth)
  then obtain doc where "ecmwf_range G doc line = Inr (e_offset e, e_length e)"
    by (rule ecmwf_entry_InrE)
  then show ?thesis by (rule ecmwf_range_fits)
qed

text \<open>
  \<open>exact_u64\<close> never changes a number: the 64-bit value it returns is the JSON number
  itself, and when the number was a double it is a whole number below 2 ^ 53, where a
  double holds every integer exactly.
\<close>

theorem exact_u64_exact:
  assumes "exact_u64 G v = Some n"
  shows "gz_u64 G v = Some n \<or>
         (\<exists>w. gz_i64 G v = Some w \<and> sint w = int (unat n)) \<or>
         (\<exists>d. gz_f64 G v = Some d \<and> is_finite d \<and> num d = of_nat (unat n) \<and> unat n < 2 ^ 53)"
proof -
  have dbl: "is_finite d \<and> num d = of_nat (unat n) \<and> unat n < 2 ^ 53"
    if "exact_double d" and "n = of_int (trunc_rat (num d))" for d
  proof -
    note v = exact_double_value [OF that(1)]
    have "int (unat n) = trunc_rat (num d)"
      using v(2,3) by (simp add: that(2) unsigned_of_int take_bit_int_eq_self)
    then have "(of_nat (unat n) :: rat) = num d"
      using v(1) by (metis of_int_of_nat_eq)
    moreover have "unat n < 2 ^ 53"
      using v(3) unfolding \<open>int (unat n) = _\<close> [symmetric]
      by (simp only: of_nat_less_numeral_power_cancel_iff)
    ultimately have "num d = of_nat (unat n) \<and> unat n < 2 ^ 53" by simp
    with that(1) show ?thesis by (simp add: exact_double_def)
  qed
  show ?thesis
    using assms
    by (auto simp: exact_u64_def sint_nonneg split: option.splits if_splits dest!: dbl)
qed

theorem exact_u64_exact_witness:
  "exact_u64 (table_glaze []) (JF64 (Fin 10000)) = Some 10000 \<and>
   (num (Fin 10000) = of_nat (unat (10000 :: u64)))"
proof -
  have e: "exact_u64 (table_glaze []) (JF64 (Fin 10000)) = Some 10000"
    by (simp add: sample_index_defs)
  show ?thesis using exact_u64_exact [OF e] e by (simp add: table_glaze_def)
qed

text \<open>
  The member of an ECMWF entry: a record of type "cf" is member 0; otherwise a
  \<open>number\<close> that prints an \<open>int\<close> n, as JSON text or number, gives member n.
\<close>

lemma ecmwf_member_decodes:
  assumes "0 \<le> n" and "n \<le> int32_max"
    and "gz_find G obj ''number'' = Some v" and "generic_to_string G v = to_string_int n"
  shows "ecmwf_member G obj =
    (if \<exists>t. gz_find G obj ''type'' = Some t \<and> gz_string G t = Some ''cf'' then 0 else n)"
  using assms by (auto simp: ecmwf_member_def whole_int_print split: option.splits)

end
