(* ===== verification/Message_Scan.thy ===== *)
theory Message_Scan
  imports Text "HOL-Library.Monad_Syntax"
begin

unbundle bit_operations_syntax

text \<open>
  The scanner \<open>find_message\<close> of \<open>src/decode/handle.cpp\<close>. Every read of the buffer is
  checked in the model: a read past the end, undefined behaviour in C++, makes the scan
  \<open>None\<close>, and the theorems show that this never happens. The big-endian length loop is
  modelled with the shifts on 64-bit words the code uses.
\<close>

section \<open>Checked reads\<close>

definition byte_at :: "string \<Rightarrow> nat \<Rightarrow> char option" where
  "byte_at buf k = (if k < length buf then Some (buf ! k) else None)"

text \<open>\<open>buf[i] == c0 && buf[i+1] == c1 && ...\<close>, left to right with short circuit.\<close>

fun match_at :: "string \<Rightarrow> nat \<Rightarrow> string \<Rightarrow> bool option" where
  "match_at buf i [] = Some True"
| "match_at buf i (c # cs) =
     do { x \<leftarrow> byte_at buf i; if x = c then match_at buf (i + 1) cs else Some False }"

text \<open>\<open>len = (len << 8) | byte\<close>, \<open>k\<close> times from position \<open>p\<close>.\<close>

fun read_be :: "string \<Rightarrow> nat \<Rightarrow> nat \<Rightarrow> u64 \<Rightarrow> u64 option" where
  "read_be buf p 0 len = Some len"
| "read_be buf p (Suc k) len =
     do { c \<leftarrow> byte_at buf p;
          read_be buf (p + 1) k (push_bit 8 len OR of_nat (of_char c)) }"

text \<open>\<open>buf.compare(pos, 4, lit) == 0\<close>; a position past the end throws.\<close>

definition compare4 :: "string \<Rightarrow> nat \<Rightarrow> string \<Rightarrow> bool option" where
  "compare4 buf pos lit = (if pos \<le> length buf then Some (take 4 (drop pos buf) = lit) else None)"

section \<open>The scanner\<close>

datatype scan_result = Found nat nat | End | Invalid

text \<open>What the body of the loop does at one position: go on or stop with a result.\<close>

datatype scan_step = Continue | Stop scan_result

definition check_message :: "string \<Rightarrow> nat \<Rightarrow> nat \<Rightarrow> u64 \<Rightarrow> scan_step option" where
  "check_message buf i min_len len =
     (if unat len < min_len \<or> length buf - i < unat len then Some (Stop Invalid)
      else do {
        tail \<leftarrow> compare4 buf (i + unat len - 4) ''7777'';
        if \<not> tail then Some (Stop Invalid) else Some (Stop (Found i (unat len)))
      })"

definition scan_body :: "string \<Rightarrow> nat \<Rightarrow> scan_step option" where
  "scan_body buf i =
     do {
       magic \<leftarrow> match_at buf i ''GRIB'';
       if \<not> magic then Some Continue
       else if length buf - i < 8 then Some (Stop Invalid)
       else do {
         c \<leftarrow> byte_at buf (i + 7);
         let edition = (of_char c :: nat);
         if edition = 2 then
           (if length buf - i < 16 then Some (Stop Invalid)
            else do { len \<leftarrow> read_be buf (i + 8) 8 0; check_message buf i 20 len })
         else if edition = 1 then
           do { len \<leftarrow> read_be buf (i + 4) 3 0; check_message buf i 12 len }
         else Some Continue
       }
     }"

function scan_loop :: "string \<Rightarrow> nat \<Rightarrow> scan_result option" where
  "scan_loop buf i =
     (if i < length buf \<and> 4 \<le> length buf - i
      then (case scan_body buf i of
              None \<Rightarrow> None
            | Some Continue \<Rightarrow> scan_loop buf (i + 1)
            | Some (Stop r) \<Rightarrow> Some r)
      else Some End)"
  by pat_completeness auto
termination
  by (relation "measure (\<lambda>(buf, i). length buf - i)") auto

declare scan_loop.simps [simp del]

text \<open>
  \<open>find_message\<close>: the outputs \<open>msg_start\<close> and \<open>msg_len\<close> are the arguments of \<open>Found\<close>.
  The \<open>None\<close> of an out-of-bounds read is never reached (\<open>scan_loop_safe\<close> below), so the
  value given to it here does not matter.
\<close>

definition find_message :: "string \<Rightarrow> nat \<Rightarrow> scan_result" where
  "find_message buf from = (case scan_loop buf from of Some r \<Rightarrow> r | None \<Rightarrow> Invalid)"

section \<open>Reading big-endian numbers\<close>

definition be_val :: "string \<Rightarrow> nat" where
  "be_val s = foldl (\<lambda>v c. 256 * v + of_char c) 0 s"

lemma shift_or_byte:
  fixes w :: u64
  assumes "unat w < 2 ^ 56" and "c < 256"
  shows "unat (push_bit 8 w OR of_nat c) = 256 * unat w + c"
proof -
  have "push_bit 8 w AND (of_nat c :: u64) = 0"
  proof (rule bit_eqI)
    fix n
    show "bit (push_bit 8 w AND of_nat c) n = bit (0 :: u64) n"
    proof (cases "n < 8")
      case True
      then show ?thesis by (simp add: bit_and_iff bit_push_bit_iff)
    next
      case False
      have "c < 2 ^ n" using assms(2) power_increasing [of 8 n "2 :: nat"] False by simp
      then have "\<not> bit c n" by (simp add: bit_iff_odd)
      then show ?thesis by (simp add: bit_and_iff bit_of_nat_iff)
    qed
  qed
  then have "push_bit 8 w OR of_nat c = push_bit 8 w + (of_nat c :: u64)"
    using disjunctive_add [of "push_bit 8 w" "of_nat c :: u64"]
    by (metis bit_0_eq bit_and_iff bot_apply bot_boolE)
  also have "\<dots> = of_nat (256 * unat w + c)"
    by (simp add: push_bit_eq_mult)
  finally show ?thesis
    using assms by (simp add: unat_of_nat_u64 del: of_nat_add of_nat_mult)
qed

lemma be_val_Nil [simp]: "be_val [] = 0"
  by (simp add: be_val_def)

lemma be_foldl: "foldl (\<lambda>v c. 256 * v + of_char c) a s = a * 256 ^ length s + be_val s"
proof (induction s rule: rev_induct)
  case Nil
  then show ?case by simp
next
  case (snoc c s)
  then show ?case by (simp add: be_val_def algebra_simps)
qed

lemma be_val_Cons: "be_val (c # s) = of_char c * 256 ^ length s + be_val s"
  using be_foldl [of "of_char c" s] by (simp add: be_val_def)

lemma be_val_bound: "be_val s < 256 ^ length s"
proof (induction s)
  case Nil
  then show ?case by simp
next
  case (Cons c s)
  have "(of_char c :: nat) \<le> 255" using nat_of_char_less_256 [of c] by linarith
  then have "of_char c * 256 ^ length s + be_val s < 255 * 256 ^ length s + 256 ^ length s"
    using Cons.IH by (intro add_le_less_mono mult_right_mono) auto
  then show ?case by (simp add: be_val_Cons)
qed

text \<open>
  The shift-and-or loop computes the big-endian value as long as it fits in 64 bits, and
  it reads only inside the buffer.
\<close>

lemma read_be_value:
  assumes "p + k \<le> length buf" and "unat acc < 256 ^ (8 - k)" and "k \<le> 8"
  shows "\<exists>w. read_be buf p k acc = Some w \<and>
             unat w = unat acc * 256 ^ k + be_val (take k (drop p buf))"
  using assms
proof (induction k arbitrary: p acc)
  case 0
  then show ?case by simp
next
  case (Suc k)
  have p: "p < length buf" using Suc.prems(1) by simp
  let ?c = "buf ! p"
  let ?acc = "push_bit 8 acc OR of_nat (of_char ?c) :: u64"
  have small: "unat acc < 2 ^ 56"
  proof -
    have "(256 :: nat) ^ (8 - Suc k) \<le> 256 ^ 7" by (rule power_increasing) auto
    then show ?thesis using Suc.prems(2) by simp
  qed
  have acc: "unat ?acc = 256 * unat acc + of_char ?c"
    by (rule shift_or_byte [OF small]) (rule nat_of_char_less_256)
  have "unat acc + 1 \<le> 256 ^ (8 - Suc k)" using Suc.prems(2) by simp
  then have "256 * (unat acc + 1) \<le> 256 ^ (8 - k)"
    using Suc.prems(3) by (metis Suc_diff_Suc Suc_le_lessD mult_le_mono2 power_Suc)
  then have "unat ?acc < 256 ^ (8 - k)"
    by (rule less_le_trans [rotated]) (simp add: acc)
  then obtain w where w: "read_be buf (p + 1) k ?acc = Some w"
    "unat w = unat ?acc * 256 ^ k + be_val (take k (drop (p + 1) buf))"
    using Suc.IH [of "p + 1" ?acc] Suc.prems(1,3) by auto
  have "take (Suc k) (drop p buf) = ?c # take k (drop (p + 1) buf)"
    using p by (simp add: drop_eq_Cons_nth)
  moreover have "length (take k (drop (p + 1) buf)) = k" using Suc.prems(1) by simp
  ultimately have "be_val (take (Suc k) (drop p buf)) =
      of_char ?c * 256 ^ k + be_val (take k (drop (p + 1) buf))"
    by (simp add: be_val_Cons)
  then show ?case
    using w p by (auto simp: byte_at_def acc algebra_simps)
qed

section \<open>Specification of one position\<close>

definition magic_at :: "string \<Rightarrow> nat \<Rightarrow> bool" where
  "magic_at buf i \<longleftrightarrow> take 4 (drop i buf) = ''GRIB''"

definition edition_at :: "string \<Rightarrow> nat \<Rightarrow> nat" where
  "edition_at buf i = of_char (buf ! (i + 7))"

definition declared_len :: "string \<Rightarrow> nat \<Rightarrow> nat" where
  "declared_len buf i =
     (if edition_at buf i = 2 then be_val (take 8 (drop (i + 8) buf))
      else be_val (take 3 (drop (i + 4) buf)))"

definition min_len :: "nat \<Rightarrow> nat" where
  "min_len edition = (if edition = 2 then 20 else 12)"

definition step_spec :: "string \<Rightarrow> nat \<Rightarrow> scan_step" where
  "step_spec buf i =
     (let n = length buf - i; ed = edition_at buf i; len = declared_len buf i in
      if \<not> magic_at buf i then Continue
      else if n < 8 then Stop Invalid
      else if ed \<noteq> 1 \<and> ed \<noteq> 2 then Continue
      else if ed = 2 \<and> n < 16 then Stop Invalid
      else if len < min_len ed \<or> n < len then Stop Invalid
      else if take 4 (drop (i + len - 4) buf) \<noteq> ''7777'' then Stop Invalid
      else Stop (Found i len))"

lemma match_at_spec:
  "i + length cs \<le> length buf \<Longrightarrow> match_at buf i cs = Some (take (length cs) (drop i buf) = cs)"
proof (induction cs arbitrary: i)
  case Nil
  then show ?case by simp
next
  case (Cons c cs)
  then have "i < length buf" by simp
  with Cons show ?case by (simp add: byte_at_def drop_eq_Cons_nth)
qed

lemma check_message_spec:
  assumes "i < length buf" and "4 \<le> ml"
  shows "check_message buf i ml len =
    Some (if unat len < ml \<or> length buf - i < unat len then Stop Invalid
          else if take 4 (drop (i + unat len - 4) buf) \<noteq> ''7777'' then Stop Invalid
          else Stop (Found i (unat len)))"
  using assms by (auto simp: check_message_def compare4_def)

lemma scan_body_spec:
  assumes "i < length buf" and "4 \<le> length buf - i"
  shows "scan_body buf i = Some (step_spec buf i)"
proof -
  let ?n = "length buf - i"
  have magic: "match_at buf i ''GRIB'' = Some (magic_at buf i)"
    using match_at_spec [of i "''GRIB''" buf] assms by (simp add: magic_at_def eval_nat_numeral)
  have ed: "byte_at buf (i + 7) = Some (buf ! (i + 7))" if "8 \<le> ?n"
    using that by (auto simp: byte_at_def)
  have two: "read_be buf (i + 8) 8 0 \<bind> check_message buf i 20 =
      check_message buf i 20 (of_nat (declared_len buf i)) \<and>
      unat (of_nat (declared_len buf i) :: u64) = declared_len buf i"
    if n: "16 \<le> ?n" and ed: "edition_at buf i = 2"
  proof -
    have "i + 8 + 8 \<le> length buf" using n by arith
    then obtain w where "read_be buf (i + 8) 8 0 = Some w" "unat w = declared_len buf i"
      using read_be_value [of "i + 8" 8 buf 0] ed by (auto simp: declared_len_def)
    then show ?thesis by (metis bind.bind_lunit of_nat_unat_u64)
  qed
  have one: "read_be buf (i + 4) 3 0 \<bind> check_message buf i 12 =
      check_message buf i 12 (of_nat (declared_len buf i)) \<and>
      unat (of_nat (declared_len buf i) :: u64) = declared_len buf i"
    if n: "8 \<le> ?n" and ed: "edition_at buf i \<noteq> 2"
  proof -
    have "i + 4 + 3 \<le> length buf" using n by arith
    then obtain w where "read_be buf (i + 4) 3 0 = Some w" "unat w = declared_len buf i"
      using read_be_value [of "i + 4" 3 buf 0] ed by (auto simp: declared_len_def)
    then show ?thesis by (metis bind.bind_lunit of_nat_unat_u64)
  qed
  consider "\<not> magic_at buf i" | "magic_at buf i" "?n < 8" | "magic_at buf i" "8 \<le> ?n"
    by linarith
  then show ?thesis
  proof cases
    case 3
    show ?thesis
    proof (cases "edition_at buf i = 2")
      case True
      then show ?thesis
        using 3 assms two ed
        by (cases "?n < 16")
          (auto simp: scan_body_def magic step_spec_def Let_def edition_at_def min_len_def
            check_message_spec simp del: match_at.simps)
    next
      case False
      then show ?thesis
        using 3 assms one ed
        by (auto simp: scan_body_def magic step_spec_def Let_def edition_at_def min_len_def
            check_message_spec simp del: match_at.simps)
    qed
  qed (simp_all add: scan_body_def magic step_spec_def del: match_at.simps)
qed

section \<open>The loop\<close>

lemma scan_loop_Some: "scan_loop buf i = Some (find_message buf i)"
proof -
  have "scan_loop buf i \<noteq> None"
  proof (induction buf i rule: scan_loop.induct)
    case (1 buf i)
    show ?case
    proof (cases "i < length buf \<and> 4 \<le> length buf - i")
      case True
      then show ?thesis
        using "1.IH" [OF True, of Continue] scan_body_spec [of i buf]
        by (subst scan_loop.simps) (auto split: scan_step.split)
    next
      case False
      then show ?thesis by (subst scan_loop.simps) auto
    qed
  qed
  then show ?thesis by (auto simp: find_message_def)
qed

lemma find_message_step:
  "find_message buf i =
     (if i + 4 \<le> length buf
      then (case step_spec buf i of Continue \<Rightarrow> find_message buf (i + 1) | Stop r \<Rightarrow> r)
      else End)"
proof -
  have "i + 4 \<le> length buf \<longleftrightarrow> i < length buf \<and> 4 \<le> length buf - i" by arith
  then have "Some (find_message buf i) =
     (if i + 4 \<le> length buf
      then (case step_spec buf i of Continue \<Rightarrow> Some (find_message buf (i + 1)) | Stop r \<Rightarrow> Some r)
      else Some End)"
    using scan_body_spec [of i buf]
    by (subst scan_loop_Some [symmetric], subst scan_loop.simps)
      (auto simp: scan_loop_Some split: scan_step.split)
  then show ?thesis by (auto split: if_splits scan_step.splits)
qed

text \<open>Skipping over positions where the scanner goes on.\<close>

lemma find_message_skip:
  assumes "\<And>j. i \<le> j \<Longrightarrow> j < k \<Longrightarrow> step_spec buf j = Continue" and "i \<le> k" and "k + 4 \<le> length buf"
  shows "find_message buf i = find_message buf k"
  using assms
proof (induction "k - i" arbitrary: i)
  case 0
  then show ?case by simp
next
  case (Suc d)
  then have "step_spec buf i = Continue" and "i + 4 \<le> length buf" by auto
  then have "find_message buf i = find_message buf (i + 1)"
    by (subst find_message_step) simp
  also have "\<dots> = find_message buf k" using Suc by auto
  finally show ?case .
qed

section \<open>Messages\<close>

definition grib_message :: "string \<Rightarrow> bool" where
  "grib_message m \<longleftrightarrow>
     take 4 m = ''GRIB'' \<and> drop (length m - 4) m = ''7777'' \<and>
     ((edition_at m 0 = 2 \<and> 20 \<le> length m \<and> declared_len m 0 = length m) \<or>
      (edition_at m 0 = 1 \<and> 12 \<le> length m \<and> declared_len m 0 = length m))"

lemma header_local:
  assumes "8 \<le> length m" and "edition_at m 0 = 2 \<longrightarrow> 16 \<le> length m"
  shows "magic_at (pre @ m @ post) (length pre) = magic_at m 0"
    and "edition_at (pre @ m @ post) (length pre) = edition_at m 0"
    and "declared_len (pre @ m @ post) (length pre) = declared_len m 0"
proof -
  show "magic_at (pre @ m @ post) (length pre) = magic_at m 0"
    using assms(1) by (simp add: magic_at_def)
  show ed: "edition_at (pre @ m @ post) (length pre) = edition_at m 0"
    using assms(1) by (simp add: edition_at_def nth_append)
  show "declared_len (pre @ m @ post) (length pre) = declared_len m 0"
    using assms by (auto simp: declared_len_def ed)
qed

lemma step_spec_message:
  assumes "grib_message m"
  shows "step_spec (pre @ m @ post) (length pre) = Stop (Found (length pre) (length m))"
proof -
  have m: "8 \<le> length m" "edition_at m 0 = 2 \<longrightarrow> 16 \<le> length m" "magic_at m 0"
      "declared_len m 0 = length m" "edition_at m 0 = 1 \<or> edition_at m 0 = 2"
      "min_len (edition_at m 0) \<le> length m"
    using assms by (auto simp: grib_message_def magic_at_def min_len_def)
  have "drop (length pre + length m - 4) (pre @ m @ post) = drop (length m - 4) m @ post"
    using m(1) by simp
  moreover have "drop (length m - 4) m = ''7777''" using assms by (simp add: grib_message_def)
  ultimately have "take 4 (drop (length pre + length m - 4) (pre @ m @ post)) = ''7777''"
    by (simp only: take_append) simp
  then show ?thesis
    using m by (auto simp: step_spec_def Let_def header_local [OF m(1,2)])
qed

lemma step_spec_truncated:
  assumes "grib_message m" and "4 \<le> k" and "k < length m"
  shows "step_spec (pre @ take k m) (length pre) = Stop Invalid"
proof -
  let ?t = "take k m"
  have magic: "magic_at (pre @ ?t) (length pre)"
    using assms by (simp add: magic_at_def grib_message_def min_def)
  show ?thesis
  proof (cases "k < 8")
    case True
    then show ?thesis using magic assms(3) by (simp add: step_spec_def min_def)
  next
    case False
    then have ed: "edition_at (pre @ ?t) (length pre) = edition_at m 0"
      using assms(3) by (simp add: edition_at_def nth_append)
    have decl: "declared_len (pre @ ?t) (length pre) = length m"
      if "edition_at m 0 = 2 \<longrightarrow> 16 \<le> k"
    proof -
      have "take 8 (drop 8 ?t) = take 8 (drop 8 m)" if "16 \<le> k"
        using that by (simp add: drop_take min_def)
      moreover have "take 3 (drop 4 ?t) = take 3 (drop 4 m)"
        using False by (simp add: drop_take min_def)
      ultimately show ?thesis
        using that assms(1) by (auto simp: declared_len_def ed grib_message_def)
    qed
    have "edition_at m 0 = 1 \<or> edition_at m 0 = 2" using assms(1) by (auto simp: grib_message_def)
    then show ?thesis
      using magic False ed decl assms(3)
      by (cases "16 \<le> k") (auto simp: step_spec_def Let_def min_def)
  qed
qed

lemma step_spec_FoundD:
  assumes "step_spec buf i = Stop (Found s l)" and "i + 4 \<le> length buf"
  shows "s = i" and "i + l \<le> length buf" and "grib_message (take l (drop i buf))"
proof -
  let ?m = "take l (drop i buf)"
  note ex = assms(1) [unfolded step_spec_def Let_def]
  have facts: "s = i" "l = declared_len buf i" "magic_at buf i" "8 \<le> length buf - i"
    "edition_at buf i = 1 \<or> edition_at buf i = 2"
    "edition_at buf i = 2 \<longrightarrow> 16 \<le> length buf - i"
    "min_len (edition_at buf i) \<le> l" "l \<le> length buf - i"
    "take 4 (drop (i + l - 4) buf) = ''7777''"
    using ex by (auto split: if_splits)
  then show "s = i" and len: "i + l \<le> length buf"
    using assms(2) by auto
  have l12: "12 \<le> l" and l20: "edition_at buf i = 2 \<longrightarrow> 20 \<le> l"
    using facts(7) by (auto simp: min_len_def split: if_splits)
  have ed: "edition_at ?m 0 = edition_at buf i"
    using l12 facts(8) by (simp add: edition_at_def)
  have "declared_len ?m 0 = declared_len buf i"
    using l12 l20 by (auto simp: declared_len_def ed drop_take min_def add.commute)
  moreover have "take 4 ?m = ''GRIB''"
    using facts(3) l12 by (simp add: magic_at_def min_def)
  moreover have "drop (length ?m - 4) ?m = ''7777''"
  proof -
    have "length ?m = l" using facts(8) by simp
    moreover have "drop (l - 4) ?m = take 4 (drop (i + l - 4) buf)"
      using l12 by (simp add: drop_take add.commute)
    ultimately show ?thesis using facts(9) by simp
  qed
  ultimately show "grib_message ?m"
    using facts l12 l20 ed by (auto simp: grib_message_def)
qed

lemma find_message_sound:
  "find_message buf i = Found s l \<Longrightarrow>
   i \<le> s \<and> s + l \<le> length buf \<and> grib_message (take l (drop s buf)) \<and>
   (\<forall>j. i \<le> j \<and> j < s \<longrightarrow> step_spec buf j = Continue)"
proof (induction "length buf - i" arbitrary: i)
  case 0
  then show ?case by (subst (asm) find_message_step) (auto split: if_splits)
next
  case (Suc d)
  then have i: "i + 4 \<le> length buf"
    by (subst (asm) (2) find_message_step) (auto split: if_splits)
  show ?case
  proof (cases "step_spec buf i")
    case Continue
    then have "find_message buf (i + 1) = Found s l"
      using Suc.prems i by (subst (asm) find_message_step) simp
    then have "i + 1 \<le> s \<and> s + l \<le> length buf \<and> grib_message (take l (drop s buf)) \<and>
        (\<forall>j. i + 1 \<le> j \<and> j < s \<longrightarrow> step_spec buf j = Continue)"
      using Suc.hyps(1) [of "i + 1"] Suc.hyps(2) i by simp
    then show ?thesis using Continue by (metis Suc_eq_plus1 Suc_leI le_neq_implies_less le_trans le_add1)
  next
    case (Stop r)
    then have "step_spec buf i = Stop (Found s l)"
      using Suc.prems i by (subst (asm) find_message_step) simp
    from step_spec_FoundD [OF this i] show ?thesis by auto
  qed
qed

lemma find_message_whole:
  assumes "grib_message m" and "\<forall>j < length junk. \<not> magic_at (junk @ m @ post) j"
  shows "find_message (junk @ m @ post) 0 = Found (length junk) (length m)"
proof -
  let ?buf = "junk @ m @ post"
  have "4 \<le> length m" using assms(1) by (auto simp: grib_message_def)
  then have "find_message ?buf 0 = find_message ?buf (length junk)"
    using assms(2) by (intro find_message_skip) (auto simp: step_spec_def)
  also have "\<dots> = Found (length junk) (length m)"
    using \<open>4 \<le> length m\<close> by (subst find_message_step) (simp add: step_spec_message [OF assms(1)])
  finally show ?thesis .
qed

text \<open>The same from the position where the message starts, as the iteration needs it.\<close>

lemma find_message_at:
  assumes "grib_message m"
  shows "find_message (pre @ m @ post) (length pre) = Found (length pre) (length m)"
  using assms
  by (subst find_message_step) (auto simp: step_spec_message [OF assms] grib_message_def)

lemma find_message_end: "length buf < from + 4 \<Longrightarrow> find_message buf from = End"
  by (subst find_message_step) simp

section \<open>An encoder for GRIB2 messages\<close>

fun be_encode :: "nat \<Rightarrow> nat \<Rightarrow> string" where
  "be_encode 0 n = []"
| "be_encode (Suc k) n = be_encode k (n div 256) @ [char_of n]"

lemma be_encode_length [simp]: "length (be_encode k n) = k"
  by (induction k n rule: be_encode.induct) auto

lemma be_val_encode: "n < 256 ^ k \<Longrightarrow> be_val (be_encode k n) = n"
proof (induction k n rule: be_encode.induct)
  case (1 n)
  then show ?case by simp
next
  case (2 k n)
  then have "n div 256 < 256 ^ k" by (simp add: div_less_iff_less_mult mult.commute)
  with 2 show ?case by (simp add: be_val_def)
qed

text \<open>
  Section 0 of a GRIB2 message (the magic, two reserved bytes, the discipline, edition 2
  and the total length), the sections in between, and the closing "7777".
\<close>

definition grib2_message :: "char \<Rightarrow> string \<Rightarrow> string" where
  "grib2_message discipline sections =
     ''GRIB'' @ [CHR 0xFF, CHR 0xFF, discipline, CHR 0x02] @
     be_encode 8 (20 + length sections) @ sections @ ''7777''"

lemma grib2_message_ok:
  assumes "20 + length sections < 2 ^ 64"
  shows "grib_message (grib2_message d sections)"
proof -
  have "be_val (be_encode 8 (20 + length sections)) = 20 + length sections"
    using assms by (intro be_val_encode) simp
  moreover have "drop (length (grib2_message d sections) - 4) (grib2_message d sections) = ''7777''"
  proof -
    let ?head = "''GRIB'' @ [CHR 0xFF, CHR 0xFF, d, CHR 0x02] @
      be_encode 8 (20 + length sections) @ sections"
    have "grib2_message d sections = ?head @ ''7777''" by (simp add: grib2_message_def)
    moreover have "length (?head @ ''7777'') - 4 = length ?head" by simp
    ultimately show ?thesis by (metis append_eq_conv_conj)
  qed
  ultimately show ?thesis
    by (simp add: grib_message_def grib2_message_def edition_at_def declared_len_def)
qed

section \<open>Properties of the scanner\<close>

text \<open>
  C32: \<open>find_message\<close> terminates and never reads outside the buffer: on every byte string
  and from every position the checked scan has a result.
\<close>

theorem scan_memory_safe: "\<exists>r. scan_loop buf from = Some r \<and> find_message buf from = r"
  by (simp add: scan_loop_Some)

text \<open>
  C5: what \<open>find_message\<close> reports as found is a complete GRIB message inside the buffer, at
  or after the start position: it begins with the magic, its edition is 1 or 2, its length
  field equals its length, and it ends with "7777".
\<close>

theorem scan_sound:
  assumes "find_message buf from = Found s l"
  shows "from \<le> s \<and> s + l \<le> length buf \<and> 12 \<le> l \<and> grib_message (take l (drop s buf))"
  using find_message_sound [OF assms] by (auto simp: grib_message_def)

theorem scan_sound_witness:
  "grib_message (take 20 (drop 0 (grib2_message CHR 0x00 [])))"
proof -
  have "find_message (grib2_message CHR 0x00 []) 0 = Found 0 20"
    using find_message_at [of "grib2_message CHR 0x00 []" "[]" "[]"] grib2_message_ok [of "[]"]
    by (simp add: grib2_message_def)
  from scan_sound [OF this] show ?thesis by blast
qed

text \<open>
  C17: \<open>find_message\<close> misses nothing: a complete message behind any bytes in which the magic
  does not start is found at its exact position with its exact length, whatever follows.
\<close>

theorem scan_complete:
  assumes "grib_message m" and "\<forall>j < length junk. \<not> magic_at (junk @ m @ post) j"
  shows "find_message (junk @ m @ post) 0 = Found (length junk) (length m)"
  using assms by (rule find_message_whole)

theorem scan_complete_witness:
  "find_message (''xGRI'' @ grib2_message CHR 0x00 ''abc'' @ ''GRIB'') 0 = Found 4 23"
proof -
  have "\<not> magic_at (''xGRI'' @ grib2_message CHR 0x00 ''abc'' @ ''GRIB'') j"
    if "j = 0 \<or> j = 1 \<or> j = 2 \<or> j = 3" for j
    using that by (auto simp: magic_at_def grib2_message_def)
  moreover have "j < length ''xGRI'' \<Longrightarrow> j = 0 \<or> j = 1 \<or> j = 2 \<or> j = 3" for j
    by simp arith
  ultimately have "\<forall>j < length ''xGRI''.
      \<not> magic_at (''xGRI'' @ grib2_message CHR 0x00 ''abc'' @ ''GRIB'') j"
    by blast
  from scan_complete [OF grib2_message_ok this] show ?thesis
    by (simp add: grib2_message_def)
qed

text \<open>
  C38: a message cut short is an error, not the end of the file, as soon as its four magic
  bytes are there; cut within the magic itself it is indistinguishable from the end.
\<close>

theorem scan_truncated:
  assumes "grib_message m" and "k < length m"
  shows "find_message (take k m) 0 = (if k < 4 then End else Invalid)"
proof (cases "k < 4")
  case True
  then show ?thesis by (simp add: find_message_end)
next
  case False
  then show ?thesis
    using step_spec_truncated [OF assms(1), of k "[]"] assms(2)
    by (subst find_message_step) simp
qed

theorem scan_truncated_witness:
  "find_message (take 19 (grib2_message CHR 0x00 [])) 0 = Invalid \<and>
   find_message (take 3 (grib2_message CHR 0x00 [])) 0 = End"
  using scan_truncated [OF grib2_message_ok, of "[]" 19 "CHR 0x00"]
    scan_truncated [OF grib2_message_ok, of "[]" 3 "CHR 0x00"]
  by (simp add: grib2_message_def)

end
