(* ===== verification/Grib_Handle.thy ===== *)
theory Grib_Handle
  imports Errors Binary64 Message_Scan
begin

text \<open>
  \<open>GribHandle\<close> and \<open>GribFile\<close> of \<open>src/decode/handle.cpp\<close>, as functions on the values
  they hold: the accessors, the cached nearest-point search, and the iteration over the
  messages of a buffer. ecCodes is the parameter \<open>eccodes\<close>, a record of the C calls the
  code makes. Who owns and frees the C objects is the theory \<open>Handle_Ownership\<close>; how the
  first handle is created under a lock is the theory \<open>Decoder_Init\<close>.
\<close>

section \<open>ecCodes as the code calls it\<close>

text \<open>
  An error code is an \<open>int\<close> with 0 for \<open>CODES_SUCCESS\<close>. \<open>ec_nearest_find\<close> returns the
  error code, the in-out length and the arrays of values and distances.
\<close>

record ('h, 'n) eccodes =
  ec_new :: "string \<Rightarrow> 'h option"
  ec_get_double :: "'h \<Rightarrow> string \<Rightarrow> int \<times> double"
  ec_get_long :: "'h \<Rightarrow> string \<Rightarrow> int \<times> int"
  ec_get_length :: "'h \<Rightarrow> string \<Rightarrow> int \<times> u64"
  ec_get_string :: "'h \<Rightarrow> string \<Rightarrow> u64 \<Rightarrow> int \<times> string"
  ec_get_size :: "'h \<Rightarrow> string \<Rightarrow> int \<times> nat"
  ec_get_double_array :: "'h \<Rightarrow> string \<Rightarrow> nat \<Rightarrow> int \<times> double list \<times> nat"
  ec_nearest_new :: "'h \<Rightarrow> int \<times> 'n option"
  ec_nearest_find :: "'n \<Rightarrow> 'h \<Rightarrow> double \<Rightarrow> double \<Rightarrow> int \<times> nat \<times> double list \<times> double list"
  ec_error_message :: "int \<Rightarrow> string"

record ('h, 'n) grib_handle =
  gh_h :: "'h option"
  gh_nearest :: "'n option"

section \<open>Opening a message\<close>

definition from_bytes :: "('h, 'n) eccodes \<Rightarrow> string \<Rightarrow> ('h, 'n) grib_handle result" where
  "from_bytes E bytes =
     (if bytes = [] then Inl (err_decode ''Empty GRIB buffer'')
      else
        (case find_message bytes 0 of
           Found start len \<Rightarrow>
             (case ec_new E (take len (drop start bytes)) of
                None \<Rightarrow> Inl (err_decode ''codes_handle_new_from_message_copy failed'')
              | Some h \<Rightarrow> Inr \<lparr>gh_h = Some h, gh_nearest = None\<rparr>)
         | _ \<Rightarrow> Inl (err_decode ''no complete GRIB message in buffer'')))"

section \<open>Accessors\<close>

text \<open>The guard of the three typed getters: a moved-from handle or a key with a NUL byte.\<close>

definition bad_key :: "string \<Rightarrow> bool" where
  "bad_key key \<longleftrightarrow> CHR 0x00 \<in> set key"

definition get_double :: "('h, 'n) eccodes \<Rightarrow> ('h, 'n) grib_handle \<Rightarrow> string \<Rightarrow> double result" where
  "get_double E g key =
     (case gh_h g of
        None \<Rightarrow> Inl (err_decode ''Invalid handle or key'')
      | Some h \<Rightarrow>
          if bad_key key then Inl (err_decode ''Invalid handle or key'')
          else
            (case ec_get_double E h key of
               (err, v) \<Rightarrow>
                 if err \<noteq> 0
                 then Inl (err_decode (''get_double '' @ key @ '': '' @ ec_error_message E err))
                 else Inr v))"

definition get_long :: "('h, 'n) eccodes \<Rightarrow> ('h, 'n) grib_handle \<Rightarrow> string \<Rightarrow> int result" where
  "get_long E g key =
     (case gh_h g of
        None \<Rightarrow> Inl (err_decode ''Invalid handle or key'')
      | Some h \<Rightarrow>
          if bad_key key then Inl (err_decode ''Invalid handle or key'')
          else
            (case ec_get_long E h key of
               (err, v) \<Rightarrow>
                 if err \<noteq> 0
                 then Inl (err_decode (''get_long '' @ key @ '': '' @ ec_error_message E err))
                 else Inr v))"

text \<open>The text up to the first NUL, as \<open>std::strlen\<close> of the filled buffer finds it.\<close>

definition c_string :: "string \<Rightarrow> string" where
  "c_string buffer = takeWhile (\<lambda>c. c \<noteq> CHR 0x00) buffer"

definition get_string :: "('h, 'n) eccodes \<Rightarrow> ('h, 'n) grib_handle \<Rightarrow> string \<Rightarrow> string result" where
  "get_string E g key =
     (case gh_h g of
        None \<Rightarrow> Inl (err_decode ''Invalid handle or key'')
      | Some h \<Rightarrow>
          if bad_key key then Inl (err_decode ''Invalid handle or key'')
          else
            (case ec_get_length E h key of
               (err, sz) \<Rightarrow>
                 if err \<noteq> 0 \<or> sz = u64_max
                 then Inl (err_decode ''Could not determine string length'')
                 else
                   (case ec_get_string E h key (sz + 1) of
                      (err, buffer) \<Rightarrow>
                        if err \<noteq> 0 then Inl (err_decode (ec_error_message E err))
                        else Inr (c_string buffer))))"

text \<open>\<open>std::vector<double>::resize\<close>.\<close>

definition resize :: "double list \<Rightarrow> nat \<Rightarrow> double list" where
  "resize v n = take n v @ replicate (n - length v) (Fin 0)"

definition grid_values :: "('h, 'n) eccodes \<Rightarrow> ('h, 'n) grib_handle \<Rightarrow> double list result" where
  "grid_values E g =
     (case gh_h g of
        None \<Rightarrow> Inl (err_decode ''Handle not initialized'')
      | Some h \<Rightarrow>
          (case ec_get_size E h ''values'' of
             (err, sz) \<Rightarrow>
               if err \<noteq> 0
               then Inl (err_decode (''get_size values: '' @ ec_error_message E err))
               else
                 (case ec_get_double_array E h ''values'' sz of
                    (err, v, sz2) \<Rightarrow>
                      if err \<noteq> 0
                      then Inl (err_decode (''get_double_array values: '' @ ec_error_message E err))
                      else Inr (resize v sz2))))"

section \<open>The nearest grid point\<close>

text \<open>\<open>lon = fmod(lon, 360); if (lon < 0) lon += 360\<close>.\<close>

definition wrap_lon :: "double \<Rightarrow> double" where
  "wrap_lon lon =
     (let r = fmod lon (Fin 360) in if r < Fin 0 then r + Fin 360 else r)"

text \<open>The loop that picks the first smallest distance.\<close>

function best_loop :: "double list \<Rightarrow> nat \<Rightarrow> nat \<Rightarrow> nat \<Rightarrow> nat" where
  "best_loop ds len i best =
     (if i < len then best_loop ds len (i + 1) (if ds ! i < ds ! best then i else best)
      else best)"
  by pat_completeness auto
termination
  by (relation "measure (\<lambda>(ds, len, i, best). len - i)") auto

declare best_loop.simps [simp del]

text \<open>
  \<open>nearest\<close> returns the value and the handle with the cached search in place. The cache is
  filled before the search runs and stays filled when the search fails.
\<close>

definition open_nearest :: "('h, 'n) eccodes \<Rightarrow> 'h \<Rightarrow> 'n result" where
  "open_nearest E h =
     (case ec_nearest_new E h of
        (err, created) \<Rightarrow>
          (case created of
             None \<Rightarrow> Inl (err_decode (''nearest_new: '' @ ec_error_message E err))
           | Some n \<Rightarrow>
               if err \<noteq> 0
               then Inl (err_decode (''nearest_new: '' @ ec_error_message E err))
               else Inr n))"

definition run_nearest :: "('h, 'n) eccodes \<Rightarrow> 'n \<Rightarrow> 'h \<Rightarrow> double \<Rightarrow> double \<Rightarrow> double result" where
  "run_nearest E near h lat lon =
     (case ec_nearest_find E near h lat lon of
        (err, len, vals, ds) \<Rightarrow>
          if err \<noteq> 0 \<or> len = 0
          then Inl (err_decode (''nearest_find: '' @ ec_error_message E err))
          else Inr (vals ! best_loop ds len 1 0))"

definition nearest :: "('h, 'n) eccodes \<Rightarrow> ('h, 'n) grib_handle \<Rightarrow> double \<Rightarrow> double \<Rightarrow>
    double result \<times> ('h, 'n) grib_handle" where
  "nearest E g lat lon =
     (case gh_h g of
        None \<Rightarrow> (Inl (err_decode ''Invalid handle or coordinates''), g)
      | Some h \<Rightarrow>
          if \<not> is_finite lat \<or> lat < Fin (- 90) \<or> Fin 90 < lat \<or> \<not> is_finite lon
          then (Inl (err_decode ''Invalid handle or coordinates''), g)
          else
            (let lon' = wrap_lon lon in
             case gh_nearest g of
               Some near \<Rightarrow> (run_nearest E near h lat lon', g)
             | None \<Rightarrow>
                 (case open_nearest E h of
                    Inl err \<Rightarrow> (Inl err, g)
                  | Inr near \<Rightarrow>
                      (run_nearest E near h lat lon', g\<lparr>gh_nearest := Some near\<rparr>))))"

section \<open>Iterating a buffer\<close>

record grib_file =
  gf_buf :: string
  gf_pos :: nat

definition file_open :: "string \<Rightarrow> grib_file result" where
  "file_open bytes = Inr \<lparr>gf_buf = bytes, gf_pos = 0\<rparr>"

text \<open>The move operations: the position is reset, the moved-from buffer is what the string
  class leaves behind (\<open>leftover\<close>).\<close>

definition file_move :: "string \<Rightarrow> grib_file \<Rightarrow> grib_file \<times> grib_file" where
  "file_move leftover f = (f, \<lparr>gf_buf = leftover, gf_pos = 0\<rparr>)"

definition file_next :: "('h, 'n) eccodes \<Rightarrow> grib_file \<Rightarrow>
    ('h, 'n) grib_handle option result \<times> grib_file" where
  "file_next E f =
     (case find_message (gf_buf f) (gf_pos f) of
        Invalid \<Rightarrow> (Inl (err_decode ''Incomplete or invalid GRIB message''), f)
      | End \<Rightarrow> (Inr None, f)
      | Found start len \<Rightarrow>
          (let f' = f\<lparr>gf_pos := start + len\<rparr> in
           case ec_new E (take len (drop start (gf_buf f))) of
             None \<Rightarrow> (Inl (err_decode ''codes_handle_new_from_message_copy failed''), f')
           | Some h \<Rightarrow> (Inr (Some \<lparr>gh_h = Some h, gh_nearest = None\<rparr>), f')))"

section \<open>The longitude in the range of the grid\<close>

lemma trunc_rat_cases:
  "0 \<le> x \<Longrightarrow> 0 \<le> x - of_int (trunc_rat x) \<and> x - of_int (trunc_rat x) < 1"
  "x < 0 \<Longrightarrow> - 1 < x - of_int (trunc_rat x) \<and> x - of_int (trunc_rat x) \<le> 0"
  by (auto simp: trunc_rat_def; linarith)+

text \<open>The remainder of a representable value by 360 is representable: \<open>fmod\<close> is exact.\<close>

lemma remainder_representable:
  assumes "representable x" and r: "r = x - of_int k * 360" and "\<bar>r\<bar> < 360" and "\<bar>r\<bar> \<le> \<bar>x\<bar>"
  shows "representable r"
proof (cases "x = 0 \<or> \<bar>r\<bar> = \<bar>x\<bar>")
  case True
  then have "r = x \<or> r = - x" using assms(4) by auto
  then show ?thesis using assms(1) by auto
next
  case False
  then have x: "0 < \<bar>x\<bar>" "round_pos \<bar>x\<bar> = \<bar>x\<bar>" using assms(1) by (auto simp: representable_def)
  obtain m where m: "\<bar>x\<bar> = of_int m * 2 powi expo \<bar>x\<bar>" "0 \<le> m" "m \<le> 2 ^ 53"
    using round_pos_shape [OF x(1)] x(2) by metis
  define e where "e = expo \<bar>x\<bar>"
  have e: "- 1074 \<le> e" by (simp add: e_def expo_def)
  define s :: int where "s = (if x < 0 then - 1 else 1)"
  have xs: "x = of_int (s * m) * 2 powi e"
    using m(1) by (auto simp: s_def e_def split: if_splits)
  have max: "\<bar>r\<bar> < max_exp"
  proof -
    have "(2 :: rat) ^ 9 \<le> 2 ^ 1024" by (rule power_increasing) auto
    then show ?thesis using assms(3) by simp
  qed
  show ?thesis
  proof (cases "e \<le> 3")
    case True
    have "2 powi 3 = (2 :: rat) powi (3 - e) * 2 powi e" by (simp flip: powi2_add)
    then have "(360 :: rat) = of_int (45 * 2 ^ nat (3 - e)) * 2 powi e"
      using True by (simp add: power_int_nonneg_exp mult.commute)
    then have q: "r = of_int (s * m - k * (45 * 2 ^ nat (3 - e))) * 2 powi e" (is "r = of_int ?q * _")
      unfolding r xs by (simp add: algebra_simps)
    have "\<bar>r\<bar> < \<bar>x\<bar>" using False assms(4) by simp
    then have "of_int \<bar>?q\<bar> * 2 powi e < (of_int m * 2 powi e :: rat)"
      using q m(1) by (simp add: abs_mult e_def)
    then have "of_int \<bar>?q\<bar> < (of_int m :: rat)"
      by (rule mult_right_less_imp_less) simp
    then have "\<bar>?q\<bar> < 2 ^ 53" using m(3) by linarith
    then show ?thesis using representable_grid [OF q] e max by blast
  next
    case False
    have "2 powi e = (2 :: rat) powi (e - 3) * 2 powi 3" using powi2_add [of "e - 3" 3] by simp
    then have q: "r = of_int (s * m * 2 ^ nat (e - 3) - k * 45) * 2 powi 3" (is "r = of_int ?q * _")
      using False unfolding r xs by (simp add: power_int_nonneg_exp algebra_simps)
    have "of_int \<bar>?q\<bar> * 8 < (360 :: rat)" using assms(3) q by (simp add: abs_mult)
    then have "of_int \<bar>?q\<bar> < (of_int 45 :: rat)" by simp
    then have "\<bar>?q\<bar> < 45" by (simp only: of_int_less_iff)
    then show ?thesis using representable_grid [OF q] max by simp
  qed
qed

lemma fmod_360:
  assumes "is_finite lon" and "is_double lon"
  obtains k r where "num (fmod lon (Fin 360)) = r" and "r = num lon - of_int k * 360"
    and "\<bar>r\<bar> < 360" and "representable r" and "is_finite (fmod lon (Fin 360))"
    and "fmod lon (Fin 360) < Fin 0 \<longleftrightarrow> r < 0"
proof -
  define x where "x = num lon"
  define k where "k = trunc_rat (x / 360)"
  define r where "r = x - of_int k * 360"
  have fin: "lon = Fin x \<or> (lon = Neg_zero \<and> x = 0)"
    using assms(1) by (cases lon) (auto simp: x_def)
  have "r = (x / 360 - of_int k) * 360" by (simp add: r_def)
  then have abs_r: "\<bar>r\<bar> = \<bar>x / 360 - of_int k\<bar> * 360" by (simp only: abs_mult)
  have small: "\<bar>r\<bar> < 360" and le: "\<bar>r\<bar> \<le> \<bar>x\<bar>"
  proof -
    have "\<bar>x / 360 - of_int k\<bar> < 1"
      using trunc_rat_cases [of "x / 360"] by (cases "0 \<le> x") (auto simp: k_def)
    then show "\<bar>r\<bar> < 360" unfolding abs_r by simp
    have "\<bar>x / 360 - of_int (trunc_rat (x / 360))\<bar> \<le> \<bar>x / 360\<bar>"
      by (auto simp: trunc_rat_def abs_if; linarith)
    then have "\<bar>r\<bar> \<le> \<bar>x / 360\<bar> * 360" unfolding abs_r k_def by (rule mult_right_mono) simp
    then show "\<bar>r\<bar> \<le> \<bar>x\<bar>" by simp
  qed
  have "representable x" using fin assms(2) by (auto simp: representable_def)
  then have rep: "representable r" using remainder_representable [OF _ r_def small le] by simp
  have f: "fmod lon (Fin 360) =
      (if r = 0 then (if signbit lon then Neg_zero else Fin 0) else Fin r)"
    using fin by (auto simp: fmod_def Let_def r_def k_def)
  have "num (fmod lon (Fin 360)) = r" "is_finite (fmod lon (Fin 360))"
    "fmod lon (Fin 360) < Fin 0 \<longleftrightarrow> r < 0"
    by (simp_all add: f)
  then show ?thesis
    using that [of r k] small rep by (simp add: r_def x_def)
qed

text \<open>A rounded value in \<open>[0, 360]\<close> stays there.\<close>

lemmas round64_upto_360 =
  round64_upto [OF _ _ representable_of_int [of 360, simplified]]

lemma wrap_lon_value:
  assumes "is_finite lon" and "is_double lon"
  obtains k where "0 \<le> num lon - of_int k * 360" and "num lon - of_int k * 360 < 360"
    and "num (wrap_lon lon) = num (round64 (num lon - of_int k * 360))"
    and "is_finite (wrap_lon lon)"
proof -
  obtain k r where r: "num (fmod lon (Fin 360)) = r" "r = num lon - of_int k * 360"
    "\<bar>r\<bar> < 360" "representable r" "is_finite (fmod lon (Fin 360))"
    "fmod lon (Fin 360) < Fin 0 \<longleftrightarrow> r < 0"
    using fmod_360 [OF assms] by metis
  show ?thesis
  proof (cases "r < 0")
    case False
    then show ?thesis
      using that [of k] r by (simp add: wrap_lon_def Let_def round64_representable)
  next
    case True
    have "fmod lon (Fin 360) \<noteq> NaN" using r(5) by (cases "fmod lon (Fin 360)") auto
    then have w: "wrap_lon lon = round64 (r + 360)"
      using True r by (simp add: wrap_lon_def Let_def plus_double_def)
    have "num lon - of_int (k - 1) * 360 = r + 360" using r(2) by simp
    moreover have "is_finite (round64 (r + 360))"
      using True r(3) by (intro round64_upto_360) auto
    ultimately show ?thesis using that [of "k - 1"] True r(3) by (simp only: w)
  qed
qed

text \<open>
  C39: the longitude handed to ecCodes is the requested one modulo 360, rounded once: it is a
  finite value between 0 and 360, and differs from the request by a whole number of turns
  before the rounding.
\<close>

theorem wrap_lon_in_range:
  assumes "is_finite lon" and "is_double lon"
  shows "is_finite (wrap_lon lon) \<and> 0 \<le> num (wrap_lon lon) \<and> num (wrap_lon lon) \<le> 360 \<and>
    (\<exists>k. 0 \<le> num lon - of_int k * 360 \<and> num lon - of_int k * 360 < 360 \<and>
         num (wrap_lon lon) = num (round64 (num lon - of_int k * 360)))"
proof -
  obtain k where k: "0 \<le> num lon - of_int k * 360" "num lon - of_int k * 360 < 360"
    "num (wrap_lon lon) = num (round64 (num lon - of_int k * 360))" "is_finite (wrap_lon lon)"
    using wrap_lon_value [OF assms] by metis
  then show ?thesis
    using round64_upto_360 [of "num lon - of_int k * 360"] by auto
qed

theorem wrap_lon_in_range_witness:
  "0 \<le> num (wrap_lon (Fin (- 75))) \<and> num (wrap_lon (Fin (- 75))) \<le> 360"
  using wrap_lon_in_range [of "Fin (- 75)"] representable_of_int [of "- 75"] by simp

section \<open>The choice among the candidates\<close>

lemma double_less_irrefl [simp]: "\<not> (a :: double) < a"
  by (cases a) auto

lemma double_less_asym: "(a :: double) < b \<Longrightarrow> \<not> b < a"
  by (cases a; cases b) auto

lemma double_not_less_trans:
  "b \<noteq> NaN \<Longrightarrow> \<not> (a :: double) < b \<Longrightarrow> \<not> b < c \<Longrightarrow> \<not> a < c"
  by (cases a; cases b; cases c) auto

lemma double_less_not_less_trans:
  "(a :: double) < b \<Longrightarrow> \<not> c < b \<Longrightarrow> c \<noteq> NaN \<Longrightarrow> a < c"
  by (cases a; cases b; cases c) auto

text \<open>The loop returns the first index whose distance no other one is below.\<close>

lemma best_loop_spec:
  assumes "best < i" and "i \<le> len" and "\<forall>j < len. ds ! j \<noteq> NaN"
    and "\<forall>j < i. \<not> ds ! j < ds ! best" and "\<forall>j < best. ds ! best < ds ! j"
  shows "best_loop ds len i best < len \<and>
    (\<forall>j < len. \<not> ds ! j < ds ! best_loop ds len i best) \<and>
    (\<forall>j < best_loop ds len i best. ds ! best_loop ds len i best < ds ! j)"
  using assms
proof (induction ds len i best rule: best_loop.induct)
  case (1 ds len i best)
  let ?best = "if ds ! i < ds ! best then i else best"
  have unfold: "best_loop ds len i best = (if i < len then best_loop ds len (i + 1) ?best else best)"
    by (rule best_loop.simps)
  show ?case
  proof (cases "i < len")
    case False
    with "1.prems" have "i = len" by simp
    with "1.prems" show ?thesis unfolding unfold by simp
  next
    case True
    have first: "\<not> ds ! j < ds ! i" "ds ! i < ds ! j" if "ds ! i < ds ! best" "j < i" for j
    proof -
      have j: "\<not> ds ! j < ds ! best" "ds ! j \<noteq> NaN" "ds ! best \<noteq> NaN"
        using that "1.prems"(1-4) by simp_all
      show "ds ! i < ds ! j" using that(1) j(1,2) by (rule double_less_not_less_trans)
      then show "\<not> ds ! j < ds ! i" by (rule double_less_asym)
    qed
    have "\<forall>j < i + 1. \<not> ds ! j < ds ! ?best"
      using first(1) "1.prems"(4) by (auto simp: less_Suc_eq)
    moreover have "\<forall>j < ?best. ds ! ?best < ds ! j"
      using first(2) "1.prems"(5) by auto
    ultimately show ?thesis
      using "1.IH" [OF True] "1.prems"(1,3) True unfolding unfold by simp
  qed
qed

section \<open>Properties of the accessors\<close>

text \<open>
  C24: when the cached or new search succeeds, \<open>nearest\<close> returns the value of the candidate
  with the smallest distance, the first of them when several are equally near.
\<close>

theorem nearest_is_nearest:
  assumes "gh_h g = Some h" and "is_finite lat" and "\<not> lat < Fin (- 90)" and "\<not> Fin 90 < lat"
    and "is_finite lon"
    and "gh_nearest g = Some near \<or> (gh_nearest g = None \<and> ec_nearest_new E h = (0, Some near))"
    and "ec_nearest_find E near h lat (wrap_lon lon) = (0, len, vals, ds)"
    and "0 < len" and "\<forall>j < len. ds ! j \<noteq> NaN"
  shows "\<exists>i < len. nearest E g lat lon = (Inr (vals ! i), g\<lparr>gh_nearest := Some near\<rparr>) \<and>
    (\<forall>j < len. \<not> ds ! j < ds ! i) \<and> (\<forall>j < i. ds ! i < ds ! j)"
proof -
  let ?i = "best_loop ds len 1 0"
  have best: "?i < len \<and> (\<forall>j < len. \<not> ds ! j < ds ! ?i) \<and> (\<forall>j < ?i. ds ! ?i < ds ! j)"
    using assms(8,9) by (intro best_loop_spec) auto
  have "run_nearest E near h lat (wrap_lon lon) = Inr (vals ! ?i)"
    using assms(7,8) by (simp add: run_nearest_def)
  moreover have "g\<lparr>gh_nearest := Some near\<rparr> = g" if "gh_nearest g = Some near"
    using that by simp
  ultimately have "nearest E g lat lon = (Inr (vals ! ?i), g\<lparr>gh_nearest := Some near\<rparr>)"
    using assms(1-6) by (auto simp: nearest_def Let_def open_nearest_def)
  then show ?thesis using best by blast
qed

text \<open>
  An instance of the parameter for the witnesses: a handle is its message, a search is the
  handle it was opened on, and the four candidates have fixed values and distances.
\<close>

definition sample_eccodes :: "(string, string) eccodes" where
  "sample_eccodes =
     \<lparr>ec_new = \<lambda>m. Some m,
      ec_get_double = \<lambda>h key. (0, Fin 1),
      ec_get_long = \<lambda>h key. (if key = ''number'' then (0, of_char (h ! 6)) else (- 10, 0)),
      ec_get_length = \<lambda>h key. (0, 4),
      ec_get_string = \<lambda>h key n. (0, ''2t'' @ [CHR 0x00, CHR 0x00, CHR 0x00]),
      ec_get_size = \<lambda>h key. (0, 2),
      ec_get_double_array = \<lambda>h key n. (0, [Fin 1, Fin 2], 2),
      ec_nearest_new = \<lambda>h. (0, Some h),
      ec_nearest_find = \<lambda>near h lat lon.
        (0, 4, [Fin 10, Fin 20, Fin 30, Fin 40], [Fin 3, Fin 1, Fin 2, Fin 1]),
      ec_error_message = \<lambda>e. ''error''\<rparr>"

definition sample_handle :: "(string, string) grib_handle" where
  "sample_handle = \<lparr>gh_h = Some ''m'', gh_nearest = None\<rparr>"

theorem nearest_is_nearest_witness:
  "\<exists>i < 4. nearest sample_eccodes sample_handle (Fin 40) (Fin (- 75)) =
     (Inr ([Fin 10, Fin 20, Fin 30, Fin 40] ! i), sample_handle\<lparr>gh_nearest := Some ''m''\<rparr>)"
proof -
  have "\<forall>j < 4. [Fin 3, Fin 1, Fin 2, Fin 1] ! j \<noteq> NaN"
    by (auto simp: less_Suc_eq numeral_eq_Suc)
  from nearest_is_nearest [of sample_handle "''m''" "Fin 40" "Fin (- 75)" "''m''" sample_eccodes 4
      "[Fin 10, Fin 20, Fin 30, Fin 40]" "[Fin 3, Fin 1, Fin 2, Fin 1]", OF _ _ _ _ _ _ _ _ this]
  show ?thesis by (auto simp: sample_handle_def sample_eccodes_def)
qed

section \<open>Iteration\<close>

lemma file_next_progress:
  assumes "file_next E f = (r, f')"
  shows "gf_buf f' = gf_buf f \<and>
    (f' = f \<or> (gf_pos f + 12 \<le> gf_pos f' \<and> gf_pos f' \<le> length (gf_buf f)))"
    and "r = Inr (Some g) \<Longrightarrow> gf_pos f + 12 \<le> gf_pos f' \<and> gf_pos f' \<le> length (gf_buf f)"
proof -
  have "gf_pos f \<le> s \<and> s + l \<le> length (gf_buf f) \<and> 12 \<le> l"
    if "find_message (gf_buf f) (gf_pos f) = Found s l" for s l
    using find_message_sound [OF that] by (auto simp: grib_message_def)
  then show "gf_buf f' = gf_buf f \<and>
      (f' = f \<or> (gf_pos f + 12 \<le> gf_pos f' \<and> gf_pos f' \<le> length (gf_buf f)))"
    and "r = Inr (Some g) \<Longrightarrow> gf_pos f + 12 \<le> gf_pos f' \<and> gf_pos f' \<le> length (gf_buf f)"
    using assms
    by (force simp: file_next_def Let_def split: scan_result.splits option.splits)+
qed

text \<open>What a caller sees that calls \<open>next\<close> until it stops returning messages.\<close>

function drain :: "('h, 'n) eccodes \<Rightarrow> grib_file \<Rightarrow>
    ('h, 'n) grib_handle list \<times> ('h, 'n) grib_handle option result" where
  "drain E f =
     (case file_next E f of
        (Inr (Some g), f') \<Rightarrow> (case drain E f' of (gs, r) \<Rightarrow> (g # gs, r))
      | (r, f') \<Rightarrow> ([], r))"
  by pat_completeness auto
termination
proof (relation "measure (\<lambda>(E, f). length (gf_buf f) - gf_pos f)", goal_cases)
  case 1
  show ?case by simp
next
  case (2 E f p f' v g)
  then have nx: "file_next E f = (Inr (Some g), f')" by simp
  from file_next_progress(1) [OF nx] file_next_progress(2) [OF nx refl]
  show ?case by auto
qed

declare drain.simps [simp del]

text \<open>One complete message at the current position is returned and passed.\<close>

lemma file_next_message:
  assumes "grib_message m"
  shows "file_next E \<lparr>gf_buf = pre @ m @ post, gf_pos = length pre\<rparr> =
    (case ec_new E m of
       None \<Rightarrow> (Inl (err_decode ''codes_handle_new_from_message_copy failed''),
                \<lparr>gf_buf = pre @ m @ post, gf_pos = length pre + length m\<rparr>)
     | Some h \<Rightarrow> (Inr (Some \<lparr>gh_h = Some h, gh_nearest = None\<rparr>),
                  \<lparr>gf_buf = pre @ m @ post, gf_pos = length pre + length m\<rparr>))"
  by (simp add: file_next_def find_message_at [OF assms] Let_def split: option.split)

lemma file_next_end:
  "length (gf_buf f) < gf_pos f + 4 \<Longrightarrow> file_next E f = (Inr None, f)"
  by (simp add: file_next_def find_message_end)

text \<open>
  C14: a buffer that is a sequence of complete GRIB messages with fewer than four stray bytes
  at its end is iterated to exactly these messages, in order, once each, and then to the end.
\<close>

theorem drain_messages:
  assumes "\<forall>m \<in> set ms. grib_message m \<and> ec_new E m = Some (mk m)" and "length tail < 4"
    and "file_open (concat ms @ tail) = Inr f"
  shows "drain E f = (map (\<lambda>m. \<lparr>gh_h = Some (mk m), gh_nearest = None\<rparr>) ms, Inr None)"
proof -
  have "drain E \<lparr>gf_buf = pre @ concat ms @ tail, gf_pos = length pre\<rparr> =
      (map (\<lambda>m. \<lparr>gh_h = Some (mk m), gh_nearest = None\<rparr>) ms, Inr None)" for pre
    using assms(1)
  proof (induction ms arbitrary: pre)
    case Nil
    then show ?case using assms(2) by (subst drain.simps) (simp add: file_next_end)
  next
    case (Cons m ms)
    then show ?case
      using Cons.IH [of "pre @ m"] file_next_message [of m E pre "concat ms @ tail"]
      by (subst drain.simps) simp
  qed
  from this [of "[]"] show ?thesis using assms(3) by (simp add: file_open_def)
qed

theorem drain_messages_witness:
  "drain sample_eccodes
     \<lparr>gf_buf = grib2_message CHR 0x00 ''ab'' @ grib2_message CHR 0x01 ''GRIB'' @ ''GRI'', gf_pos = 0\<rparr> =
   ([\<lparr>gh_h = Some (grib2_message CHR 0x00 ''ab''), gh_nearest = None\<rparr>,
     \<lparr>gh_h = Some (grib2_message CHR 0x01 ''GRIB''), gh_nearest = None\<rparr>], Inr None)"
  using drain_messages [of "[grib2_message CHR 0x00 ''ab'', grib2_message CHR 0x01 ''GRIB'']"
      sample_eccodes "\<lambda>m. m" "''GRI''"]
    grib2_message_ok [of "''ab''" "CHR 0x00"] grib2_message_ok [of "''GRIB''" "CHR 0x01"]
  by (simp add: file_open_def sample_eccodes_def)

lemma drain_bound: "12 * length (fst (drain E f)) \<le> length (gf_buf f) - gf_pos f"
proof (induction E f rule: drain.induct)
  case (1 E f)
  show ?case
  proof (cases "\<exists>g f'. file_next E f = (Inr (Some g), f')")
    case True
    then obtain g f' where nx: "file_next E f = (Inr (Some g), f')" by blast
    have "12 * length (fst (drain E f')) \<le> length (gf_buf f') - gf_pos f'"
      using "1" nx by simp
    then show ?thesis
      using nx file_next_progress(1) [OF nx] file_next_progress(2) [OF nx refl]
      by (subst drain.simps) (auto split: prod.splits)
  next
    case False
    then show ?thesis
      by (subst drain.simps) (auto split: prod.splits sum.splits option.splits)
  qed
qed

section \<open>Well-formed objects\<close>

text \<open>
  A handle never has a cached search without a message to search, and the position of a file
  stays inside its buffer.
\<close>

definition handle_ok :: "('h, 'n) grib_handle \<Rightarrow> bool" where
  "handle_ok g \<longleftrightarrow> (gh_nearest g \<noteq> None \<longrightarrow> gh_h g \<noteq> None)"

definition fresh_handle :: "('h, 'n) grib_handle \<Rightarrow> bool" where
  "fresh_handle g \<longleftrightarrow> gh_h g \<noteq> None \<and> gh_nearest g = None"

definition file_ok :: "grib_file \<Rightarrow> bool" where
  "file_ok f \<longleftrightarrow> gf_pos f \<le> length (gf_buf f)"

lemma file_next_fresh: "file_next E f = (Inr (Some g), f') \<Longrightarrow> fresh_handle g"
  by (auto simp: file_next_def fresh_handle_def Let_def split: scan_result.splits option.splits)

lemma opened_fresh: "from_bytes E bs = Inr g \<Longrightarrow> fresh_handle g"
  by (auto simp: from_bytes_def fresh_handle_def split: scan_result.splits option.splits if_splits)

lemma nearest_handle:
  assumes "nearest E g lat lon = (r, g')"
  shows "gh_h g' = gh_h g" and "handle_ok g \<Longrightarrow> handle_ok g'"
    and "gh_nearest g \<noteq> None \<Longrightarrow> g' = g"
  using assms
  by (auto simp: nearest_def handle_ok_def Let_def split: option.splits sum.splits if_splits)

text \<open>
  C21: every operation leaves well-formed objects. A handle that \<open>from_bytes\<close> or \<open>next\<close> returns
  holds a message and no search; \<open>nearest\<close> keeps the message, fills the cache once and never
  changes it; a file's position starts at 0, only grows, stays inside the buffer that \<open>next\<close>
  never changes, and is inside the buffer of both objects behind a move.
\<close>

theorem objects_well_formed:
  "(from_bytes E bs = Inr g \<longrightarrow> fresh_handle g) \<and>
   (file_open bs = Inr f \<longrightarrow> file_ok f \<and> gf_buf f = bs \<and> gf_pos f = 0) \<and>
   (file_ok f \<and> file_next E f = (r, f') \<longrightarrow>
      file_ok f' \<and> gf_buf f' = gf_buf f \<and> gf_pos f \<le> gf_pos f' \<and>
      (\<forall>h. r = Inr (Some h) \<longrightarrow> fresh_handle h)) \<and>
   (file_ok f \<longrightarrow> file_ok (fst (file_move left_in f)) \<and> file_ok (snd (file_move left_in f))) \<and>
   (handle_ok g \<and> nearest E g lat lon = (v, g') \<longrightarrow>
      handle_ok g' \<and> gh_h g' = gh_h g \<and> (gh_nearest g \<noteq> None \<longrightarrow> g' = g))"
proof -
  have "file_ok f' \<and> gf_buf f' = gf_buf f \<and> gf_pos f \<le> gf_pos f' \<and>
      (\<forall>h. r = Inr (Some h) \<longrightarrow> fresh_handle h)"
    if "file_ok f" "file_next E f = (r, f')"
    using that file_next_progress(1) [OF that(2)] file_next_fresh by (fastforce simp: file_ok_def)
  moreover have "handle_ok g' \<and> gh_h g' = gh_h g \<and> (gh_nearest g \<noteq> None \<longrightarrow> g' = g)"
    if "handle_ok g" "nearest E g lat lon = (v, g')"
    using that(1) nearest_handle [OF that(2)] by blast
  ultimately show ?thesis
    using opened_fresh [of E bs g] by (auto simp: file_open_def file_ok_def file_move_def)
qed

theorem objects_well_formed_witness:
  "file_ok (snd (file_next sample_eccodes \<lparr>gf_buf = grib2_message CHR 0x00 ''ab'', gf_pos = 0\<rparr>))"
proof -
  let ?f = "\<lparr>gf_buf = grib2_message CHR 0x00 ''ab'', gf_pos = 0\<rparr>"
  have "file_ok ?f" by (simp add: file_ok_def)
  moreover obtain r f' where "file_next sample_eccodes ?f = (r, f')" by force
  ultimately show ?thesis
    using objects_well_formed [of sample_eccodes "[]" sample_handle ?f r f' "[]"] by simp
qed

end
