(* ===== verification/Handle_Ownership.thy ===== *)
theory Handle_Ownership
  imports Prelude "HOL-Library.Monad_Syntax"
begin

text \<open>
  Ownership of the C objects behind \<open>GribHandle\<close> (\<open>src/decode/handle.cpp\<close>): the constructor,
  the destructor, the two move operations and the search that \<open>nearest\<close> opens and caches.
  The store says which handles and searches ecCodes has allocated, and every deletion is
  checked: deleting something that is not allocated, or a handle whose search is still open,
  makes the operation \<open>None\<close>. Programs are arbitrary sequences of operations on variables that
  respect C++ lifetimes.
\<close>

section \<open>The store\<close>

record handle_obj =
  ho_h :: "nat option"
  ho_nearest :: "nat option"

definition null_obj :: handle_obj where
  "null_obj = \<lparr>ho_h = None, ho_nearest = None\<rparr>"

text \<open>Searches are recorded with the handle they were opened on.\<close>

record c_store =
  cs_handles :: "nat set"
  cs_searches :: "(nat \<times> nat) set"
  cs_fresh :: nat
  cs_objs :: "nat \<rightharpoonup> handle_obj"

definition empty_store :: c_store where
  "empty_store = \<lparr>cs_handles = {}, cs_searches = {}, cs_fresh = 0, cs_objs = Map.empty\<rparr>"

definition nearest_delete :: "nat \<Rightarrow> c_store \<Rightarrow> c_store option" where
  "nearest_delete n s =
     (if n \<in> fst ` cs_searches s
      then Some (s\<lparr>cs_searches := {p \<in> cs_searches s. fst p \<noteq> n}\<rparr>) else None)"

definition handle_delete :: "nat \<Rightarrow> c_store \<Rightarrow> c_store option" where
  "handle_delete h s =
     (if h \<in> cs_handles s \<and> h \<notin> snd ` cs_searches s
      then Some (s\<lparr>cs_handles := cs_handles s - {h}\<rparr>) else None)"

section \<open>The operations\<close>

text \<open>The body of the destructor, which the move assignment repeats on its target.\<close>

definition free_members :: "handle_obj \<Rightarrow> c_store \<Rightarrow> c_store option" where
  "free_members ob s =
     do {
       s1 \<leftarrow> (case ho_nearest ob of Some n \<Rightarrow> nearest_delete n s | None \<Rightarrow> Some s);
       (case ho_h ob of Some h \<Rightarrow> handle_delete h s1 | None \<Rightarrow> Some s1)
     }"

text \<open>What \<open>codes_grib_nearest_new\<close> does: nothing, an object and an error, or an object.\<close>

datatype search_outcome = No_search | Search_and_error | Search_ok

datatype handle_op =
    Create nat
  | Destroy nat
  | Move_construct nat nat
  | Move_assign nat nat
  | Open_search nat search_outcome

fun create_handle :: "nat \<Rightarrow> c_store \<Rightarrow> c_store option" where
  "create_handle x s =
     (let h = cs_fresh s in
      Some (s\<lparr>cs_handles := insert h (cs_handles s), cs_fresh := h + 1,
              cs_objs := (cs_objs s)(x \<mapsto> \<lparr>ho_h = Some h, ho_nearest = None\<rparr>)\<rparr>))"

fun destroy :: "nat \<Rightarrow> c_store \<Rightarrow> c_store option" where
  "destroy x s =
     (case cs_objs s x of
        None \<Rightarrow> None
      | Some ob \<Rightarrow>
          do { s' \<leftarrow> free_members ob s; Some (s'\<lparr>cs_objs := (cs_objs s')(x := None)\<rparr>) })"

text \<open>\<open>std::exchange\<close> of both members.\<close>

fun move_construct :: "nat \<Rightarrow> nat \<Rightarrow> c_store \<Rightarrow> c_store option" where
  "move_construct y x s =
     (case cs_objs s x of
        None \<Rightarrow> None
      | Some src \<Rightarrow> Some (s\<lparr>cs_objs := (cs_objs s)(y \<mapsto> src, x \<mapsto> null_obj)\<rparr>))"

fun move_assign :: "nat \<Rightarrow> nat \<Rightarrow> c_store \<Rightarrow> c_store option" where
  "move_assign y x s =
     (if x = y then Some s
      else
        (case (cs_objs s y, cs_objs s x) of
           (Some dst, Some src) \<Rightarrow>
             do { s' \<leftarrow> free_members dst s;
                  Some (s'\<lparr>cs_objs := (cs_objs s')(y \<mapsto> src, x \<mapsto> null_obj)\<rparr>) }
         | _ \<Rightarrow> None))"

text \<open>The part of \<open>nearest\<close> that fills the cache; a search that came with an error is deleted.\<close>

fun open_search :: "nat \<Rightarrow> search_outcome \<Rightarrow> c_store \<Rightarrow> c_store option" where
  "open_search x outcome s =
     (case cs_objs s x of
        None \<Rightarrow> None
      | Some ob \<Rightarrow>
          (case (ho_h ob, ho_nearest ob) of
             (Some h, None) \<Rightarrow>
               (let n = cs_fresh s;
                    s1 = s\<lparr>cs_searches := insert (n, h) (cs_searches s), cs_fresh := n + 1\<rparr> in
                case outcome of
                  No_search \<Rightarrow> Some s
                | Search_and_error \<Rightarrow> nearest_delete n s1
                | Search_ok \<Rightarrow>
                    Some (s1\<lparr>cs_objs := (cs_objs s)(x \<mapsto> ob\<lparr>ho_nearest := Some n\<rparr>)\<rparr>))
           | _ \<Rightarrow> Some s))"

fun exec_op :: "handle_op \<Rightarrow> c_store \<Rightarrow> c_store option" where
  "exec_op (Create x) s = create_handle x s"
| "exec_op (Destroy x) s = destroy x s"
| "exec_op (Move_construct y x) s = move_construct y x s"
| "exec_op (Move_assign y x) s = move_assign y x s"
| "exec_op (Open_search x r) s = open_search x r s"

text \<open>The lifetimes a C++ program respects: objects are used only while they exist.\<close>

fun allowed_op :: "handle_op \<Rightarrow> c_store \<Rightarrow> bool" where
  "allowed_op (Create x) s = (cs_objs s x = None)"
| "allowed_op (Destroy x) s = (cs_objs s x \<noteq> None)"
| "allowed_op (Move_construct y x) s = (cs_objs s y = None \<and> cs_objs s x \<noteq> None)"
| "allowed_op (Move_assign y x) s = (cs_objs s y \<noteq> None \<and> cs_objs s x \<noteq> None)"
| "allowed_op (Open_search x r) s = (cs_objs s x \<noteq> None)"

inductive reachable_store :: "c_store \<Rightarrow> bool" where
  start: "reachable_store empty_store"
| step: "reachable_store s \<Longrightarrow> allowed_op p s \<Longrightarrow> exec_op p s = Some s' \<Longrightarrow> reachable_store s'"

section \<open>The invariant\<close>

text \<open>
  Everything allocated is owned by exactly one object, a search is owned by the object that
  owns its handle, and no identifier is reused.
\<close>

definition owns_handle :: "c_store \<Rightarrow> nat \<Rightarrow> nat \<Rightarrow> bool" where
  "owns_handle s x h \<longleftrightarrow> (\<exists>ob. cs_objs s x = Some ob \<and> ho_h ob = Some h)"

definition owns_search :: "c_store \<Rightarrow> nat \<Rightarrow> nat \<Rightarrow> bool" where
  "owns_search s x n \<longleftrightarrow> (\<exists>ob. cs_objs s x = Some ob \<and> ho_nearest ob = Some n)"

definition owned :: "c_store \<Rightarrow> bool" where
  "owned s \<longleftrightarrow>
     (\<forall>h. h \<in> cs_handles s \<longleftrightarrow> (\<exists>x. owns_handle s x h)) \<and>
     (\<forall>n h. (n, h) \<in> cs_searches s \<longleftrightarrow> (\<exists>x. owns_handle s x h \<and> owns_search s x n)) \<and>
     (\<forall>x n. owns_search s x n \<longrightarrow> (\<exists>h. owns_handle s x h)) \<and>
     (\<forall>x y h. owns_handle s x h \<and> owns_handle s y h \<longrightarrow> x = y) \<and>
     (\<forall>x y n. owns_search s x n \<and> owns_search s y n \<longrightarrow> x = y) \<and>
     (\<forall>h \<in> cs_handles s. h < cs_fresh s) \<and> (\<forall>(n, h) \<in> cs_searches s. n < cs_fresh s)"

lemma ownedI:
  assumes "\<And>h. h \<in> cs_handles s \<longleftrightarrow> (\<exists>x. owns_handle s x h)"
    and "\<And>n h. (n, h) \<in> cs_searches s \<longleftrightarrow> (\<exists>x. owns_handle s x h \<and> owns_search s x n)"
    and "\<And>x n. owns_search s x n \<Longrightarrow> \<exists>h. owns_handle s x h"
    and "\<And>x y h. owns_handle s x h \<Longrightarrow> owns_handle s y h \<Longrightarrow> x = y"
    and "\<And>x y n. owns_search s x n \<Longrightarrow> owns_search s y n \<Longrightarrow> x = y"
    and "\<And>h. h \<in> cs_handles s \<Longrightarrow> h < cs_fresh s"
    and "\<And>n h. (n, h) \<in> cs_searches s \<Longrightarrow> n < cs_fresh s"
  shows "owned s"
  using assms unfolding owned_def by blast

lemma ownedD:
  assumes "owned s"
  shows "h \<in> cs_handles s \<longleftrightarrow> (\<exists>x. owns_handle s x h)"
    and "(n, h) \<in> cs_searches s \<longleftrightarrow> (\<exists>x. owns_handle s x h \<and> owns_search s x n)"
    and "owns_search s x n \<Longrightarrow> \<exists>h. owns_handle s x h"
    and "owns_handle s x h \<Longrightarrow> owns_handle s y h \<Longrightarrow> x = y"
    and "owns_search s x n \<Longrightarrow> owns_search s y n \<Longrightarrow> x = y"
    and "h \<in> cs_handles s \<Longrightarrow> h < cs_fresh s"
    and "(n, h) \<in> cs_searches s \<Longrightarrow> n < cs_fresh s"
  using assms unfolding owned_def by blast+

lemma owned_empty: "owned empty_store"
  by (simp add: owned_def empty_store_def owns_handle_def owns_search_def)

text \<open>Releasing the members of an object is always possible and leaves a null object.\<close>

lemma free_members_eq:
  assumes "owned s" and ob: "cs_objs s x = Some ob"
  shows "free_members ob s =
    Some (s\<lparr>cs_handles := cs_handles s - set_option (ho_h ob),
            cs_searches := {p \<in> cs_searches s. fst p \<notin> set_option (ho_nearest ob)}\<rparr>)"
proof (cases "ho_h ob")
  case None
  then have "ho_nearest ob = None"
    using ob ownedD(3) [OF assms(1), of x]
    by (cases "ho_nearest ob") (auto simp: owns_handle_def owns_search_def)
  then show ?thesis using None by (simp add: free_members_def)
next
  case (Some h)
  have own: "owns_handle s x h" using Some ob by (simp add: owns_handle_def)
  then have live: "h \<in> cs_handles s" using assms(1) by (auto simp: owned_def)
  have mine: "ho_nearest ob = Some m" if m: "(m, h) \<in> cs_searches s" for m
  proof -
    obtain y where "owns_handle s y h" "owns_search s y m"
      using m ownedD(2) [OF assms(1), of m h] by blast
    moreover have "y = x" using ownedD(4) [OF assms(1)] own calculation(1) by blast
    ultimately show ?thesis using ob by (simp add: owns_search_def)
  qed
  show ?thesis
  proof (cases "ho_nearest ob")
    case None
    then have "h \<notin> snd ` cs_searches s" using mine by force
    then show ?thesis using None Some live by (simp add: free_members_def handle_delete_def)
  next
    case n: (Some n)
    then have "owns_search s x n" using ob by (simp add: owns_search_def)
    then have "(n, h) \<in> cs_searches s" using own assms(1) by (auto simp: owned_def)
    then have "n \<in> fst ` cs_searches s" by force
    moreover have "h \<notin> snd ` {p \<in> cs_searches s. fst p \<noteq> n}" using mine n by force
    ultimately show ?thesis
      using n Some live by (simp add: free_members_def nearest_delete_def handle_delete_def)
  qed
qed

lemma release:
  assumes own: "owned s" and ob: "cs_objs s x = Some ob"
  obtains s' where "free_members ob s = Some s'" and "cs_objs s' = cs_objs s"
    and "owned (s'\<lparr>cs_objs := (cs_objs s)(x \<mapsto> null_obj)\<rparr>)"
proof -
  define s' where "s' = s\<lparr>cs_handles := cs_handles s - set_option (ho_h ob),
    cs_searches := {p \<in> cs_searches s. fst p \<notin> set_option (ho_nearest ob)}\<rparr>"
  have hx: "owns_handle s x h \<longleftrightarrow> h \<in> set_option (ho_h ob)"
    and nx: "owns_search s x n \<longleftrightarrow> n \<in> set_option (ho_nearest ob)" for h n
    using ob by (auto simp: owns_handle_def owns_search_def)
  let ?s = "s'\<lparr>cs_objs := (cs_objs s)(x \<mapsto> null_obj)\<rparr>"
  have oh: "owns_handle ?s y h \<longleftrightarrow> y \<noteq> x \<and> owns_handle s y h"
    and os: "owns_search ?s y n \<longleftrightarrow> y \<noteq> x \<and> owns_search s y n" for y h n
    by (auto simp: owns_handle_def owns_search_def null_obj_def)
  note inv = own [unfolded owned_def]
  have "owned ?s"
  proof (rule ownedI)
    fix h
    have "h \<in> cs_handles ?s \<longleftrightarrow> h \<in> cs_handles s \<and> \<not> owns_handle s x h" by (simp add: s'_def hx)
    also have "\<dots> \<longleftrightarrow> (\<exists>y. owns_handle ?s y h)" using inv unfolding oh by metis
    finally show "h \<in> cs_handles ?s \<longleftrightarrow> (\<exists>y. owns_handle ?s y h)" .
  next
    fix n h
    have "(n, h) \<in> cs_searches ?s \<longleftrightarrow> (n, h) \<in> cs_searches s \<and> \<not> owns_search s x n"
      by (simp add: s'_def nx)
    also have "\<dots> \<longleftrightarrow> (\<exists>y. owns_handle ?s y h \<and> owns_search ?s y n)"
      using inv unfolding oh os by metis
    finally show "(n, h) \<in> cs_searches ?s \<longleftrightarrow> (\<exists>y. owns_handle ?s y h \<and> owns_search ?s y n)" .
  next
    show "\<exists>h. owns_handle ?s y h" if "owns_search ?s y n" for y n
      using that inv unfolding oh os by blast
    show "y = z" if "owns_handle ?s y h" "owns_handle ?s z h" for y z h
      using that inv unfolding oh by blast
    show "y = z" if "owns_search ?s y h" "owns_search ?s z h" for y z h
      using that inv unfolding os by blast
    show "h < cs_fresh ?s" if "h \<in> cs_handles ?s" for h
      using that inv by (simp add: s'_def)
    show "n < cs_fresh ?s" if "(n, h) \<in> cs_searches ?s" for n h
      using that ownedD(7) [OF own, of n h] by (simp add: s'_def)
  qed
  moreover have "cs_objs s' = cs_objs s" by (simp add: s'_def)
  ultimately show ?thesis
    using that free_members_eq [OF own ob] by (simp add: s'_def)
qed

text \<open>A null object, or no object, at a variable can take over what another variable owns.\<close>

definition owns_nothing :: "c_store \<Rightarrow> nat \<Rightarrow> bool" where
  "owns_nothing s x \<longleftrightarrow> (case cs_objs s x of None \<Rightarrow> True | Some ob \<Rightarrow> ob = null_obj)"

lemma transfer:
  assumes own: "owned s" and "cs_objs s x = Some ob" and "owns_nothing s y" and "x \<noteq> y"
  shows "owned (s\<lparr>cs_objs := (cs_objs s)(y \<mapsto> ob, x \<mapsto> null_obj)\<rparr>)" (is "owned ?s")
proof -
  define f where "f z = (if z = y then x else if z = x then y else z)" for z
  have ff: "f (f z) = z" for z by (auto simp: f_def)
  have oh: "owns_handle ?s z h \<longleftrightarrow> owns_handle s (f z) h"
    and os: "owns_search ?s z n \<longleftrightarrow> owns_search s (f z) n" for z h n
    using assms(2-4)
    by (auto simp: owns_handle_def owns_search_def f_def null_obj_def owns_nothing_def
        split: option.splits)
  have ex: "(\<exists>z. P (f z)) \<longleftrightarrow> (\<exists>z. P z)" for P by (metis ff)
  have eq: "f z = f w \<longleftrightarrow> z = w" for z w by (metis ff)
  show ?thesis
    using own unfolding owned_def oh os
    by (simp add: ex [of "\<lambda>z. owns_handle s z _"] ex [of "\<lambda>z. owns_handle s z _ \<and> owns_search s z _"])
      (metis eq)
qed

lemma forget_null:
  assumes "owned (s\<lparr>cs_objs := m(x \<mapsto> null_obj)\<rparr>)"
  shows "owned (s\<lparr>cs_objs := m(x := None)\<rparr>)"
proof -
  have "owns_handle (s\<lparr>cs_objs := m(x := None)\<rparr>) = owns_handle (s\<lparr>cs_objs := m(x \<mapsto> null_obj)\<rparr>)"
    and "owns_search (s\<lparr>cs_objs := m(x := None)\<rparr>) = owns_search (s\<lparr>cs_objs := m(x \<mapsto> null_obj)\<rparr>)"
    by (auto simp: owns_handle_def owns_search_def null_obj_def fun_eq_iff)
  then show ?thesis using assms by (simp add: owned_def)
qed

section \<open>Every operation keeps the invariant\<close>

lemma create_owned:
  assumes own: "owned s" and "cs_objs s x = None"
  shows "\<exists>s'. create_handle x s = Some s' \<and> owned s'"
proof -
  define h where "h = cs_fresh s"
  define s' where "s' = s\<lparr>cs_handles := insert h (cs_handles s), cs_fresh := h + 1,
    cs_objs := (cs_objs s)(x \<mapsto> \<lparr>ho_h = Some h, ho_nearest = None\<rparr>)\<rparr>"
  have oh: "owns_handle s' y k \<longleftrightarrow> (if y = x then k = h else owns_handle s y k)"
    and os: "owns_search s' y n \<longleftrightarrow> owns_search s y n" for y k n
    using assms(2) by (auto simp: s'_def owns_handle_def owns_search_def)
  have no: "\<not> owns_handle s x k" "\<not> owns_search s x k" for k
    using assms(2) by (simp_all add: owns_handle_def owns_search_def)
  have fresh: "h \<notin> cs_handles s" using ownedD(6) [OF own] by (auto simp: h_def)
  then have free: "\<not> owns_handle s y h" for y using ownedD(1) [OF own] by blast
  note D = ownedD [OF own]
  have "owned s'"
  proof (rule ownedI)
    show "k \<in> cs_handles s' \<longleftrightarrow> (\<exists>y. owns_handle s' y k)" for k
      using D(1) [of k] no(1) unfolding oh by (simp add: s'_def) metis
    show "(n, k) \<in> cs_searches s' \<longleftrightarrow> (\<exists>y. owns_handle s' y k \<and> owns_search s' y n)" for n k
      using D(2) [of n k] no unfolding oh os by (simp add: s'_def) metis
    show "\<exists>k. owns_handle s' y k" if "owns_search s' y n" for y n
      using D(3) [of y n] that unfolding oh os by auto
    show "y = z" if "owns_handle s' y k" "owns_handle s' z k" for y z k
      using D(4) [of y k z] that free unfolding oh by (auto split: if_splits)
    show "y = z" if "owns_search s' y k" "owns_search s' z k" for y z k
      using D(5) [of y k z] that unfolding os by blast
    show "k < cs_fresh s'" if "k \<in> cs_handles s'" for k
      using D(6) [of k] that by (auto simp: s'_def h_def)
    show "n < cs_fresh s'" if "(n, k) \<in> cs_searches s'" for n k
      using D(7) [of n k] that by (simp add: s'_def h_def)
  qed
  then show ?thesis by (simp add: s'_def h_def Let_def)
qed

lemma search_owned:
  assumes own: "owned s" and ob: "cs_objs s x = Some ob" and "ho_h ob = Some h"
    and "ho_nearest ob = None"
  shows "owned (s\<lparr>cs_searches := insert (cs_fresh s, h) (cs_searches s), cs_fresh := cs_fresh s + 1,
    cs_objs := (cs_objs s)(x \<mapsto> ob\<lparr>ho_nearest := Some (cs_fresh s)\<rparr>)\<rparr>)" (is "owned ?s")
proof -
  define m where "m = cs_fresh s"
  have oh: "owns_handle ?s y k \<longleftrightarrow> owns_handle s y k"
    and os: "owns_search ?s y n \<longleftrightarrow> (if y = x then n = m else owns_search s y n)" for y k n
    using assms(2-4) by (auto simp: owns_handle_def owns_search_def m_def)
  have no: "\<not> owns_search s x k" for k using assms(2,4) by (simp add: owns_search_def)
  have hx: "owns_handle s x k \<longleftrightarrow> k = h" for k using assms(2,3) by (auto simp: owns_handle_def)
  note D = ownedD [OF own]
  have free: "\<not> owns_search s y m" for y
    using D(2) [of m] D(3) [of y m] D(7) [of m] by (auto simp: m_def)
  show ?thesis
  proof (rule ownedI)
    show "k \<in> cs_handles ?s \<longleftrightarrow> (\<exists>y. owns_handle ?s y k)" for k
      using D(1) [of k] unfolding oh by simp
    show "(n, k) \<in> cs_searches ?s \<longleftrightarrow> (\<exists>y. owns_handle ?s y k \<and> owns_search ?s y n)" for n k
      using D(2) [of n k] no hx free unfolding oh os by (simp add: m_def) metis
    show "\<exists>k. owns_handle ?s y k" if "owns_search ?s y n" for y n
      using D(3) [of y n] that hx unfolding oh os by (auto split: if_splits)
    show "y = z" if "owns_handle ?s y k" "owns_handle ?s z k" for y z k
      using D(4) [of y k z] that unfolding oh by blast
    show "y = z" if "owns_search ?s y k" "owns_search ?s z k" for y z k
      using D(5) [of y k z] that free unfolding os by (auto split: if_splits)
    show "k < cs_fresh ?s" if "k \<in> cs_handles ?s" for k
      using D(6) [of k] that by simp
    show "n < cs_fresh ?s" if "(n, k) \<in> cs_searches ?s" for n k
      using D(7) [of n k] that by auto
  qed
qed

lemma fresh_mono: "owned s \<Longrightarrow> cs_fresh s \<le> k \<Longrightarrow> owned (s\<lparr>cs_fresh := k\<rparr>)"
  by (fastforce simp: owned_def owns_handle_def owns_search_def)

lemma open_search_owned:
  assumes own: "owned s" and ob: "cs_objs s x = Some ob"
  shows "\<exists>s'. open_search x r s = Some s' \<and> owned s'"
proof (cases "\<exists>h. ho_h ob = Some h \<and> ho_nearest ob = None")
  case False
  then show ?thesis using assms by (auto split: option.splits)
next
  case True
  then obtain h where h: "ho_h ob = Some h" "ho_nearest ob = None" by blast
  show ?thesis
  proof (cases r)
    case No_search
    then show ?thesis using assms h by simp
  next
    case Search_and_error
    have "{p. (p = (cs_fresh s, h) \<or> p \<in> cs_searches s) \<and> fst p \<noteq> cs_fresh s} = cs_searches s"
      using ownedD(7) [OF own] by fastforce
    then show ?thesis
      using assms h Search_and_error fresh_mono [OF own, of "cs_fresh s + 1"]
      by (simp add: nearest_delete_def Let_def)
  next
    case Search_ok
    then show ?thesis using assms h search_owned [OF own ob h] by (simp add: Let_def)
  qed
qed

lemma exec_owned:
  assumes own: "owned s" and "allowed_op p s"
  shows "\<exists>s'. exec_op p s = Some s' \<and> owned s'"
proof (cases p)
  case (Create x)
  then show ?thesis using create_owned [OF own] assms(2) by simp
next
  case (Destroy x)
  then obtain ob where ob: "cs_objs s x = Some ob" using assms(2) by auto
  obtain s' where "free_members ob s = Some s'" "cs_objs s' = cs_objs s"
    "owned (s'\<lparr>cs_objs := (cs_objs s)(x \<mapsto> null_obj)\<rparr>)"
    by (rule release [OF own ob])
  then show ?thesis using Destroy ob forget_null by simp
next
  case (Move_construct y x)
  then obtain ob where ob: "cs_objs s x = Some ob" "cs_objs s y = None" using assms(2) by auto
  then have "owned (s\<lparr>cs_objs := (cs_objs s)(y \<mapsto> ob, x \<mapsto> null_obj)\<rparr>)"
    by (intro transfer [OF own]) (auto simp: owns_nothing_def)
  then show ?thesis using Move_construct ob by simp
next
  case (Move_assign y x)
  then obtain src dst where ob: "cs_objs s x = Some src" "cs_objs s y = Some dst"
    using assms(2) by auto
  show ?thesis
  proof (cases "x = y")
    case True
    then show ?thesis using Move_assign own by simp
  next
    case False
    obtain s' where s': "free_members dst s = Some s'" "cs_objs s' = cs_objs s"
      "owned (s'\<lparr>cs_objs := (cs_objs s)(y \<mapsto> null_obj)\<rparr>)"
      by (rule release [OF own ob(2)])
    have "owned (s'\<lparr>cs_objs := (cs_objs s)(y \<mapsto> src, x \<mapsto> null_obj)\<rparr>)"
      using transfer [OF s'(3), of x src y] ob(1) False by (simp add: owns_nothing_def)
    then show ?thesis using Move_assign ob s' False by simp
  qed
next
  case (Open_search x r)
  then obtain ob where "cs_objs s x = Some ob" using assms(2) by auto
  then show ?thesis using open_search_owned [OF own] Open_search by simp
qed

lemma reachable_owned: "reachable_store s \<Longrightarrow> owned s"
proof (induction rule: reachable_store.induct)
  case start
  show ?case by (rule owned_empty)
next
  case (step s p s')
  then show ?case using exec_owned [of s p] by auto
qed

section \<open>Properties\<close>

text \<open>
  C13: no double free and no use after free. Whatever sequence of constructions, moves, self
  moves, searches and destructions a program performs, the next operation succeeds: each
  deletion is of something allocated, and a handle is deleted only after its search.
\<close>

theorem ownership_safe:
  assumes "reachable_store s" and "allowed_op p s"
  shows "\<exists>s'. exec_op p s = Some s' \<and> reachable_store s'"
proof -
  obtain s' where "exec_op p s = Some s'" using exec_owned [OF reachable_owned] assms by blast
  then show ?thesis using reachable_store.step assms by blast
qed

text \<open>
  C27: no leak. In every reachable state the allocated handles and searches are exactly those
  that live objects own, each by one object: an object never holds a search that was deleted or
  that belongs to another message. When all objects are gone nothing is allocated.
\<close>

theorem ownership_no_leak:
  assumes "reachable_store s"
  shows "(\<forall>h. h \<in> cs_handles s \<longleftrightarrow> (\<exists>!x. owns_handle s x h)) \<and>
    (\<forall>n h. (n, h) \<in> cs_searches s \<longleftrightarrow> (\<exists>!x. owns_handle s x h \<and> owns_search s x n)) \<and>
    (\<forall>x n. owns_search s x n \<longrightarrow> (\<exists>h. owns_handle s x h \<and> (n, h) \<in> cs_searches s)) \<and>
    (\<forall>x y n. owns_search s x n \<and> owns_search s y n \<longrightarrow> x = y) \<and>
    (cs_objs s = Map.empty \<longrightarrow> cs_handles s = {} \<and> cs_searches s = {})"
proof -
  note D = ownedD [OF reachable_owned [OF assms]]
  have "h \<in> cs_handles s \<longleftrightarrow> (\<exists>!x. owns_handle s x h)" for h
    using D(1,4) by metis
  moreover have "(n, h) \<in> cs_searches s \<longleftrightarrow> (\<exists>!x. owns_handle s x h \<and> owns_search s x n)" for n h
    using D(2,4) by metis
  moreover have "\<exists>h. owns_handle s x h \<and> (n, h) \<in> cs_searches s" if "owns_search s x n" for x n
    using D(3) [OF that] D(2) that by blast
  moreover have "x = y" if "owns_search s x n" "owns_search s y n" for x y n using D(5) that .
  moreover have "cs_handles s = {} \<and> cs_searches s = {}" if "cs_objs s = Map.empty"
    using that D(1,2) by (auto simp: owns_handle_def)
  ultimately show ?thesis by blast
qed

text \<open>A program for the witnesses: two handles, a search, a move assignment, destruction.\<close>

fun run_ops :: "handle_op list \<Rightarrow> c_store \<Rightarrow> c_store option" where
  "run_ops [] s = Some s"
| "run_ops (p # ps) s =
     (if allowed_op p s then do { s' \<leftarrow> exec_op p s; run_ops ps s' } else None)"

lemma run_ops_reachable: "reachable_store s \<Longrightarrow> run_ops ps s = Some s' \<Longrightarrow> reachable_store s'"
  by (induction ps arbitrary: s)
    (auto split: if_splits bind_splits intro: reachable_store.step simp del: exec_op.simps)

definition sample_ops :: "handle_op list" where
  "sample_ops =
     [Create 0, Open_search 0 Search_ok, Create 1, Open_search 1 Search_and_error, Move_assign 0 1]"

definition sample_store :: c_store where
  "sample_store =
     \<lparr>cs_handles = {2}, cs_searches = {}, cs_fresh = 4,
      cs_objs = [0 \<mapsto> \<lparr>ho_h = Some 2, ho_nearest = None\<rparr>, 1 \<mapsto> null_obj]\<rparr>"

lemma sample_run: "run_ops sample_ops empty_store = Some sample_store"
  by (auto simp: sample_ops_def empty_store_def sample_store_def Let_def nearest_delete_def
      free_members_def handle_delete_def fun_eq_iff image_iff Bex_def)

theorem ownership_safe_witness: "\<exists>s'. exec_op (Destroy 0) sample_store = Some s'"
  using ownership_safe [OF run_ops_reachable [OF start sample_run], of "Destroy 0"]
  by (auto simp: sample_store_def simp del: exec_op.simps)

theorem ownership_no_leak_witness: "\<exists>!x. owns_handle sample_store x 2"
  using ownership_no_leak [OF run_ops_reachable [OF start sample_run]]
  by (auto simp: sample_store_def simp del: exec_op.simps)

end
