(* ===== verification/Decoder_Init.thy ===== *)
theory Decoder_Init
  imports Prelude
begin

text \<open>
  The double-checked lock around the first handle creation, \<open>make_handle_serialized\<close> in
  \<open>src/decode/handle.cpp\<close>, as a step relation on any number of threads that each call it once.
  A step is one access to the flag, the mutex, or the beginning or end of a creation; creations
  take time, so other threads may step between their beginning and their end. The flag's
  acquire/release accesses are taken as sequentially consistent, which they are for this one
  location.
\<close>

section \<open>Threads\<close>

datatype pc =
    Load_flag
  | Lock
  | Recheck
  | Create_first
  | Store_flag
  | Unlock_after_first
  | Unlock_warm
  | Create_warm
  | Returned

record init_state =
  is_ready :: bool
  is_owner :: "nat option"
  is_pcs :: "pc list"
  is_first_done :: nat

text \<open>
  \<open>is_first_done\<close> counts the successful creations made under the lock; the code does not have
  it, the theorems speak about it.
\<close>

abbreviation pc_at :: "init_state \<Rightarrow> nat \<Rightarrow> pc \<Rightarrow> bool" where
  "pc_at s i p \<equiv> i < length (is_pcs s) \<and> is_pcs s ! i = p"

definition goto_pc :: "nat \<Rightarrow> pc \<Rightarrow> init_state \<Rightarrow> init_state" where
  "goto_pc i p s = s\<lparr>is_pcs := (is_pcs s)[i := p]\<rparr>"

inductive init_step :: "init_state \<Rightarrow> init_state \<Rightarrow> bool" where
  load_ready: "pc_at s i Load_flag \<Longrightarrow> is_ready s \<Longrightarrow> init_step s (goto_pc i Create_warm s)"
| load_not_ready: "pc_at s i Load_flag \<Longrightarrow> \<not> is_ready s \<Longrightarrow> init_step s (goto_pc i Lock s)"
| lock: "pc_at s i Lock \<Longrightarrow> is_owner s = None \<Longrightarrow>
    init_step s (goto_pc i Recheck (s\<lparr>is_owner := Some i\<rparr>))"
| recheck_ready: "pc_at s i Recheck \<Longrightarrow> is_ready s \<Longrightarrow> init_step s (goto_pc i Unlock_warm s)"
| recheck_not_ready: "pc_at s i Recheck \<Longrightarrow> \<not> is_ready s \<Longrightarrow> init_step s (goto_pc i Create_first s)"
| first_ok: "pc_at s i Create_first \<Longrightarrow>
    init_step s (goto_pc i Store_flag (s\<lparr>is_first_done := is_first_done s + 1\<rparr>))"
| first_fails: "pc_at s i Create_first \<Longrightarrow> init_step s (goto_pc i Unlock_after_first s)"
| store: "pc_at s i Store_flag \<Longrightarrow>
    init_step s (goto_pc i Unlock_after_first (s\<lparr>is_ready := True\<rparr>))"
| unlock_first: "pc_at s i Unlock_after_first \<Longrightarrow>
    init_step s (goto_pc i Returned (s\<lparr>is_owner := None\<rparr>))"
| unlock_warm: "pc_at s i Unlock_warm \<Longrightarrow>
    init_step s (goto_pc i Create_warm (s\<lparr>is_owner := None\<rparr>))"
| warm_done: "pc_at s i Create_warm \<Longrightarrow> init_step s (goto_pc i Returned s)"

inductive_cases init_stepE: "init_step s s'"

definition init_start :: "nat \<Rightarrow> init_state" where
  "init_start n =
     \<lparr>is_ready = False, is_owner = None, is_pcs = replicate n Load_flag, is_first_done = 0\<rparr>"

definition creating :: "pc \<Rightarrow> bool" where
  "creating p \<longleftrightarrow> p = Create_first \<or> p = Create_warm"

definition holds_lock :: "pc \<Rightarrow> bool" where
  "holds_lock p \<longleftrightarrow> p \<in> {Recheck, Create_first, Store_flag, Unlock_after_first, Unlock_warm}"

section \<open>The invariant\<close>

definition thread_inv :: "bool \<Rightarrow> nat option \<Rightarrow> nat \<Rightarrow> pc \<Rightarrow> bool" where
  "thread_inv ready owner i p \<longleftrightarrow>
     (holds_lock p \<longleftrightarrow> owner = Some i) \<and>
     (p = Create_first \<or> p = Store_flag \<longrightarrow> \<not> ready) \<and>
     (p = Create_warm \<or> p = Unlock_warm \<longrightarrow> ready)"

definition storing :: "init_state \<Rightarrow> bool" where
  "storing s = (case is_owner s of Some i \<Rightarrow> is_pcs s ! i = Store_flag | None \<Rightarrow> False)"

definition init_inv :: "init_state \<Rightarrow> bool" where
  "init_inv s \<longleftrightarrow>
     (\<forall>i < length (is_pcs s). thread_inv (is_ready s) (is_owner s) i (is_pcs s ! i)) \<and>
     (\<forall>i. is_owner s = Some i \<longrightarrow> i < length (is_pcs s)) \<and>
     is_first_done s = (if is_ready s \<or> storing s then 1 else 0)"

lemma holds_lock_simps [simp]:
  "holds_lock Recheck" "holds_lock Create_first" "holds_lock Store_flag"
  "holds_lock Unlock_after_first" "holds_lock Unlock_warm"
  "\<not> holds_lock Load_flag" "\<not> holds_lock Lock" "\<not> holds_lock Create_warm"
  "\<not> holds_lock Returned"
  by (simp_all add: holds_lock_def)

lemma goto_pc_simps [simp]:
  "is_ready (goto_pc i p s) = is_ready s"
  "is_owner (goto_pc i p s) = is_owner s"
  "is_first_done (goto_pc i p s) = is_first_done s"
  "is_pcs (goto_pc i p s) = (is_pcs s)[i := p]"
  by (simp_all add: goto_pc_def)

lemma init_inv_start: "init_inv (init_start n)"
  by (simp add: init_inv_def init_start_def storing_def thread_inv_def)

text \<open>One thread moves; the flags may change in ways the other threads tolerate.\<close>

lemma init_inv_goto:
  assumes "init_inv s" and "i < length (is_pcs s)" and "is_pcs s' = is_pcs s"
    and "thread_inv (is_ready s') (is_owner s') i p"
    and "\<And>j q. j \<noteq> i \<Longrightarrow> thread_inv (is_ready s) (is_owner s) j q \<Longrightarrow>
           thread_inv (is_ready s') (is_owner s') j q"
    and "is_owner s' = is_owner s \<or> is_owner s' = Some i \<or> is_owner s' = None"
    and "is_first_done s' = (if is_ready s' \<or> storing (goto_pc i p s') then 1 else 0)"
  shows "init_inv (goto_pc i p s')"
  using assms by (auto simp: init_inv_def nth_list_update storing_def)

lemma init_inv_at: "init_inv s \<Longrightarrow> pc_at s i p \<Longrightarrow> thread_inv (is_ready s) (is_owner s) i p"
  by (auto simp: init_inv_def)

lemma init_inv_first_done: "init_inv s \<Longrightarrow> is_first_done s = (if is_ready s \<or> storing s then 1 else 0)"
  by (simp add: init_inv_def)

lemma init_inv_step:
  assumes "init_step s s'" and inv: "init_inv s"
  shows "init_inv s'"
  using assms(1)
  by cases
    ((frule init_inv_at [OF inv], insert init_inv_first_done [OF inv],
      auto intro!: init_inv_goto [OF inv]
      simp: thread_inv_def storing_def nth_list_update split: option.splits)[1])+

lemma reachable_inv: "init_step\<^sup>*\<^sup>* (init_start n) s \<Longrightarrow> init_inv s"
  by (induction rule: rtranclp_induct) (auto intro: init_inv_start init_inv_step)

section \<open>Progress\<close>

text \<open>How many steps a thread at a program point can still take.\<close>

fun rank :: "pc \<Rightarrow> nat" where
  "rank Load_flag = 7"
| "rank Lock = 6"
| "rank Recheck = 5"
| "rank Create_first = 4"
| "rank Store_flag = 3"
| "rank Unlock_warm = 3"
| "rank Unlock_after_first = 2"
| "rank Create_warm = 1"
| "rank Returned = 0"

definition work :: "init_state \<Rightarrow> nat" where
  "work s = sum_list (map rank (is_pcs s))"

lemma sum_list_update_less:
  fixes f :: "'a \<Rightarrow> nat"
  shows "i < length xs \<Longrightarrow> f x < f (xs ! i) \<Longrightarrow> sum_list (map f (xs[i := x])) < sum_list (map f xs)"
proof (induction xs arbitrary: i)
  case Nil
  then show ?case by simp
next
  case (Cons y ys)
  then show ?case by (cases i) auto
qed

lemma step_work: "init_step s s' \<Longrightarrow> work s' < work s"
  by (erule init_stepE) (auto simp: work_def intro!: sum_list_update_less)

lemma init_enabled:
  assumes inv: "init_inv s" and i: "i < length (is_pcs s)" and "is_pcs s ! i \<noteq> Returned"
  shows "\<exists>s'. init_step s s'"
proof (cases "is_owner s")
  case (Some j)
  then have j: "j < length (is_pcs s)" "holds_lock (is_pcs s ! j)"
    using inv by (auto simp: init_inv_def thread_inv_def)
  then show ?thesis
    by (cases "is_pcs s ! j"; cases "is_ready s") (auto intro: init_step.intros)
next
  case None
  then have "\<not> holds_lock (is_pcs s ! i)"
    using inv i by (auto simp: init_inv_def thread_inv_def)
  then show ?thesis
    using i assms(3) None by (cases "is_pcs s ! i"; cases "is_ready s") (auto intro: init_step.intros)
qed

section \<open>Properties\<close>

text \<open>
  C23: the first creation is never concurrent with another one. In every reachable state of any
  number of threads, a thread that creates a handle while the flag is unset is the only thread
  inside a creation, and at most one creation under the lock has succeeded.
\<close>

theorem first_creation_exclusive:
  assumes "init_step\<^sup>*\<^sup>* (init_start n) s" and "i < length (is_pcs s)"
    and "is_pcs s ! i = Create_first"
  shows "(\<forall>j < length (is_pcs s). creating (is_pcs s ! j) \<longrightarrow> j = i) \<and> is_first_done s \<le> 1"
proof -
  note inv = reachable_inv [OF assms(1)]
  have i: "is_owner s = Some i" "\<not> is_ready s"
    using init_inv_at [OF inv, of i Create_first] assms(2,3) by (auto simp: thread_inv_def)
  have "j = i" if "j < length (is_pcs s)" "creating (is_pcs s ! j)" for j
    using init_inv_at [OF inv, of j "is_pcs s ! j"] that i by (auto simp: thread_inv_def creating_def)
  then show ?thesis using init_inv_first_done [OF inv] by simp
qed

text \<open>
  A creation outside the lock happens only after exactly one creation under the lock has
  succeeded, so no thread ever runs unserialized on uninitialised ecCodes state.
\<close>

theorem warm_creation_after_first:
  assumes "init_step\<^sup>*\<^sup>* (init_start n) s" and "i < length (is_pcs s)"
    and "is_pcs s ! i = Create_warm"
  shows "is_ready s \<and> is_first_done s = 1"
proof -
  note inv = reachable_inv [OF assms(1)]
  show ?thesis
    using init_inv_at [OF inv, of i Create_warm] assms(2,3) init_inv_first_done [OF inv]
    by (simp add: thread_inv_def)
qed

lemma steps_bound: "(init_step ^^ k) s s' \<Longrightarrow> k + work s' \<le> work s"
proof (induction k arbitrary: s')
  case 0
  then show ?case by simp
next
  case (Suc k)
  then obtain u where "(init_step ^^ k) s u" "init_step u s'" by auto
  then show ?case using Suc.IH step_work by fastforce
qed

text \<open>
  C40: no deadlock and no livelock: from every reachable state in which some thread has not
  returned a step is possible, and every execution has at most seven steps per thread.
\<close>

theorem init_progress:
  assumes "(init_step ^^ k) (init_start n) s"
  shows "k \<le> 7 * n \<and> ((\<exists>s'. init_step s s') \<or> (\<forall>p \<in> set (is_pcs s). p = Returned))"
proof -
  have "k \<le> work (init_start n)" using steps_bound [OF assms] by simp
  moreover have "work (init_start n) = 7 * n"
    by (simp add: work_def init_start_def sum_list_replicate)
  moreover have "init_inv s" using assms by (blast intro: reachable_inv relpowp_imp_rtranclp)
  ultimately show ?thesis
    using init_enabled [of s] by (metis in_set_conv_nth)
qed

text \<open>An execution of two threads for the witnesses: both see the flag unset, one creates.\<close>

definition mk :: "bool \<Rightarrow> nat option \<Rightarrow> pc list \<Rightarrow> nat \<Rightarrow> init_state" where
  "mk r ow ps k = \<lparr>is_ready = r, is_owner = ow, is_pcs = ps, is_first_done = k\<rparr>"

lemma sample_steps:
  "init_step (mk False None [Load_flag, Load_flag] 0) (mk False None [Lock, Load_flag] 0)"
  "init_step (mk False None [Lock, Load_flag] 0) (mk False None [Lock, Lock] 0)"
  "init_step (mk False None [Lock, Lock] 0) (mk False (Some 1) [Lock, Recheck] 0)"
  "init_step (mk False (Some 1) [Lock, Recheck] 0) (mk False (Some 1) [Lock, Create_first] 0)"
  "init_step (mk False (Some 1) [Lock, Create_first] 0) (mk False (Some 1) [Lock, Store_flag] 1)"
  "init_step (mk False (Some 1) [Lock, Store_flag] 1) (mk True (Some 1) [Lock, Unlock_after_first] 1)"
  "init_step (mk True (Some 1) [Lock, Unlock_after_first] 1) (mk True None [Lock, Returned] 1)"
  "init_step (mk True None [Lock, Returned] 1) (mk True (Some 0) [Recheck, Returned] 1)"
  "init_step (mk True (Some 0) [Recheck, Returned] 1) (mk True (Some 0) [Unlock_warm, Returned] 1)"
  "init_step (mk True (Some 0) [Unlock_warm, Returned] 1) (mk True None [Create_warm, Returned] 1)"
  using init_step.load_not_ready [where s = "mk False None [Load_flag, Load_flag] 0" and i = 0]
    init_step.load_not_ready [where s = "mk False None [Lock, Load_flag] 0" and i = 1]
    init_step.lock [where s = "mk False None [Lock, Lock] 0" and i = 1]
    init_step.recheck_not_ready [where s = "mk False (Some 1) [Lock, Recheck] 0" and i = 1]
    init_step.first_ok [where s = "mk False (Some 1) [Lock, Create_first] 0" and i = 1]
    init_step.store [where s = "mk False (Some 1) [Lock, Store_flag] 1" and i = 1]
    init_step.unlock_first [where s = "mk True (Some 1) [Lock, Unlock_after_first] 1" and i = 1]
    init_step.lock [where s = "mk True None [Lock, Returned] 1" and i = 0]
    init_step.recheck_ready [where s = "mk True (Some 0) [Recheck, Returned] 1" and i = 0]
    init_step.unlock_warm [where s = "mk True (Some 0) [Unlock_warm, Returned] 1" and i = 0]
  by (simp_all add: mk_def goto_pc_def)

lemma sample_execution:
  "(init_step ^^ 4) (init_start 2) (mk False (Some 1) [Lock, Create_first] 0)"
  "(init_step ^^ 6) (mk False (Some 1) [Lock, Create_first] 0) (mk True None [Create_warm, Returned] 1)"
proof -
  have "init_start 2 = mk False None [Load_flag, Load_flag] 0"
    by (simp add: init_start_def mk_def numeral_2_eq_2)
  then show "(init_step ^^ 4) (init_start 2) (mk False (Some 1) [Lock, Create_first] 0)"
    using sample_steps(1-4) by (auto simp: numeral_eq_Suc relcompp.simps)
  show "(init_step ^^ 6) (mk False (Some 1) [Lock, Create_first] 0) (mk True None [Create_warm, Returned] 1)"
    using sample_steps(5-10) by (simp add: numeral_eq_Suc relcompp.simps) blast
qed

lemma sample_reachable:
  "init_step\<^sup>*\<^sup>* (init_start 2) (mk False (Some 1) [Lock, Create_first] 0)"
  "init_step\<^sup>*\<^sup>* (init_start 2) (mk True None [Create_warm, Returned] 1)"
  using sample_execution [THEN relpowp_imp_rtranclp] by (auto intro: rtranclp_trans)

theorem first_creation_exclusive_witness:
  "is_first_done (mk False (Some 1) [Lock, Create_first] 0) \<le> 1"
  using first_creation_exclusive [OF sample_reachable(1), of 1] by (simp add: mk_def)

theorem warm_creation_after_first_witness: "is_ready (mk True None [Create_warm, Returned] 1)"
  using warm_creation_after_first [OF sample_reachable(2), of 0] by (simp add: mk_def)

theorem init_progress_witness:
  "\<exists>s'. init_step (mk False (Some 1) [Lock, Create_first] 0) s'"
  using init_progress [OF sample_execution(1)] by (auto simp: mk_def)

end
