(* ===== verification/Extract.thy ===== *)
theory Extract
  imports Grib_Handle
begin

text \<open>
  \<open>src/api/extract.cpp\<close>: the value of the first message at a point or at a list of stations,
  and the value of the first message of an ensemble member. The \<open>while (true)\<close> loop over the
  messages is a \<open>partial_function\<close>, so that it returns is something to prove: it follows from
  the interface \<open>message_stream\<close>, which \<open>GribFile::next\<close> is shown to provide.
\<close>

section \<open>One message\<close>

record station =
  st_id :: string
  st_lat :: double
  st_lon :: double

definition extract_point :: "('h, 'n) eccodes \<Rightarrow> string \<Rightarrow> double \<Rightarrow> double \<Rightarrow> double result" where
  "extract_point E blob lat lon =
     (case from_bytes E blob of
        Inl e \<Rightarrow> Inl e
      | Inr g \<Rightarrow> fst (nearest E g lat lon))"

text \<open>The loop of \<open>extract_points\<close>: the handle keeps its cached search between stations.\<close>

fun points_loop :: "('h, 'n) eccodes \<Rightarrow> ('h, 'n) grib_handle \<Rightarrow> station list \<Rightarrow>
    (string \<times> double) list \<Rightarrow> (string \<times> double) list result" where
  "points_loop E g [] out = Inr out"
| "points_loop E g (s # ss) out =
     (case nearest E g (st_lat s) (st_lon s) of
        (Inl e, g') \<Rightarrow> Inl e
      | (Inr v, g') \<Rightarrow> points_loop E g' ss (out @ [(st_id s, v)]))"

definition extract_points :: "('h, 'n) eccodes \<Rightarrow> string \<Rightarrow> station list \<Rightarrow>
    (string \<times> double) list result" where
  "extract_points E blob stations =
     (case from_bytes E blob of
        Inl e \<Rightarrow> Inl e
      | Inr g \<Rightarrow> points_loop E g stations [])"

section \<open>Searching the messages\<close>

text \<open>
  A \<open>while (true)\<close> loop over a source of messages: \<open>body\<close> may return from the loop, \<open>stop\<close> is
  the value returned on an error (\<open>Some e\<close>) or after the last message (\<open>None\<close>).
\<close>

partial_function (option) consume ::
  "('s \<Rightarrow> 'm option result \<times> 's) \<Rightarrow> ('m \<Rightarrow> 'r option) \<Rightarrow> (error option \<Rightarrow> 'r) \<Rightarrow> 's \<Rightarrow> 'r option"
where
  "consume nxt body stop s =
     (case nxt s of
        (Inl e, s') \<Rightarrow> Some (stop (Some e))
      | (Inr None, s') \<Rightarrow> Some (stop None)
      | (Inr (Some m), s') \<Rightarrow>
          (case body m of Some r \<Rightarrow> Some r | None \<Rightarrow> consume nxt body stop s'))"

definition member_of :: "('h, 'n) eccodes \<Rightarrow> ('h, 'n) grib_handle \<Rightarrow> int" where
  "member_of E g =
     (case get_long E g ''perturbationNumber'' of
        Inr m \<Rightarrow> m
      | Inl _ \<Rightarrow> (case get_long E g ''number'' of Inr m \<Rightarrow> m | Inl _ \<Rightarrow> - 1))"

definition extract_point_member :: "('h, 'n) eccodes \<Rightarrow> string \<Rightarrow> double \<Rightarrow> double \<Rightarrow> int \<Rightarrow>
    double result option" where
  "extract_point_member E blob lat lon member =
     (case file_open blob of
        Inl e \<Rightarrow> Some (Inl e)
      | Inr f \<Rightarrow>
          consume (file_next E)
            (\<lambda>g. if member_of E g = member then Some (fst (nearest E g lat lon)) else None)
            (\<lambda>end. case end of
                Some e \<Rightarrow> Inl e
              | None \<Rightarrow> Inl (err_decode (''no GRIB message with member '' @ to_string_int member)))
            f)"

section \<open>The interface of a message source\<close>

text \<open>\<open>yields nxt s ms r\<close>: from \<open>s\<close> the source gives the messages \<open>ms\<close> and then the result \<open>r\<close>.\<close>

fun yields :: "('s \<Rightarrow> 'm option result \<times> 's) \<Rightarrow> 's \<Rightarrow> 'm list \<Rightarrow> 'm option result \<Rightarrow> bool" where
  "yields nxt s [] r = (fst (nxt s) = r)"
| "yields nxt s (m # ms) r = (fst (nxt s) = Inr (Some m) \<and> yields nxt (snd (nxt s)) ms r)"

locale message_stream =
  fixes nxt :: "'s \<Rightarrow> 'm option result \<times> 's"
    and left :: "'s \<Rightarrow> nat"
  assumes progress: "nxt s = (Inr (Some m), s') \<Longrightarrow> left s' < left s"
begin

lemma loop_returns: "\<exists>r. consume nxt body stop s = Some r"
proof (induction "left s" arbitrary: s rule: less_induct)
  case less
  show ?case
  proof (cases "nxt s")
    case (Pair r s')
    then show ?thesis
      using less progress [of s _ s']
      by (subst consume.simps) (auto split: sum.split option.split)
  qed
qed

lemma stream_ends: "\<exists>ms r. yields nxt s ms r \<and> \<not> (\<exists>m. r = Inr (Some m)) \<and> length ms \<le> left s"
proof (induction "left s" arbitrary: s rule: less_induct)
  case less
  obtain r s' where n: "nxt s = (r, s')" by force
  show ?case
  proof (cases "\<exists>m. r = Inr (Some m)")
    case False
    then show ?thesis using n by (intro exI [of _ "[]"] exI [of _ r]) simp
  next
    case True
    then obtain m where m: "r = Inr (Some m)" by blast
    then have lt: "left s' < left s" using n progress by blast
    then obtain ms q where "yields nxt s' ms q" "\<not> (\<exists>m. q = Inr (Some m))" "length ms \<le> left s'"
      using less by blast
    then show ?thesis using n m lt by (intro exI [of _ "m # ms"] exI [of _ q]) simp
  qed
qed

end

text \<open>The loop returns what \<open>body\<close> gives for the first message it accepts.\<close>

lemma consume_yields:
  assumes "yields nxt s ms r" and "\<not> (\<exists>m. r = Inr (Some m))"
  shows "consume nxt body stop s =
    Some (case List.find (\<lambda>m. body m \<noteq> None) ms of
            Some m \<Rightarrow> the (body m)
          | None \<Rightarrow> stop (case r of Inl e \<Rightarrow> Some e | Inr _ \<Rightarrow> None))"
  using assms
proof (induction ms arbitrary: s)
  case Nil
  then show ?case
    by (subst consume.simps) (auto split: sum.splits option.splits prod.splits)
next
  case (Cons m ms)
  obtain q s' where n: "nxt s = (q, s')" by force
  then show ?case
    using Cons by (subst consume.simps) (auto split: option.split)
qed

interpretation grib_stream: message_stream "file_next E" "\<lambda>f. length (gf_buf f) - gf_pos f"
proof
  fix f g f'
  assume nx: "file_next E f = (Inr (Some g), f')"
  show "length (gf_buf f') - gf_pos f' < length (gf_buf f) - gf_pos f"
    using file_next_progress(1) [OF nx] file_next_progress(2) [OF nx refl] by auto
qed

lemma file_yields:
  assumes "\<forall>m \<in> set ms. grib_message m \<and> ec_new E m = Some (mk m)" and "length tail < 4"
  shows "yields (file_next E) \<lparr>gf_buf = pre @ concat ms @ tail, gf_pos = length pre\<rparr>
    (map (\<lambda>m. \<lparr>gh_h = Some (mk m), gh_nearest = None\<rparr>) ms) (Inr None)"
  using assms(1)
proof (induction ms arbitrary: pre)
  case Nil
  then show ?case using assms(2) by (simp add: file_next_end)
next
  case (Cons m ms)
  then show ?case
    using Cons.IH [of "pre @ m"] file_next_message [of m E pre "concat ms @ tail"] by simp
qed

section \<open>The cached search\<close>

text \<open>The cache holds the search that a fresh call would open on the same handle.\<close>

definition cache_ok :: "('h, 'n) eccodes \<Rightarrow> ('h, 'n) grib_handle \<Rightarrow> bool" where
  "cache_ok E g \<longleftrightarrow> (\<forall>n. gh_nearest g = Some n \<longrightarrow> (\<exists>h. gh_h g = Some h \<and> open_nearest E h = Inr n))"

lemma nearest_cache:
  assumes "cache_ok E g"
  shows "fst (nearest E g lat lon) = fst (nearest E (g\<lparr>gh_nearest := None\<rparr>) lat lon)"
    and "cache_ok E (snd (nearest E g lat lon))"
    and "gh_h (snd (nearest E g lat lon)) = gh_h g"
  using assms
  by (auto simp: nearest_def cache_ok_def Let_def split: option.splits sum.splits)

lemma nearest_same_handle:
  assumes "cache_ok E g" and "cache_ok E g'" and "gh_h g = gh_h g'"
  shows "fst (nearest E g lat lon) = fst (nearest E g' lat lon)"
proof -
  have "g\<lparr>gh_nearest := None\<rparr> = g'\<lparr>gh_nearest := None\<rparr>" using assms(3) by simp
  then show ?thesis using nearest_cache(1) [OF assms(1)] nearest_cache(1) [OF assms(2)] by simp
qed

definition at_station :: "('h, 'n) eccodes \<Rightarrow> ('h, 'n) grib_handle \<Rightarrow> station \<Rightarrow> (string \<times> double) result"
  where
  "at_station E g s = map_sum id (Pair (st_id s)) (fst (nearest E g (st_lat s) (st_lon s)))"

lemma points_loop_collect:
  assumes "cache_ok E g0" and "cache_ok E g" and "gh_h g = gh_h g0"
  shows "points_loop E g ss out = map_sum id (\<lambda>vs. out @ vs) (collect (at_station E g0) ss)"
  using assms(2,3)
proof (induction ss arbitrary: g out)
  case Nil
  then show ?case by simp
next
  case (Cons s ss)
  obtain r g' where n: "nearest E g (st_lat s) (st_lon s) = (r, g')" by force
  have r: "fst (nearest E g0 (st_lat s) (st_lon s)) = r"
    using nearest_same_handle [OF assms(1) Cons.prems(1)] Cons.prems(2) n by simp
  have g': "cache_ok E g'" "gh_h g' = gh_h g0"
    using nearest_cache(2,3) [OF Cons.prems(1), of "st_lat s" "st_lon s"] n Cons.prems(2) by simp_all
  show ?case
    using Cons.IH [OF g'] n r
    by (cases r) (auto simp: at_station_def map_sum_def split: sum.split)
qed

lemma from_bytes_fresh: "from_bytes E blob = Inr g \<Longrightarrow> gh_nearest g = None"
  by (auto simp: from_bytes_def split: if_splits scan_result.splits option.splits)

section \<open>Properties\<close>

text \<open>
  C30: extracting many stations from one blob gives what extracting each station on its own
  gives, in order, stopping at the first error: reusing the handle and its cached search
  changes no result.
\<close>

theorem extract_points_pointwise:
  assumes "stations \<noteq> [] \<or> is_value (from_bytes E blob)"
  shows "extract_points E blob stations =
    collect (\<lambda>s. map_sum id (Pair (st_id s)) (extract_point E blob (st_lat s) (st_lon s))) stations"
proof (cases "from_bytes E blob")
  case (Inl e)
  then show ?thesis
    using assms by (cases stations) (simp_all add: extract_points_def extract_point_def)
next
  case (Inr g)
  then have ok: "cache_ok E g" using from_bytes_fresh by (fastforce simp: cache_ok_def)
  have "extract_points E blob stations = collect (at_station E g) stations"
    using points_loop_collect [OF ok ok refl, of stations "[]"] Inr
    by (simp add: extract_points_def sum.map_id0 [unfolded id_def] id_def)
  also have "at_station E g =
      (\<lambda>s. map_sum id (Pair (st_id s)) (extract_point E blob (st_lat s) (st_lon s)))"
    by (simp add: at_station_def extract_point_def Inr fun_eq_iff)
  finally show ?thesis .
qed

text \<open>
  \<open>extract_point_member\<close> returns on every input: its loop over the messages of the blob
  ends, whatever ecCodes answers.
\<close>

theorem extract_member_returns: "\<exists>r. extract_point_member E blob lat lon member = Some r"
  by (auto simp: extract_point_member_def intro: grib_stream.loop_returns split: sum.split)

text \<open>
  C12: on a blob of complete messages \<open>extract_point_member\<close> gives the value of the first
  message with the requested member, exactly as if that message were extracted alone, and an
  error that names the member when there is none.
\<close>

theorem extract_member_selects:
  fixes E :: "('h, 'n) eccodes"
  assumes "\<forall>m \<in> set ms. grib_message m \<and> ec_new E m = Some (mk m)" and "length tail < 4"
  shows "extract_point_member E (concat ms @ tail) lat lon member =
    Some (case List.find (\<lambda>m. member_of E \<lparr>gh_h = Some (mk m), gh_nearest = None\<rparr> = member) ms of
            Some m \<Rightarrow> extract_point E m lat lon
          | None \<Rightarrow> Inl (err_decode (''no GRIB message with member '' @ to_string_int member)))"
proof -
  define h :: "string \<Rightarrow> ('h, 'n) grib_handle" where "h m = \<lparr>gh_h = Some (mk m), gh_nearest = None\<rparr>" for m
  have point: "extract_point E m lat lon = fst (nearest E (h m) lat lon)" if "m \<in> set ms" for m
  proof -
    have "grib_message m" "ec_new E m = Some (mk m)" using that assms(1) by auto
    then have "from_bytes E m = Inr (h m)"
      using find_message_at [of m "[]" "[]"] by (auto simp: from_bytes_def grib_message_def h_def)
    then show ?thesis by (simp add: extract_point_def)
  qed
  have "yields (file_next E) \<lparr>gf_buf = concat ms @ tail, gf_pos = 0\<rparr> (map h ms) (Inr None)"
    using file_yields [OF assms, of "[]"] by (simp add: h_def [abs_def])
  note loop = consume_yields [OF this]
  have find: "List.find P (map h ms) = map_option h (List.find (\<lambda>m. P (h m)) ms)" for P
    by (induction ms) auto
  have mem: "m \<in> set ms \<and> member_of E (h m) = member"
    if "List.find (\<lambda>m. member_of E (h m) = member) ms = Some m" for m
    using that by (auto simp: find_Some_iff)
  show ?thesis
  proof (cases "List.find (\<lambda>m. member_of E (h m) = member) ms")
    case None
    then show ?thesis
      by (simp add: extract_point_member_def file_open_def loop find h_def [symmetric])
  next
    case (Some m)
    then show ?thesis
      using mem [OF Some] point [of m]
      by (simp add: extract_point_member_def file_open_def loop find h_def [symmetric])
  qed
qed

text \<open>Two messages for the witnesses: the byte after the magic's reserved pair is the member.\<close>

definition sample_blob :: string where
  "sample_blob = concat [grib2_message CHR 0x03 ''ab'', grib2_message CHR 0x05 ''c''] @ ''GR''"

theorem extract_points_pointwise_witness:
  "extract_points sample_eccodes sample_blob
     [\<lparr>st_id = ''A'', st_lat = Fin 40, st_lon = Fin (- 75)\<rparr>,
      \<lparr>st_id = ''B'', st_lat = NaN, st_lon = Fin 0\<rparr>] =
   Inl (err_decode ''Invalid handle or coordinates'')"
proof -
  have "from_bytes sample_eccodes sample_blob =
      Inr \<lparr>gh_h = Some (grib2_message CHR 0x03 ''ab''), gh_nearest = None\<rparr>"
    using find_message_at [OF grib2_message_ok, of "''ab''" "[]" "CHR 0x03"]
    by (simp add: from_bytes_def sample_blob_def sample_eccodes_def grib2_message_def)
  then show ?thesis
    using extract_points_pointwise [of "[\<lparr>st_id = ''A'', st_lat = Fin 40, st_lon = Fin (- 75)\<rparr>,
      \<lparr>st_id = ''B'', st_lat = NaN, st_lon = Fin 0\<rparr>]" sample_eccodes sample_blob]
    by (simp add: extract_point_def nearest_def open_nearest_def run_nearest_def sample_eccodes_def)
qed

theorem extract_member_selects_witness:
  "extract_point_member sample_eccodes sample_blob (Fin 40) (Fin (- 75)) 5 =
   Some (extract_point sample_eccodes (grib2_message CHR 0x05 ''c'') (Fin 40) (Fin (- 75)))"
  using extract_member_selects [of "[grib2_message CHR 0x03 ''ab'', grib2_message CHR 0x05 ''c'']"
      sample_eccodes "\<lambda>m. m" "''GR''" "Fin 40" "Fin (- 75)" 5]
    grib2_message_ok [of "''ab''" "CHR 0x03"] grib2_message_ok [of "''c''" "CHR 0x05"]
  by (simp add: sample_blob_def sample_eccodes_def member_of_def get_long_def bad_key_def
      grib2_message_def)

end
