(* ===== verification/Http_Client.thy ===== *)
theory Http_Client
  imports Errors
begin

text \<open>
  \<open>HttpClient\<close> of \<open>src/http/client.cpp\<close>, except the byte-range request, which is the theory
  \<open>Byte_Range\<close>: the URL test, the two libcurl callbacks with the sink they fill, and
  \<open>perform\<close>. libcurl is the parameter \<open>curl_api\<close>: which options it accepts, what it delivers
  to the callbacks, and how the transfer ends. The one fact used about how it calls back is
  documented: a callback that does not return the number of bytes it was given ends the
  transfer with \<open>CURLE_WRITE_ERROR\<close>.
\<close>

section \<open>Requests and responses\<close>

record http_response =
  hr_status :: int
  hr_body :: string
  hr_headers :: "(string \<times> string) list"

record http_config =
  hc_base_url :: string
  hc_user_agent :: string
  hc_timeout :: int
  hc_verify_ssl :: bool
  hc_max_response_bytes :: u64

definition default_config :: http_config where
  "default_config =
     \<lparr>hc_base_url = [], hc_user_agent = ''grib-cpp/0.2.0'', hc_timeout = 120,
      hc_verify_ssl = True, hc_max_response_bytes = 64 * 1024 * 1024\<rparr>"

definition scheme_chars :: string where
  "scheme_chars = ''abcdefghijklmnopqrstuvwxyzABCDEFGHIJKLMNOPQRSTUVWXYZ0123456789+.-''"

definition is_alpha :: "char \<Rightarrow> bool" where
  "is_alpha c \<longleftrightarrow>
     (97 \<le> (of_char c :: nat) \<and> (of_char c :: nat) \<le> 122) \<or>
     (65 \<le> (of_char c :: nat) \<and> (of_char c :: nat) \<le> 90)"

definition is_absolute_url :: "string \<Rightarrow> bool" where
  "is_absolute_url value =
     (case find_sub ''://'' value of
        None \<Rightarrow> False
      | Some e \<Rightarrow>
          if e = 0 then False
          else if \<not> is_alpha (value ! 0) then False
          else find_first_not_of scheme_chars (take e value) = None)"

section \<open>The callbacks\<close>

record response_sink =
  rs_response :: http_response
  rs_limit :: u64
  rs_overflowed :: bool

definition empty_response :: http_response where
  "empty_response = \<lparr>hr_status = 0, hr_body = [], hr_headers = []\<rparr>"

text \<open>
  The sizes are 64-bit words as in the code; \<open>alloc\<close> says whether the allocations of the
  call succeed (the \<open>catch\<close> branch).
\<close>

definition product_overflows :: "u64 \<Rightarrow> u64 \<Rightarrow> bool" where
  "product_overflows sz count \<longleftrightarrow> sz \<noteq> 0 \<and> u64_max div sz < count"

definition body_size :: "response_sink \<Rightarrow> u64" where
  "body_size sink = of_nat (length (hr_body (rs_response sink)))"

definition write_callback :: "string \<Rightarrow> u64 \<Rightarrow> u64 \<Rightarrow> bool \<Rightarrow> response_sink \<Rightarrow> u64 \<times> response_sink"
  where
  "write_callback data sz count alloc sink =
     (if product_overflows sz count then (0, sink)
      else
        (let bytes = sz * count in
         if 0 < rs_limit sink \<and> rs_limit sink - body_size sink < bytes
         then (0, sink\<lparr>rs_overflowed := True\<rparr>)
         else if \<not> alloc then (0, sink)
         else (bytes, sink\<lparr>rs_response := (rs_response sink)
                 \<lparr>hr_body := hr_body (rs_response sink) @ take (unat bytes) data\<rparr>\<rparr>)))"

definition header_blank :: string where
  "header_blank = [CHR '' '', CHR 0x09, CHR 0x0D, CHR 0x0A]"

definition trim :: "string \<Rightarrow> string" where
  "trim raw =
     (case (find_first_not_of header_blank raw, find_last_not_of header_blank raw) of
        (Some start, Some e) \<Rightarrow> take (e - start + 1) (drop start raw)
      | _ \<Rightarrow> [])"

definition header_callback :: "string \<Rightarrow> u64 \<Rightarrow> u64 \<Rightarrow> bool \<Rightarrow> response_sink \<Rightarrow> u64 \<times> response_sink"
  where
  "header_callback data sz count alloc sink =
     (if product_overflows sz count then (0, sink)
      else
        (let bytes = sz * count;
             line = take (unat bytes) data;
             headers = (if prefix ''HTTP/'' line then [] else hr_headers (rs_response sink));
             set_headers = (\<lambda>hs. sink\<lparr>rs_response := (rs_response sink)\<lparr>hr_headers := hs\<rparr>\<rparr>)
         in case find_char line CHR '':'' 0 of
              None \<Rightarrow> (bytes, set_headers headers)
            | Some colon \<Rightarrow>
                if \<not> alloc then (0, set_headers headers)
                else (bytes, set_headers
                  (headers @ [(take colon line, trim (drop (colon + 1) line))]))))"

section \<open>libcurl as the code calls it\<close>

datatype curl_option =
    Opt_url string
  | Opt_protocols string
  | Opt_redir_protocols string
  | Opt_write_callback
  | Opt_write_data
  | Opt_header_callback
  | Opt_header_data
  | Opt_http_header "string list"
  | Opt_timeout int
  | Opt_nosignal int
  | Opt_user_agent string
  | Opt_range "string option"
  | Opt_accept_encoding string
  | Opt_follow_location int
  | Opt_max_redirs int
  | Opt_verify_peer int
  | Opt_verify_host int

text \<open>One call of a callback: the data with its two size arguments, and \<open>alloc\<close>.\<close>

datatype transfer_event =
    Header_data string u64 u64 bool
  | Body_data string u64 u64 bool

record transfer =
  tr_events :: "transfer_event list"
  tr_code :: int
  tr_status :: "int option"

record curl_api =
  ca_slist :: bool
  ca_setopt :: "curl_option \<Rightarrow> bool"
  ca_transfer :: "curl_option list \<Rightarrow> transfer"
  ca_strerror :: "int \<Rightarrow> string"

definition CURLE_OK :: int where "CURLE_OK = 0"

definition CURLE_WRITE_ERROR :: int where "CURLE_WRITE_ERROR = 23"

definition CURLE_OPERATION_TIMEDOUT :: int where "CURLE_OPERATION_TIMEDOUT = 28"

fun event_length :: "transfer_event \<Rightarrow> nat" where
  "event_length (Header_data data _ _ _) = length data"
| "event_length (Body_data data _ _ _) = length data"

fun call_back :: "transfer_event \<Rightarrow> response_sink \<Rightarrow> u64 \<times> response_sink" where
  "call_back (Header_data data sz count alloc) sink = header_callback data sz count alloc sink"
| "call_back (Body_data data sz count alloc) sink = write_callback data sz count alloc sink"

text \<open>Delivering the events in order; the flag says whether the callbacks took all of them.\<close>

fun deliver :: "transfer_event list \<Rightarrow> response_sink \<Rightarrow> bool \<times> response_sink" where
  "deliver [] sink = (True, sink)"
| "deliver (e # es) sink =
     (case call_back e sink of
        (n, sink') \<Rightarrow> if unat n = event_length e then deliver es sink' else (False, sink'))"

definition easy_perform :: "transfer \<Rightarrow> response_sink \<Rightarrow> int \<times> response_sink" where
  "easy_perform tr sink =
     (case deliver (tr_events tr) sink of
        (ok, sink') \<Rightarrow> (if ok then tr_code tr else CURLE_WRITE_ERROR, sink'))"

section \<open>The client\<close>

text \<open>
  The implementation behind the \<open>unique_ptr\<close>: its configuration, and whether it has a curl
  handle. A moved-from client has no implementation.
\<close>

record client_impl =
  ci_config :: http_config
  ci_curl :: bool

type_synonym http_client = "client_impl option"

text \<open>\<open>global_ok\<close> and \<open>init_ok\<close>: the results of \<open>curl_global_init\<close> and \<open>curl_easy_init\<close>.\<close>

definition new_client :: "bool \<Rightarrow> bool \<Rightarrow> http_config \<Rightarrow> http_client" where
  "new_client global_ok init_ok cfg =
     Some \<lparr>ci_config = cfg, ci_curl = (if global_ok then init_ok else False)\<rparr>"

text \<open>The moves: what the target holds and what the source is left with.\<close>

definition client_move :: "http_client \<Rightarrow> http_client \<times> http_client" where
  "client_move c = (c, None)"

definition client_config :: "http_client \<Rightarrow> http_config" where
  "client_config c =
     (case c of
        Some im \<Rightarrow> ci_config im
      | None \<Rightarrow> default_config\<lparr>hc_base_url := [], hc_user_agent := []\<rparr>)"

definition invalid_header :: "string \<Rightarrow> bool" where
  "invalid_header value \<longleftrightarrow> find_first_of [CHR 0x0D, CHR 0x0A, CHR 0x00] value \<noteq> None"

definition request_url :: "http_config \<Rightarrow> string \<Rightarrow> string" where
  "request_url cfg path = (if is_absolute_url path then path else hc_base_url cfg @ path)"

definition request_options :: "http_config \<Rightarrow> string \<Rightarrow> string option \<Rightarrow> curl_option list" where
  "request_options cfg path rng =
     (let timeout = min (hc_timeout cfg) int64_max; verify = (if hc_verify_ssl cfg then 1 else 0) in
      [Opt_url (request_url cfg path),
       Opt_protocols ''http,https'',
       Opt_redir_protocols ''http,https'',
       Opt_write_callback, Opt_write_data, Opt_header_callback, Opt_header_data,
       Opt_http_header [''Accept: application/octet-stream''],
       Opt_timeout timeout,
       Opt_nosignal 1,
       Opt_user_agent (hc_user_agent cfg),
       Opt_range rng,
       Opt_accept_encoding (if rng \<noteq> None then ''identity'' else []),
       Opt_follow_location 1,
       Opt_max_redirs 10,
       Opt_verify_peer verify,
       Opt_verify_host (verify * 2)])"

text \<open>\<open>static_cast<std::int16_t>\<close> of a \<open>long\<close>.\<close>

definition to_int16 :: "int \<Rightarrow> int" where
  "to_int16 i = signed_take_bit 15 i"

text \<open>
  \<open>perform\<close> with the requests it makes: the option lists with which \<open>curl_easy_perform\<close> runs.
\<close>

definition perform_run :: "curl_api \<Rightarrow> http_client \<Rightarrow> string \<Rightarrow> string option \<Rightarrow>
    http_response result \<times> curl_option list list" where
  "perform_run A client path rng =
     (case client of
        None \<Rightarrow> (Inl (err_network ''CURL not initialized''), [])
      | Some im \<Rightarrow>
          if \<not> ci_curl im then (Inl (err_network ''CURL not initialized''), [])
          else
            (let cfg = ci_config im in
             if find_char (request_url cfg path) CHR 0x00 0 \<noteq> None \<or>
                invalid_header (hc_user_agent cfg) \<or> hc_timeout cfg < 0
             then (Inl (err_invalid_request ''Invalid URL, header, or timeout''), [])
             else if \<not> ca_slist A then (Inl (err_network ''Could not allocate HTTP headers''), [])
             else
               (let sink = \<lparr>rs_response = empty_response, rs_limit = hc_max_response_bytes cfg,
                            rs_overflowed = False\<rparr>;
                    opts = request_options cfg path rng in
                if \<not> list_all (ca_setopt A) opts
                then (Inl (err_network ''libcurl rejected a required option''), [])
                else
                  (case easy_perform (ca_transfer A opts) sink of
                     (code, sink') \<Rightarrow>
                       (if rs_overflowed sink'
                        then Inl (err_invalid_request
                          ''Response exceeded HttpClientConfig::max_response_bytes'')
                        else if code = CURLE_OPERATION_TIMEDOUT
                        then Inl (err_timeout (ca_strerror A code))
                        else if code \<noteq> CURLE_OK then Inl (err_network (ca_strerror A code))
                        else
                          (case tr_status (ca_transfer A opts) of
                             None \<Rightarrow> Inl (err_network ''libcurl did not return HTTP status'')
                           | Some status \<Rightarrow>
                               Inr ((rs_response sink')\<lparr>hr_status := to_int16 status\<rparr>)),
                        [opts])))))"

text \<open>The return value alone, which the callers of \<open>perform\<close> see.\<close>

definition perform :: "curl_api \<Rightarrow> http_client \<Rightarrow> string \<Rightarrow> string option \<Rightarrow> http_response result"
  where
  "perform A client path rng = fst (perform_run A client path rng)"

lemma perform_eq:
  "perform A client path rng =
     (case client of
        None \<Rightarrow> Inl (err_network ''CURL not initialized'')
      | Some im \<Rightarrow>
          if \<not> ci_curl im then Inl (err_network ''CURL not initialized'')
          else
            (let cfg = ci_config im in
             if find_char (request_url cfg path) CHR 0x00 0 \<noteq> None \<or>
                invalid_header (hc_user_agent cfg) \<or> hc_timeout cfg < 0
             then Inl (err_invalid_request ''Invalid URL, header, or timeout'')
             else if \<not> ca_slist A then Inl (err_network ''Could not allocate HTTP headers'')
             else
               (let sink = \<lparr>rs_response = empty_response, rs_limit = hc_max_response_bytes cfg,
                            rs_overflowed = False\<rparr>;
                    opts = request_options cfg path rng in
                if \<not> list_all (ca_setopt A) opts
                then Inl (err_network ''libcurl rejected a required option'')
                else
                  (case easy_perform (ca_transfer A opts) sink of
                     (code, sink') \<Rightarrow>
                       if rs_overflowed sink'
                       then Inl (err_invalid_request
                         ''Response exceeded HttpClientConfig::max_response_bytes'')
                       else if code = CURLE_OPERATION_TIMEDOUT
                       then Inl (err_timeout (ca_strerror A code))
                       else if code \<noteq> CURLE_OK then Inl (err_network (ca_strerror A code))
                       else
                         (case tr_status (ca_transfer A opts) of
                            None \<Rightarrow> Inl (err_network ''libcurl did not return HTTP status'')
                          | Some status \<Rightarrow>
                              Inr ((rs_response sink')\<lparr>hr_status := to_int16 status\<rparr>))))))"
  by (simp add: perform_def perform_run_def Let_def split: option.split prod.split)

definition http_get :: "curl_api \<Rightarrow> http_client \<Rightarrow> string \<Rightarrow> http_response result" where
  "http_get A client path = perform A client path None"

section \<open>Size arithmetic of the callbacks\<close>

lemma product_overflows_iff: "product_overflows sz count \<longleftrightarrow> 2 ^ 64 \<le> unat sz * unat count"
proof (cases "sz = 0")
  case True
  then show ?thesis by (simp add: product_overflows_def)
next
  case False
  then have pos: "0 < unat sz" by (simp add: unat_gt_0)
  have "product_overflows sz count \<longleftrightarrow> (2 ^ 64 - 1) div unat sz < unat count"
    using False by (simp add: product_overflows_def word_less_nat_alt unat_div word_nat)
  also have "\<dots> \<longleftrightarrow> 2 ^ 64 - 1 < unat count * unat sz"
    using pos by (simp add: div_less_iff_less_mult)
  finally show ?thesis by (auto simp: mult.commute)
qed

lemma product_unat: "\<not> product_overflows sz count \<Longrightarrow> unat (sz * count) = unat sz * unat count"
  by (simp add: product_overflows_iff unat_mult_lem [THEN iffD1])

section \<open>The size limit\<close>

text \<open>The invariant that keeps the subtraction in \<open>write_callback\<close> from wrapping.\<close>

definition within_limit :: "response_sink \<Rightarrow> bool" where
  "within_limit sink \<longleftrightarrow>
     (0 < rs_limit sink \<longrightarrow> length (hr_body (rs_response sink)) \<le> unat (rs_limit sink))"

lemma body_size_unat:
  assumes "within_limit sink" and "0 < rs_limit sink"
  shows "unat (body_size sink) = length (hr_body (rs_response sink))"
    and "unat (rs_limit sink - body_size sink) =
           unat (rs_limit sink) - length (hr_body (rs_response sink))"
proof -
  have le: "length (hr_body (rs_response sink)) \<le> unat (rs_limit sink)"
    using assms by (simp add: within_limit_def)
  then show eq: "unat (body_size sink) = length (hr_body (rs_response sink))"
    unfolding body_size_def
    by (rule unat_of_nat_u64 [OF le_less_trans]) (rule unat_u64_less)
  show "unat (rs_limit sink - body_size sink) =
      unat (rs_limit sink) - length (hr_body (rs_response sink))"
    using le by (subst unat_sub) (simp_all add: eq word_le_nat_alt)
qed

lemma write_within_limit:
  assumes "within_limit sink"
  shows "within_limit (snd (write_callback data sz count alloc sink))"
proof (cases "0 < rs_limit sink")
  case False
  then show ?thesis by (auto simp: within_limit_def write_callback_def Let_def)
next
  case True
  note size = body_size_unat [OF assms True]
  have le: "length (hr_body (rs_response sink)) \<le> unat (rs_limit sink)"
    using assms True by (simp add: within_limit_def)
  show ?thesis
    using assms True size le
    by (auto simp: write_callback_def Let_def within_limit_def not_less word_le_nat_alt)
qed

lemma write_keeps_limit: "rs_limit (snd (write_callback data sz count alloc sink)) = rs_limit sink"
  by (simp add: write_callback_def Let_def)

lemma header_keeps:
  "rs_limit (snd (header_callback data sz count alloc sink)) = rs_limit sink"
  "hr_body (rs_response (snd (header_callback data sz count alloc sink))) = hr_body (rs_response sink)"
  "rs_overflowed (snd (header_callback data sz count alloc sink)) = rs_overflowed sink"
  by (auto simp: header_callback_def Let_def split: option.split)

lemma call_back_within: "within_limit sink \<Longrightarrow>
    within_limit (snd (call_back e sink)) \<and> rs_limit (snd (call_back e sink)) = rs_limit sink"
proof (cases e)
  case (Header_data data sz count alloc)
  then show "within_limit sink \<Longrightarrow> ?thesis" by (simp add: within_limit_def header_keeps)
next
  case (Body_data data sz count alloc)
  then show "within_limit sink \<Longrightarrow> ?thesis" by (simp add: write_within_limit write_keeps_limit)
qed

lemma deliver_within:
  "within_limit sink \<Longrightarrow>
     within_limit (snd (deliver es sink)) \<and> rs_limit (snd (deliver es sink)) = rs_limit sink"
proof (induction es arbitrary: sink)
  case Nil
  then show ?case by simp
next
  case (Cons e es)
  obtain n sink' where e: "call_back e sink = (n, sink')" by force
  have "within_limit sink' \<and> rs_limit sink' = rs_limit sink"
    using call_back_within [OF Cons.prems, of e] e by simp
  with e Cons.IH [of sink'] show ?case by simp
qed

section \<open>A body delivered in pieces\<close>

text \<open>
  Events as libcurl documents them: the size arguments describe the data. The total of the
  body pieces decides whether the sink overflows.
\<close>

fun event_ok :: "transfer_event \<Rightarrow> bool" where
  "event_ok (Header_data data sz count alloc) =
     (alloc \<and> length data = unat sz * unat count \<and> length data < 2 ^ 64)"
| "event_ok (Body_data data sz count alloc) =
     (alloc \<and> length data = unat sz * unat count \<and> length data < 2 ^ 64)"

fun body_bytes :: "transfer_event list \<Rightarrow> string" where
  "body_bytes [] = []"
| "body_bytes (Body_data data _ _ _ # es) = data @ body_bytes es"
| "body_bytes (_ # es) = body_bytes es"

definition fits :: "response_sink \<Rightarrow> nat \<Rightarrow> bool" where
  "fits sink n \<longleftrightarrow>
     rs_limit sink = 0 \<or> length (hr_body (rs_response sink)) + n \<le> unat (rs_limit sink)"

lemma write_piece:
  assumes "event_ok (Body_data data sz count alloc)" and "within_limit sink"
  shows "write_callback data sz count alloc sink =
    (if fits sink (length data)
     then (of_nat (length data), sink\<lparr>rs_response := (rs_response sink)
             \<lparr>hr_body := hr_body (rs_response sink) @ data\<rparr>\<rparr>)
     else (0, sink\<lparr>rs_overflowed := True\<rparr>))"
proof -
  have no: "\<not> product_overflows sz count" using assms(1) by (simp add: product_overflows_iff)
  have bytes: "unat (sz * count) = length data"
    using product_unat [OF no] assms(1) by simp
  then have eq: "sz * count = of_nat (length data)"
    by (metis of_nat_unat_u64)
  have cond: "(0 < rs_limit sink \<and> rs_limit sink - body_size sink < sz * count) \<longleftrightarrow>
      \<not> fits sink (length data)"
  proof (cases "0 < rs_limit sink")
    case True
    then have "length (hr_body (rs_response sink)) \<le> unat (rs_limit sink)"
      using assms(2) by (simp add: within_limit_def)
    then show ?thesis
      using True body_size_unat(2) [OF assms(2) True] bytes
      by (auto simp: fits_def word_less_nat_alt)
  qed (simp add: fits_def word_gt_0)
  have tk: "take (unat (sz * count)) data = data" by (simp only: bytes take_all order_refl)
  have "alloc" using assms(1) by simp
  then show ?thesis
    by (simp only: write_callback_def Let_def no cond tk if_False if_not_P [of "\<not> alloc"]
        if_not_P [of "\<not> fits sink (length data)"] not_not eq [symmetric] split: if_split) simp
qed

lemma header_piece:
  assumes "event_ok (Header_data data sz count alloc)"
  shows "fst (header_callback data sz count alloc sink) = of_nat (length data)"
    and "unat (sz * count) = length data"
proof -
  have no: "\<not> product_overflows sz count" using assms by (simp add: product_overflows_iff)
  show bytes: "unat (sz * count) = length data"
    using product_unat [OF no] assms by simp
  then have "sz * count = of_nat (length data)"
    by (metis of_nat_unat_u64)
  then show "fst (header_callback data sz count alloc sink) = of_nat (length data)"
    using assms no by (auto simp: header_callback_def Let_def split: option.split)
qed

lemma deliver_body:
  assumes "list_all event_ok es" and "within_limit sink" and "\<not> rs_overflowed sink"
  shows "if fits sink (length (body_bytes es))
    then fst (deliver es sink) \<and> \<not> rs_overflowed (snd (deliver es sink)) \<and>
      hr_body (rs_response (snd (deliver es sink))) = hr_body (rs_response sink) @ body_bytes es
    else \<not> fst (deliver es sink) \<and> rs_overflowed (snd (deliver es sink))"
  using assms
proof (induction es arbitrary: sink)
  case Nil
  then show ?case by (auto simp: fits_def within_limit_def word_gt_0)
next
  case (Cons e es)
  show ?case
  proof (cases e)
    case (Header_data data sz count alloc)
    then have ok: "event_ok (Header_data data sz count alloc)" using Cons.prems by simp
    obtain sink' where cb: "header_callback data sz count alloc sink = (of_nat (length data), sink')"
      using header_piece(1) [OF ok] by (metis prod.collapse)
    have keep: "rs_limit sink' = rs_limit sink"
      "hr_body (rs_response sink') = hr_body (rs_response sink)" "rs_overflowed sink' = rs_overflowed sink"
      using header_keeps [of data sz count alloc sink] cb by simp_all
    have "unat (of_nat (length data) :: u64) = length data"
      using ok by (intro unat_of_nat_u64) simp
    then show ?thesis
      using Cons.IH [of sink'] Cons.prems cb keep Header_data
      by (simp add: fits_def within_limit_def)
  next
    case (Body_data data sz count alloc)
    then have ok: "event_ok (Body_data data sz count alloc)" using Cons.prems by simp
    have len: "unat (of_nat (length data) :: u64) = length data"
      using ok by (intro unat_of_nat_u64) simp
    note cb = write_piece [OF ok Cons.prems(2)]
    show ?thesis
    proof (cases "fits sink (length data)")
      case False
      have "data \<noteq> []" using False Cons.prems(2) by (auto simp: fits_def within_limit_def word_gt_0)
      then show ?thesis
        using False cb Body_data len by (auto simp: fits_def)
    next
      case True
      let ?sink = "sink\<lparr>rs_response := (rs_response sink)\<lparr>hr_body := hr_body (rs_response sink) @ data\<rparr>\<rparr>"
      have "within_limit ?sink" using True by (auto simp: fits_def within_limit_def)
      then show ?thesis
        using Cons.IH [of ?sink] Cons.prems True cb Body_data len
        by (simp add: fits_def add.assoc)
    qed
  qed
qed

section \<open>Headers of the final response\<close>

definition parse_header :: "string \<Rightarrow> (string \<times> string) list" where
  "parse_header line =
     (case find_char line CHR '':'' 0 of
        None \<Rightarrow> []
      | Some colon \<Rightarrow> [(take colon line, trim (drop (colon + 1) line))])"

fun header_lines :: "transfer_event list \<Rightarrow> string list" where
  "header_lines [] = []"
| "header_lines (Header_data data _ _ _ # es) = data # header_lines es"
| "header_lines (_ # es) = header_lines es"

text \<open>The lines of the last response: each redirect or interim response starts a new block.\<close>

definition starts_block :: "string \<Rightarrow> bool" where
  "starts_block line \<longleftrightarrow> prefix ''HTTP/'' line"

fun last_block :: "string list \<Rightarrow> string list" where
  "last_block [] = []"
| "last_block (l # ls) = (if list_ex starts_block ls then last_block ls else l # ls)"

lemma last_block_same: "\<not> list_ex starts_block ls \<Longrightarrow> last_block ls = ls"
  by (cases ls) auto

lemma header_piece_fields:
  assumes "event_ok (Header_data data sz count alloc)"
  shows "hr_headers (rs_response (snd (header_callback data sz count alloc sink))) =
    (if starts_block data then [] else hr_headers (rs_response sink)) @ parse_header data"
proof -
  have no: "\<not> product_overflows sz count" using assms by (simp add: product_overflows_iff)
  show ?thesis
    using assms no header_piece(2) [OF assms]
    by (simp add: header_callback_def Let_def parse_header_def starts_block_def split: option.split)
qed

lemma write_piece_fields:
  "hr_headers (rs_response (snd (write_callback data sz count alloc sink))) =
     hr_headers (rs_response sink)"
  by (simp add: write_callback_def Let_def)

lemma deliver_headers:
  assumes "list_all event_ok es" and "fst (deliver es sink)"
  shows "hr_headers (rs_response (snd (deliver es sink))) =
    (if list_ex starts_block (header_lines es) then [] else hr_headers (rs_response sink)) @
    concat (map parse_header (last_block (header_lines es)))"
  using assms
proof (induction es arbitrary: sink)
  case Nil
  then show ?case by simp
next
  case (Cons e es)
  obtain n sink' where cb: "call_back e sink = (n, sink')" by force
  then have d: "deliver (e # es) sink = deliver es sink'" "fst (deliver es sink')"
    using Cons.prems(2) by (auto split: if_splits)
  note IH = Cons.IH [OF _ d(2)]
  show ?case
  proof (cases e)
    case (Header_data data sz count alloc)
    then have "hr_headers (rs_response sink') =
        (if starts_block data then [] else hr_headers (rs_response sink)) @ parse_header data"
      using header_piece_fields [of data sz count alloc sink] Cons.prems(1) cb by simp
    then show ?thesis using IH Cons.prems(1) d(1) Header_data by (simp add: last_block_same)
  next
    case (Body_data data sz count alloc)
    then have "hr_headers (rs_response sink') = hr_headers (rs_response sink)"
      using write_piece_fields [of data sz count alloc sink] cb by simp
    then show ?thesis using IH Cons.prems(1) d(1) Body_data by simp
  qed
qed

section \<open>Searching lemmas\<close>

lemma find_first_not_of_skip:
  "set ws \<subseteq> set cs \<Longrightarrow> c \<notin> set cs \<Longrightarrow> find_first_not_of cs (ws @ c # s) = Some (length ws)"
  by (induction ws) auto

lemma find_first_not_of_None: "find_first_not_of cs s = None \<longleftrightarrow> set s \<subseteq> set cs"
  by (induction s) auto

lemma trim_padded:
  assumes "set ws1 \<subseteq> set header_blank" and "set ws2 \<subseteq> set header_blank"
    and "v = [] \<or> (hd v \<notin> set header_blank \<and> last v \<notin> set header_blank)"
  shows "trim (ws1 @ v @ ws2) = v"
proof (cases "v = []")
  case True
  then have "find_first_not_of header_blank (ws1 @ v @ ws2) = None"
    using assms(1,2) by (simp add: find_first_not_of_None)
  then show ?thesis using True by (simp add: trim_def)
next
  case False
  then have ends: "hd v \<notin> set header_blank" "last v \<notin> set header_blank" using assms(3) by auto
  have "ws1 @ v @ ws2 = ws1 @ hd v # (tl v @ ws2)" using False by simp
  then have f: "find_first_not_of header_blank (ws1 @ v @ ws2) = Some (length ws1)"
    using find_first_not_of_skip [OF assms(1) ends(1)] by metis
  have r: "rev v = last v # rev (butlast v)" using False by (cases v rule: rev_cases) auto
  have "find_first_not_of header_blank (rev ws2 @ last v # (rev (butlast v) @ rev ws1)) =
      Some (length (rev ws2))"
    using assms(2) ends(2) by (intro find_first_not_of_skip) simp_all
  then have "find_first_not_of header_blank (rev (ws1 @ v @ ws2)) = Some (length ws2)"
    by (simp only: rev_append r append.simps append_assoc length_rev)
  then have l: "find_last_not_of header_blank (ws1 @ v @ ws2) = Some (length ws1 + length v - 1)"
    using False by (simp add: find_last_not_of_def)
  have "length ws1 + length v - 1 - length ws1 + 1 = length v" using False by (cases v) auto
  then show ?thesis by (simp add: trim_def f l)
qed

lemma parse_header_padded:
  assumes "CHR '':'' \<notin> set name" and "set ws1 \<subseteq> set header_blank" and "set ws2 \<subseteq> set header_blank"
    and "v = [] \<or> (hd v \<notin> set header_blank \<and> last v \<notin> set header_blank)"
  shows "parse_header (name @ CHR '':'' # ws1 @ v @ ws2) = [(name, v)]"
  using index_of_append [OF assms(1), of "ws1 @ v @ ws2"] trim_padded [OF assms(2-4)]
  by (simp add: parse_header_def find_char_def)

section \<open>Absolute URLs\<close>

lemma find_sub_first:
  assumes "\<And>k. k < length s \<Longrightarrow> \<not> prefix p (drop k (s @ p @ rest))"
  shows "find_sub p (s @ p @ rest) = Some (length s)"
  using assms
proof (induction s)
  case Nil
  then show ?case by (cases "p @ rest") (auto, metis prefixI)
next
  case (Cons c s)
  have "\<not> prefix p (c # s @ p @ rest)" using Cons.prems [of 0] by simp
  moreover have "find_sub p (s @ p @ rest) = Some (length s)"
    using Cons.prems by (intro Cons.IH) (metis Suc_less_eq append_Cons drop_Suc_Cons length_Cons)
  ultimately show ?case by simp
qed

lemma colon_not_scheme: "CHR '':'' \<notin> set scheme_chars"
  by (simp add: scheme_chars_def)

lemma is_absolute_url_intro:
  assumes "s \<noteq> []" and "is_alpha (hd s)" and "set s \<subseteq> set scheme_chars"
  shows "is_absolute_url (s @ ''://'' @ rest)"
proof -
  have "\<not> prefix ''://'' (drop k (s @ ''://'' @ rest))" if "k < length s" for k
  proof -
    have "drop k (s @ ''://'' @ rest) = s ! k # drop (Suc k) s @ ''://'' @ rest"
      using that by (simp add: drop_eq_Cons_nth)
    moreover have "s ! k \<noteq> CHR '':''" using that assms(3) colon_not_scheme nth_mem by fastforce
    ultimately show ?thesis by simp
  qed
  from find_sub_first [OF this] have "find_sub ''://'' (s @ ''://'' @ rest) = Some (length s)" .
  then show ?thesis
    using assms by (simp add: is_absolute_url_def find_first_not_of_None nth_append hd_conv_nth)
qed

text \<open>
  The URL test accepts exactly the strings that begin with a scheme followed by "://",
  where a scheme is a letter followed by letters, digits, "+", "." and "-".
\<close>

theorem absolute_url_iff:
  "is_absolute_url v \<longleftrightarrow>
     (\<exists>s rest. v = s @ ''://'' @ rest \<and> s \<noteq> [] \<and> is_alpha (hd s) \<and> set s \<subseteq> set scheme_chars)"
proof
  assume "is_absolute_url v"
  then obtain e where e: "find_sub ''://'' v = Some e" "e \<noteq> 0" "is_alpha (v ! 0)"
    "find_first_not_of scheme_chars (take e v) = None"
    by (auto simp: is_absolute_url_def split: option.splits if_splits)
  from find_sub_Some [OF e(1)] obtain rest where d: "drop e v = ''://'' @ rest" and "e < length v"
    by (auto simp: prefix_def)
  then have "v = take e v @ ''://'' @ rest \<and> take e v \<noteq> [] \<and> hd (take e v) = v ! 0"
    using e(2) by (metis append_take_drop_id hd_take hd_conv_nth length_greater_0_conv
        less_nat_zero_code neq0_conv take_eq_Nil)
  then show "\<exists>s rest. v = s @ ''://'' @ rest \<and> s \<noteq> [] \<and> is_alpha (hd s) \<and> set s \<subseteq> set scheme_chars"
    using e(3,4) find_first_not_of_None by metis
next
  assume "\<exists>s rest. v = s @ ''://'' @ rest \<and> s \<noteq> [] \<and> is_alpha (hd s) \<and> set s \<subseteq> set scheme_chars"
  then show "is_absolute_url v" using is_absolute_url_intro by blast
qed

section \<open>Properties of a request\<close>

definition start_sink :: "http_config \<Rightarrow> response_sink" where
  "start_sink cfg =
     \<lparr>rs_response = empty_response, rs_limit = hc_max_response_bytes cfg, rs_overflowed = False\<rparr>"

lemma start_sink_simps [simp]:
  "within_limit (start_sink cfg)" "\<not> rs_overflowed (start_sink cfg)"
  "rs_limit (start_sink cfg) = hc_max_response_bytes cfg"
  "rs_response (start_sink cfg) = empty_response"
  by (simp_all add: start_sink_def within_limit_def empty_response_def)

text \<open>A request that reaches the network: the client works and nothing is rejected before.\<close>

definition request_ready :: "curl_api \<Rightarrow> client_impl \<Rightarrow> string \<Rightarrow> string option \<Rightarrow> bool" where
  "request_ready A im path rng \<longleftrightarrow>
     ci_curl im \<and> CHR 0x00 \<notin> set (request_url (ci_config im) path) \<and>
     \<not> invalid_header (hc_user_agent (ci_config im)) \<and> 0 \<le> hc_timeout (ci_config im) \<and>
     ca_slist A \<and> list_all (ca_setopt A) (request_options (ci_config im) path rng)"

lemma perform_ready:
  assumes "request_ready A im path rng"
  shows "perform A (Some im) path rng =
    (let tr = ca_transfer A (request_options (ci_config im) path rng) in
     case easy_perform tr (start_sink (ci_config im)) of
       (code, sink) \<Rightarrow>
         if rs_overflowed sink
         then Inl (err_invalid_request ''Response exceeded HttpClientConfig::max_response_bytes'')
         else if code = CURLE_OPERATION_TIMEDOUT then Inl (err_timeout (ca_strerror A code))
         else if code \<noteq> CURLE_OK then Inl (err_network (ca_strerror A code))
         else
           (case tr_status tr of
              None \<Rightarrow> Inl (err_network ''libcurl did not return HTTP status'')
            | Some status \<Rightarrow> Inr ((rs_response sink)\<lparr>hr_status := to_int16 status\<rparr>)))"
  using assms
  by (simp add: perform_eq request_ready_def Let_def find_char_None start_sink_def
      not_less find_char_def index_of_None split: if_split)

lemma perform_InrD:
  assumes "perform A client path rng = Inr r"
  obtains im where "client = Some im" and "request_ready A im path rng"
proof -
  obtain im where "client = Some im" using assms by (cases client) (auto simp: perform_eq)
  moreover from this have "request_ready A im path rng"
    using assms
    by (auto simp: perform_eq request_ready_def Let_def find_char_def index_of_None
        split: if_splits)
  ultimately show ?thesis using that by blast
qed

lemma perform_sent:
  assumes "opts \<in> set (snd (perform_run A client path rng))"
  obtains im where "client = Some im" and "request_ready A im path rng"
    and "opts = request_options (ci_config im) path rng"
proof -
  obtain im where im: "client = Some im" using assms by (cases client) (auto simp: perform_run_def)
  have "request_ready A im path rng \<and> opts = request_options (ci_config im) path rng"
    using assms im
    by (auto simp: perform_run_def request_ready_def Let_def find_char_def index_of_None
        split: if_splits prod.splits)
  then show ?thesis using that im by blast
qed

lemma perform_once: "length (snd (perform_run A client path rng)) \<le> 1"
  by (auto simp: perform_run_def Let_def split: option.split prod.split)

lemma ready_sent: "request_ready A im path rng \<Longrightarrow>
    snd (perform_run A (Some im) path rng) = [request_options (ci_config im) path rng]"
  by (simp add: perform_run_def request_ready_def Let_def find_char_def index_of_None
      split: prod.split)

lemma body_limited:
  assumes "perform A (Some im) path rng = Inr r" and "0 < hc_max_response_bytes (ci_config im)"
  shows "length (hr_body r) \<le> unat (hc_max_response_bytes (ci_config im))"
proof -
  have ready: "request_ready A im path rng" using perform_InrD [OF assms(1)] by auto
  let ?tr = "ca_transfer A (request_options (ci_config im) path rng)"
  let ?sink = "snd (deliver (tr_events ?tr) (start_sink (ci_config im)))"
  have "hr_body r = hr_body (rs_response ?sink)"
    using assms(1) perform_ready [OF ready]
    by (auto simp: Let_def easy_perform_def split: prod.splits if_splits option.splits)
  moreover have "within_limit ?sink \<and> rs_limit ?sink = hc_max_response_bytes (ci_config im)"
    using deliver_within [of "start_sink (ci_config im)"] by simp
  ultimately show ?thesis using assms(2) by (auto simp: within_limit_def word_gt_0)
qed

text \<open>
  C20: what is sent and what comes back. \<open>perform\<close> makes at most one request, and none unless the
  client works, the URL has no NUL, the user agent no NUL or line break and the timeout is not
  negative: a bad request fails before libcurl runs. A response is the answer to one request and
  has at most \<open>max_response_bytes\<close> body bytes when the limit is set, whatever sizes and data the
  transfer delivers.
\<close>

theorem body_within_limit:
  assumes "perform_run A client path rng = (result, sent)"
  shows "length sent \<le> 1 \<and>
    (\<forall>opts \<in> set sent. \<exists>im. client = Some im \<and> ci_curl im \<and>
       opts = request_options (ci_config im) path rng \<and>
       CHR 0x00 \<notin> set (request_url (ci_config im) path) \<and>
       set (hc_user_agent (ci_config im)) \<inter> {CHR 0x0D, CHR 0x0A, CHR 0x00} = {} \<and>
       0 \<le> hc_timeout (ci_config im)) \<and>
    (\<forall>im. client = Some im \<and> ci_curl im \<and>
       (CHR 0x00 \<in> set (request_url (ci_config im) path) \<or> invalid_header (hc_user_agent (ci_config im))) \<longrightarrow>
       result = Inl (err_invalid_request ''Invalid URL, header, or timeout'') \<and> sent = []) \<and>
    (\<forall>r im. result = Inr r \<and> client = Some im \<longrightarrow>
       sent = [request_options (ci_config im) path rng] \<and>
       (0 < hc_max_response_bytes (ci_config im) \<longrightarrow>
          length (hr_body r) \<le> unat (hc_max_response_bytes (ci_config im))))"
proof (intro conjI ballI allI impI)
  show "length sent \<le> 1" using perform_once [of A client path rng] assms by simp
next
  fix opts assume "opts \<in> set sent"
  then have "opts \<in> set (snd (perform_run A client path rng))" using assms by simp
  then show "\<exists>im. client = Some im \<and> ci_curl im \<and> opts = request_options (ci_config im) path rng \<and>
       CHR 0x00 \<notin> set (request_url (ci_config im) path) \<and>
       set (hc_user_agent (ci_config im)) \<inter> {CHR 0x0D, CHR 0x0A, CHR 0x00} = {} \<and>
       0 \<le> hc_timeout (ci_config im)"
    by (rule perform_sent) (auto simp: request_ready_def invalid_header_def find_first_of_None)
next
  fix im
  assume "client = Some im \<and> ci_curl im \<and>
    (CHR 0x00 \<in> set (request_url (ci_config im) path) \<or> invalid_header (hc_user_agent (ci_config im)))"
  then have "perform_run A client path rng =
      (Inl (err_invalid_request ''Invalid URL, header, or timeout''), [])"
    by (auto simp: perform_run_def find_char_def index_of_None Let_def)
  then show "result = Inl (err_invalid_request ''Invalid URL, header, or timeout'')" "sent = []"
    using assms by simp_all
next
  fix r im assume r: "result = Inr r \<and> client = Some im"
  then have p: "perform A (Some im) path rng = Inr r" using assms by (simp add: perform_def)
  show "sent = [request_options (ci_config im) path rng]"
    using perform_InrD [OF p] ready_sent [of A im path rng] assms r by auto
  show "length (hr_body r) \<le> unat (hc_max_response_bytes (ci_config im))"
    if "0 < hc_max_response_bytes (ci_config im)"
    using body_limited [OF p that] .
qed

lemma perform_delivers:
  assumes "request_ready A im path rng"
    and "ca_transfer A (request_options (ci_config im) path rng) = tr"
    and "list_all event_ok (tr_events tr)" and "tr_code tr = CURLE_OK" and "tr_status tr = Some st"
  shows "perform A (Some im) path rng =
    (if hc_max_response_bytes (ci_config im) = 0 \<or>
        length (body_bytes (tr_events tr)) \<le> unat (hc_max_response_bytes (ci_config im))
     then Inr \<lparr>hr_status = to_int16 st, hr_body = body_bytes (tr_events tr),
               hr_headers = concat (map parse_header (last_block (header_lines (tr_events tr))))\<rparr>
     else Inl (err_invalid_request ''Response exceeded HttpClientConfig::max_response_bytes''))"
proof -
  let ?s = "start_sink (ci_config im)"
  obtain ok sink where d: "deliver (tr_events tr) ?s = (ok, sink)" by force
  have body: "if fits ?s (length (body_bytes (tr_events tr)))
      then ok \<and> \<not> rs_overflowed sink \<and> hr_body (rs_response sink) = body_bytes (tr_events tr)
      else \<not> ok \<and> rs_overflowed sink"
    using deliver_body [OF assms(3), of ?s] d by (simp add: empty_response_def split: if_splits)
  have headers: "hr_headers (rs_response sink) =
      concat (map parse_header (last_block (header_lines (tr_events tr))))" if ok
    using deliver_headers [OF assms(3), of ?s] d that by (simp add: empty_response_def)
  have codes: "CURLE_OK \<noteq> CURLE_OPERATION_TIMEDOUT"
    by (simp add: CURLE_OK_def CURLE_OPERATION_TIMEDOUT_def)
  have fits: "fits ?s n \<longleftrightarrow> hc_max_response_bytes (ci_config im) = 0 \<or>
      n \<le> unat (hc_max_response_bytes (ci_config im))" for n
    by (simp add: fits_def empty_response_def)
  show ?thesis
  proof (cases "fits ?s (length (body_bytes (tr_events tr)))")
    case True
    then have "ok" "\<not> rs_overflowed sink" "hr_body (rs_response sink) = body_bytes (tr_events tr)"
      using body by simp_all
    then show ?thesis
      using True headers assms(2,4,5) d codes
      by (simp add: perform_ready [OF assms(1)] easy_perform_def fits http_response.equality)
  next
    case False
    then show ?thesis
      using body assms(2) d by (simp add: perform_ready [OF assms(1)] easy_perform_def fits)
  qed
qed

text \<open>
  C15: a request that reaches the server returns exactly what was sent. When the transfer ends
  well, the response has the status, the concatenation of all body pieces and the header
  fields of the last header block, earlier blocks of redirects being dropped; the only
  exception is a body over the limit, which is an \<open>InvalidRequest\<close> error.
\<close>

theorem perform_exact:
  assumes "request_ready A im path rng"
    and "ca_transfer A (request_options (ci_config im) path rng) = tr"
    and "list_all event_ok (tr_events tr)" and "tr_code tr = CURLE_OK" and "tr_status tr = Some st"
  shows "perform A (Some im) path rng =
    (if hc_max_response_bytes (ci_config im) = 0 \<or>
        length (body_bytes (tr_events tr)) \<le> unat (hc_max_response_bytes (ci_config im))
     then Inr \<lparr>hr_status = to_int16 st, hr_body = body_bytes (tr_events tr),
               hr_headers = concat (map parse_header (last_block (header_lines (tr_events tr))))\<rparr>
     else Inl (err_invalid_request ''Response exceeded HttpClientConfig::max_response_bytes''))"
  using assms by (rule perform_delivers)

text \<open>
  A failed request is one of three kinds and carries no HTTP status: an invalid request
  (which a retry cannot repair: rejected before sending, or too large), a timeout, reported by
  libcurl as such, or a network error.
\<close>

lemma perform_error_kinds:
  assumes "perform A client path rng = Inl e"
  shows "err_http_status e = 0 \<and> err_code e \<in> {InvalidRequest, Timeout, NetworkError} \<and>
    (err_code e = Timeout \<longrightarrow>
      (\<exists>im. client = Some im \<and>
         tr_code (ca_transfer A (request_options (ci_config im) path rng)) = CURLE_OPERATION_TIMEDOUT))"
proof -
  have w: "CURLE_WRITE_ERROR \<noteq> CURLE_OPERATION_TIMEDOUT"
    by (simp add: CURLE_WRITE_ERROR_def CURLE_OPERATION_TIMEDOUT_def)
  show ?thesis
  proof (cases client)
    case None
    then show ?thesis using assms by (auto simp: perform_eq err_network_def)
  next
    case (Some im)
    show ?thesis
    proof (cases "request_ready A im path rng")
      case True
      then show ?thesis
        using assms w unfolding Some perform_ready [OF True]
        by (auto simp: Let_def easy_perform_def error_factory_defs
            split: prod.splits if_splits option.splits)
    next
      case False
      then show ?thesis
        using assms Some
        by (auto simp: perform_eq request_ready_def Let_def find_char_def index_of_None
            error_factory_defs split: if_splits)
    qed
  qed
qed

text \<open>
  A header line "name:value" with any blanks around the value and a line end is recorded
  as the pair of the name and the bare value.
\<close>

lemma header_field_roundtrip:
  assumes "CHR '':'' \<notin> set name" and "set ws1 \<subseteq> set header_blank" and "set ws2 \<subseteq> set header_blank"
    and "v = [] \<or> (hd v \<notin> set header_blank \<and> last v \<notin> set header_blank)"
    and "event_ok (Header_data (name @ CHR '':'' # ws1 @ v @ ws2) sz count True)"
    and "\<not> starts_block (name @ CHR '':'' # ws1 @ v @ ws2)"
  shows "hr_headers (rs_response (snd (header_callback (name @ CHR '':'' # ws1 @ v @ ws2)
      sz count True sink))) = hr_headers (rs_response sink) @ [(name, v)]"
  using header_piece_fields [OF assms(5), of sink] parse_header_padded [OF assms(1-4)] assms(6)
  by simp

section \<open>A server for the witnesses\<close>

text \<open>A redirect block, the final block with a Content-Range, and a body in two pieces.\<close>

definition crlf :: string where
  "crlf = [CHR 0x0D, CHR 0x0A]"

definition header_event :: "string \<Rightarrow> transfer_event" where
  "header_event line = Header_data (line @ crlf) 1 (of_nat (length line + 2)) True"

definition sample_transfer :: transfer where
  "sample_transfer =
     \<lparr>tr_events =
        [header_event ''HTTP/1.1 302 Found'', header_event ''Location: https://b/f'', header_event [],
         header_event ''HTTP/1.1 206 Partial Content'',
         header_event ''Content-RANGE:  bytes 4-6/10'', header_event [],
         Body_data ''ab'' 1 2 True, Body_data ''c'' 1 1 True],
      tr_code = CURLE_OK, tr_status = Some 206\<rparr>"

definition sample_curl :: curl_api where
  "sample_curl =
     \<lparr>ca_slist = True, ca_setopt = \<lambda>_. True, ca_transfer = \<lambda>_. sample_transfer,
      ca_strerror = \<lambda>_. ''error''\<rparr>"

definition sample_impl :: client_impl where
  "sample_impl = \<lparr>ci_config = default_config, ci_curl = True\<rparr>"

lemma sample_ready: "request_ready sample_curl sample_impl ''https://a/f'' rng"
proof -
  have "CHR 0x00 \<notin> set (request_url default_config ''https://a/f'')"
    by (simp add: request_url_def default_config_def)
  moreover have "\<not> invalid_header (hc_user_agent default_config)"
    by (simp add: invalid_header_def default_config_def)
  ultimately show ?thesis
    by (simp add: request_ready_def sample_curl_def sample_impl_def list_all_iff)
      (simp add: default_config_def)
qed

lemma sample_transfer_facts:
  "list_all event_ok (tr_events sample_transfer)"
  "body_bytes (tr_events sample_transfer) = ''abc''"
  "concat (map parse_header (last_block (header_lines (tr_events sample_transfer)))) =
     [(''Content-RANGE'', ''bytes 4-6/10'')]"
proof -
  show "list_all event_ok (tr_events sample_transfer)"
    by (simp add: sample_transfer_def header_event_def crlf_def)
  show "body_bytes (tr_events sample_transfer) = ''abc''"
    by (simp add: sample_transfer_def header_event_def)
  have p: "parse_header (''Content-RANGE:  bytes 4-6/10'' @ crlf) = [(''Content-RANGE'', ''bytes 4-6/10'')]"
    using parse_header_padded [of "''Content-RANGE''" "''  ''" crlf "''bytes 4-6/10''"]
    by (simp add: header_blank_def crlf_def)
  have "last_block (header_lines (tr_events sample_transfer)) =
      [''HTTP/1.1 206 Partial Content'' @ crlf, ''Content-RANGE:  bytes 4-6/10'' @ crlf, crlf]"
    by (simp add: sample_transfer_def header_event_def starts_block_def crlf_def)
  moreover have "parse_header (''HTTP/1.1 206 Partial Content'' @ crlf) = []" "parse_header crlf = []"
    by (simp_all add: parse_header_def find_char_def crlf_def)
  ultimately show "concat (map parse_header (last_block (header_lines (tr_events sample_transfer)))) =
      [(''Content-RANGE'', ''bytes 4-6/10'')]"
    by (simp only: p [unfolded append.simps] list.map concat.simps append.simps append_Nil2)
qed

lemma sample_perform:
  "perform sample_curl (Some sample_impl) ''https://a/f'' rng =
     Inr \<lparr>hr_status = 206, hr_body = ''abc'', hr_headers = [(''Content-RANGE'', ''bytes 4-6/10'')]\<rparr>"
proof -
  let ?opts = "request_options (ci_config sample_impl) ''https://a/f'' rng"
  have tr: "ca_transfer sample_curl ?opts = sample_transfer" "tr_code sample_transfer = CURLE_OK"
    "tr_status sample_transfer = Some 206"
    by (simp_all add: sample_curl_def sample_transfer_def)
  have "to_int16 206 = 206" by (simp add: to_int16_def)
  moreover have "3 \<le> unat (hc_max_response_bytes (ci_config sample_impl))"
    by (simp add: sample_impl_def default_config_def)
  ultimately show ?thesis
    using perform_delivers [OF sample_ready tr(1) sample_transfer_facts(1) tr(2,3)]
    by (simp add: sample_transfer_facts(2,3))
qed

theorem body_within_limit_witness:
  "length ''abc'' \<le> unat (hc_max_response_bytes default_config) \<and>
   CHR 0x00 \<notin> set (request_url default_config ''https://a/f'') \<and>
   perform_run sample_curl (Some sample_impl) [CHR 0x00] None =
     (Inl (err_invalid_request ''Invalid URL, header, or timeout''), [])"
proof -
  have "perform_run sample_curl (Some sample_impl) ''https://a/f'' None =
      (Inr \<lparr>hr_status = 206, hr_body = ''abc'', hr_headers = [(''Content-RANGE'', ''bytes 4-6/10'')]\<rparr>,
       [request_options default_config ''https://a/f'' None])"
    using sample_perform [where rng = None] ready_sent [OF sample_ready [where rng = None]]
    by (intro prod_eqI) (simp_all add: perform_def sample_impl_def)
  from body_within_limit [OF this]
  have "length ''abc'' \<le> unat (hc_max_response_bytes default_config)"
    "CHR 0x00 \<notin> set (request_url default_config ''https://a/f'')"
    by (simp_all add: sample_impl_def default_config_def)
  moreover obtain result sent where r: "perform_run sample_curl (Some sample_impl) [CHR 0x00] None = (result, sent)"
    by force
  moreover have "CHR 0x00 \<in> set (request_url (ci_config sample_impl) [CHR 0x00])"
    by (simp add: request_url_def)
  ultimately show ?thesis using body_within_limit [OF r] by (simp add: sample_impl_def)
qed

theorem perform_exact_witness:
  "\<exists>r. perform sample_curl (Some sample_impl) ''https://a/f'' None = Inr r \<and> hr_body r = ''abc''"
proof -
  have tr: "tr_code sample_transfer = CURLE_OK" "tr_status sample_transfer = Some 206"
    "ca_transfer sample_curl opts = sample_transfer" for opts
    by (simp_all add: sample_curl_def sample_transfer_def)
  show ?thesis
    using perform_exact [OF sample_ready [where rng = None] tr(3) sample_transfer_facts(1) tr(1,2)]
    by (simp add: sample_transfer_facts(2) sample_impl_def default_config_def)
qed

end
