(* ===== verification/Byte_Range.thy ===== *)
theory Byte_Range
  imports Http_Client
begin

text \<open>
  \<open>HttpClient::get_range\<close> of \<open>src/http/client.cpp\<close>: the Range header it sends and the checks
  it makes on a 206 response. The offsets are 64-bit words as in the code; the specification
  is over natural numbers, and the theorems show that the two agree, so no comparison or
  subtraction of the code wraps.
\<close>

section \<open>The code\<close>

definition range_overflows :: "u64 \<Rightarrow> u64 \<Rightarrow> bool" where
  "range_overflows off len \<longleftrightarrow> 0 < len \<and> u64_max - off < len - 1"

definition range_text :: "u64 \<Rightarrow> u64 \<Rightarrow> string" where
  "range_text off len =
     to_string_u64 off @ ''-'' @ (if 0 < len then to_string_u64 (off + len - 1) else [])"

definition lower_char :: "char \<Rightarrow> char" where
  "lower_char c =
     (if 65 \<le> (of_char c :: nat) \<and> (of_char c :: nat) \<le> 90 then char_of ((of_char c :: nat) + 32) else c)"

text \<open>The loop over the headers: the last field with the name wins.\<close>

fun content_range_of :: "(string \<times> string) list \<Rightarrow> string \<Rightarrow> string" where
  "content_range_of [] found = found"
| "content_range_of ((name, value) # hs) found =
     content_range_of hs (if map lower_char name = ''content-range'' then value else found)"

definition check_total :: "u64 \<Rightarrow> u64 \<Rightarrow> u64 \<Rightarrow> u64 \<Rightarrow> string \<Rightarrow> bool" where
  "check_total off len n lst tot =
     (if tot = ''*'' \<and> (len = 0 \<or> n \<noteq> len) then False
      else if tot \<noteq> ''*'' then
        (case from_chars_u64 tot of
           Parsed sz rest \<Rightarrow>
             if rest \<noteq> [] \<or> sz \<le> lst then False
             else lst = (if len = 0 then sz - 1 else min (off + len - 1) (sz - 1))
         | _ \<Rightarrow> False)
      else True)"

definition check_content_range :: "u64 \<Rightarrow> u64 \<Rightarrow> string \<Rightarrow> string \<Rightarrow> bool" where
  "check_content_range off len content_range body =
     (if \<not> prefix ''bytes '' content_range \<or> body = [] then False
      else
        (case from_chars_u64 (drop 6 content_range) of
           Parsed first begin_rest \<Rightarrow>
             (case begin_rest of
                [] \<Rightarrow> False
              | c # rest \<Rightarrow>
                  if c \<noteq> CHR ''-'' then False
                  else
                    (case from_chars_u64 rest of
                       Parsed lst end_rest \<Rightarrow>
                         (case end_rest of
                            [] \<Rightarrow> False
                          | d # tot \<Rightarrow>
                              (let n = of_nat (length body) in
                               if d \<noteq> CHR ''/'' \<or> first \<noteq> off \<or> lst < first \<or>
                                  lst - first \<noteq> n - 1 \<or> (0 < len \<and> len < n)
                               then False
                               else check_total off len n lst tot))
                     | _ \<Rightarrow> False))
         | _ \<Rightarrow> False))"

text \<open>\<open>get_range\<close> with the requests it makes, as for \<open>perform\<close>.\<close>

definition get_range_run :: "curl_api \<Rightarrow> http_client \<Rightarrow> string \<Rightarrow> u64 \<Rightarrow> u64 \<Rightarrow>
    http_response result \<times> curl_option list list" where
  "get_range_run A client path off len =
     (if range_overflows off len then (Inl (err_invalid_request ''Byte range overflow''), [])
      else
        (case perform_run A client path (Some (range_text off len)) of
           (response, sent) \<Rightarrow>
             (case response of
                Inl e \<Rightarrow> Inl e
              | Inr r \<Rightarrow>
                  if 200 \<le> hr_status r \<and> hr_status r < 300 \<and> hr_status r \<noteq> 206
                  then Inl (err_network ''Server ignored the requested byte range'')
                  else if hr_status r = 206 \<and>
                    \<not> check_content_range off len (content_range_of (hr_headers r) []) (hr_body r)
                  then Inl (err_network ''Invalid Content-Range response'')
                  else Inr r,
              sent)))"

definition get_range :: "curl_api \<Rightarrow> http_client \<Rightarrow> string \<Rightarrow> u64 \<Rightarrow> u64 \<Rightarrow> http_response result" where
  "get_range A client path off len = fst (get_range_run A client path off len)"

lemma get_range_eq:
  "get_range A client path off len =
     (if range_overflows off len then Inl (err_invalid_request ''Byte range overflow'')
      else
        (case perform A client path (Some (range_text off len)) of
           Inl e \<Rightarrow> Inl e
         | Inr r \<Rightarrow>
             if 200 \<le> hr_status r \<and> hr_status r < 300 \<and> hr_status r \<noteq> 206
             then Inl (err_network ''Server ignored the requested byte range'')
             else if hr_status r = 206 \<and>
               \<not> check_content_range off len (content_range_of (hr_headers r) []) (hr_body r)
             then Inl (err_network ''Invalid Content-Range response'')
             else Inr r))"
  by (simp add: get_range_def get_range_run_def perform_def split: prod.split)

lemma range_overflows_iff:
  "range_overflows off len \<longleftrightarrow> 0 < unat len \<and> 2 ^ 64 \<le> unat off + unat len - 1"
  unfolding range_overflows_def by (rule range_guard_iff)

lemma perform_not_overflow: "perform A client path rng \<noteq> Inl (err_invalid_request ''Byte range overflow'')"
  by (auto simp: perform_eq error_factory_defs Let_def split: option.splits prod.splits)

section \<open>Numbers in text\<close>

definition number :: "string \<Rightarrow> bool" where
  "number a \<longleftrightarrow> a \<noteq> [] \<and> (\<forall>c \<in> set a. is_digit c)"

lemma number_dec_string [simp]: "number (dec_string n)"
  using dec_string_digits [of n] by (simp add: number_def)

lemma number_span:
  assumes "number a" and "no_digit_first rest"
  shows "takeWhile is_digit (a @ rest) = a" and "dropWhile is_digit (a @ rest) = rest"
  using takeWhile_append_stop [of a is_digit rest] assms by (cases rest; simp add: number_def)+

lemma from_chars_number:
  "number a \<Longrightarrow> no_digit_first rest \<Longrightarrow>
   from_chars_u64 (a @ rest) =
     (if dec_val a < 2 ^ 64 then Parsed (of_nat (dec_val a)) rest else Out_of_range rest)"
  by (simp add: from_chars_u64_def number_span) (simp add: number_def)

lemma from_chars_u64_ParsedD:
  assumes "from_chars_u64 s = Parsed v rest"
  obtains a where "s = a @ rest" and "number a" and "dec_val a = unat v" and "no_digit_first rest"
proof -
  have facts: "takeWhile is_digit s \<noteq> []" "dec_val (takeWhile is_digit s) < 2 ^ 64"
    "v = of_nat (dec_val (takeWhile is_digit s))" "rest = dropWhile is_digit s"
    using assms by (auto simp: from_chars_u64_def Let_def split: if_splits)
  show ?thesis
  proof (rule that [of "takeWhile is_digit s"])
    show "s = takeWhile is_digit s @ rest" using facts(4) by simp
    show "number (takeWhile is_digit s)"
      using facts(1) by (auto simp: number_def dest: set_takeWhileD)
    show "dec_val (takeWhile is_digit s) = unat v"
      unfolding facts(3) by (rule unat_of_nat_u64 [OF facts(2), symmetric])
    show "no_digit_first rest"
      by (metis facts(4) hd_dropWhile no_digit_first_def)
  qed
qed

lemma from_chars_u64_whole:
  "from_chars_u64 s = Parsed v [] \<longleftrightarrow> number s \<and> dec_val s < 2 ^ 64 \<and> v = of_nat (dec_val s)"
proof
  assume p: "from_chars_u64 s = Parsed v []"
  obtain a where "s = a @ []" "number a" "dec_val a = unat v" by (rule from_chars_u64_ParsedD [OF p])
  then show "number s \<and> dec_val s < 2 ^ 64 \<and> v = of_nat (dec_val s)"
    using unat_u64_less [of v] by simp
next
  assume "number s \<and> dec_val s < 2 ^ 64 \<and> v = of_nat (dec_val s)"
  then show "from_chars_u64 s = Parsed v []" using from_chars_number [of s "[]"] by simp
qed

section \<open>The specification\<close>

text \<open>
  What a 206 response to a request of \<open>len\<close> bytes at \<open>off\<close> (all up to the end when \<open>len\<close> is 0)
  must say: a Content-Range for exactly the bytes of the body, from the requested offset, up
  to the requested end or the end of the file; an unknown file size only with a full body.
\<close>

definition total_spec :: "nat \<Rightarrow> nat \<Rightarrow> nat \<Rightarrow> string \<Rightarrow> bool" where
  "total_spec off len n tot \<longleftrightarrow>
     (tot = ''*'' \<and> 0 < len \<and> n = len) \<or>
     (number tot \<and> dec_val tot < 2 ^ 64 \<and> off < dec_val tot \<and>
      n = (if len = 0 then dec_val tot - off else min len (dec_val tot - off)))"

definition content_range_spec :: "nat \<Rightarrow> nat \<Rightarrow> string \<Rightarrow> nat \<Rightarrow> bool" where
  "content_range_spec off len content_range n \<longleftrightarrow>
     0 < n \<and>
     (\<exists>a b tot. content_range = ''bytes '' @ a @ ''-'' @ b @ ''/'' @ tot \<and>
        number a \<and> number b \<and> dec_val a = off \<and> dec_val b = off + n - 1 \<and>
        total_spec off len n tot)"

lemma star_not_number: "\<not> number ''*''"
  by (simp add: number_def is_digit_def)

lemma check_total_iff:
  fixes off len lst :: u64
  assumes "\<not> range_overflows off len" and "0 < n" and "n < 2 ^ 64"
    and "unat lst = unat off + n - 1" and "0 < unat len \<longrightarrow> n \<le> unat len"
  shows "check_total off len (of_nat n) lst tot \<longleftrightarrow> total_spec (unat off) (unat len) n tot"
proof (cases "tot = ''*''")
  case True
  have "unat (of_nat n :: u64) = n" using assms(3) by (rule unat_of_nat_u64)
  then have "(of_nat n :: u64) = len \<longleftrightarrow> n = unat len" by (metis of_nat_unat_u64)
  then show ?thesis
    using True by (auto simp: check_total_def total_spec_def star_not_number unat_gt_0)
next
  case False
  have "check_total off len (of_nat n) lst tot \<longleftrightarrow>
      (\<exists>sz. from_chars_u64 tot = Parsed sz [] \<and> lst < sz \<and>
        lst = (if len = 0 then sz - 1 else min (off + len - 1) (sz - 1)))"
    unfolding check_total_def using False
    by (cases "from_chars_u64 tot") (simp_all only: from_chars.simps not_le [symmetric] simp_thms if_False if_True split: if_split, blast+)
  also have "\<dots> \<longleftrightarrow> (\<exists>sz. from_chars_u64 tot = Parsed sz [] \<and> unat off + n \<le> unat sz \<and>
      n = (if unat len = 0 then unat sz - unat off else min (unat len) (unat sz - unat off)))"
  proof -
    have "(lst < sz \<and> lst = (if len = 0 then sz - 1 else min (off + len - 1) (sz - 1))) \<longleftrightarrow>
        (unat off + n \<le> unat sz \<and>
         n = (if unat len = 0 then unat sz - unat off else min (unat len) (unat sz - unat off)))"
      for sz :: u64
    proof (cases "sz = 0")
      case True
      then show ?thesis using assms(2) by auto
    next
      case sz: False
      then have s1: "unat (sz - 1) = unat sz - 1" "0 < unat sz"
        by (simp_all add: unat_minus_one unat_gt_0)
      have less: "lst < sz \<longleftrightarrow> unat off + n \<le> unat sz"
        using assms(2,4) by (auto simp: word_less_nat_alt)
      show ?thesis
      proof (cases "len = 0")
        case True
        have "lst = sz - 1 \<longleftrightarrow> unat lst = unat sz - 1" by (metis s1(1) word_unat_eq_iff)
        then show ?thesis using True less assms(2,4) s1(2) by auto
      next
        case False
        then have l: "0 < unat len" by (simp add: unat_gt_0)
        have guard: "unat off + unat len - 1 < 2 ^ 64"
          using assms(1) l by (simp add: range_overflows_iff)
        have e: "unat (off + len - 1) = unat off + unat len - 1"
          using l guard by (rule unat_last_byte)
        have "unat (min (off + len - 1) (sz - 1)) = min (unat off + unat len - 1) (unat sz - 1)"
          using e s1(1) by (auto simp: min_def word_le_nat_alt)
        then have "lst = min (off + len - 1) (sz - 1) \<longleftrightarrow>
            unat off + n - 1 = min (unat off + unat len - 1) (unat sz - 1)"
          by (metis assms(4) word_unat_eq_iff)
        then show ?thesis using False less l assms(2) s1(2) by auto
      qed
    qed
    then show ?thesis by blast
  qed
  also have "\<dots> \<longleftrightarrow> total_spec (unat off) (unat len) n tot"
    using assms(2) False by (auto simp: from_chars_u64_whole total_spec_def unat_of_nat_u64)
  finally show ?thesis .
qed

lemma total_spec_bounds:
  assumes "total_spec (unat off) (unat len) n tot" and "\<not> range_overflows off len" and "0 < n"
  shows "unat off + n - 1 < 2 ^ 64" and "0 < unat len \<longrightarrow> n \<le> unat len"
  using assms by (auto simp: total_spec_def range_overflows_iff split: if_splits)

text \<open>The two facts about the words of the parsed header.\<close>

lemma last_minus_first:
  fixes off lst :: u64
  assumes "0 < n" and "n < 2 ^ 64"
  shows "(off \<le> lst \<and> lst - off = of_nat n - 1) \<longleftrightarrow> unat lst = unat off + n - 1"
proof -
  have n: "unat (of_nat n :: u64) = n" using assms(2) by (rule unat_of_nat_u64)
  then have n1: "unat (of_nat n - 1 :: u64) = n - 1"
    using assms(1) by (subst unat_minus_one) auto
  have eq: "lst - off = of_nat n - 1 \<longleftrightarrow> unat (lst - off) = n - 1" by (metis n1 word_unat_eq_iff)
  show ?thesis
  proof (cases "off \<le> lst")
    case True
    then have "unat (lst - off) = unat lst - unat off" "unat off \<le> unat lst"
      by (simp_all add: unat_sub_le word_le_nat_alt)
    then show ?thesis using True assms(1) unfolding eq by arith
  next
    case False
    then show ?thesis using assms(1) by (simp add: word_le_nat_alt)
  qed
qed

lemma check_content_rangeD:
  assumes "check_content_range off len (''bytes '' @ s) body"
  obtains first rest lst tot where "from_chars_u64 s = Parsed first (CHR ''-'' # rest)"
    and "from_chars_u64 rest = Parsed lst (CHR ''/'' # tot)" and "first = off" and "off \<le> lst"
    and "lst - off = of_nat (length body) - 1" and "\<not> (0 < len \<and> len < of_nat (length body))"
    and "check_total off len (of_nat (length body)) lst tot"
proof -
  obtain first br where p1: "from_chars_u64 s = Parsed first br"
    using assms by (cases "from_chars_u64 s") (auto simp: check_content_range_def split: if_splits)
  obtain rest where br: "br = CHR ''-'' # rest"
    using assms p1
    by (cases br) (auto simp: check_content_range_def split: if_splits)
  obtain lst er where p2: "from_chars_u64 rest = Parsed lst er"
    using assms p1 br
    by (cases "from_chars_u64 rest") (auto simp: check_content_range_def split: if_splits)
  obtain d tot where er: "er = d # tot"
    using assms p1 br p2
    by (cases er) (auto simp: check_content_range_def split: if_splits)
  have nd: "\<not> (d \<noteq> CHR ''/'' \<or> first \<noteq> off \<or> lst < first \<or> lst - first \<noteq> of_nat (length body) - 1 \<or>
      (0 < len \<and> len < of_nat (length body)))"
    and tot: "check_total off len (of_nat (length body)) lst tot"
    using assms p1 br p2 er
    by (auto simp: check_content_range_def Let_def split: if_splits)
  have "first = off" using nd by blast
  moreover from nd this have "d = CHR ''/''" "off \<le> lst" "lst - off = of_nat (length body) - 1"
    "\<not> (0 < len \<and> len < of_nat (length body))"
    by (auto simp only: not_less)
  ultimately show ?thesis using that [of first rest lst tot] p1 p2 br er tot by blast
qed

lemma check_content_range_iff:
  assumes guard: "\<not> range_overflows off len" and body: "length body < 2 ^ 64"
  shows "check_content_range off len cr body \<longleftrightarrow>
    content_range_spec (unat off) (unat len) cr (length body)"
proof
  let ?n = "length body"
  assume c: "check_content_range off len cr body"
  then obtain s where s: "cr = ''bytes '' @ s" and ne: "0 < ?n"
    by (auto simp: check_content_range_def prefix_def split: if_splits)
  have len_n: "0 < len \<and> len < of_nat ?n \<longleftrightarrow> 0 < unat len \<and> unat len < ?n"
    using unat_of_nat_u64 [OF body] by (simp add: word_less_nat_alt)
  obtain first rest lst tot where p: "from_chars_u64 s = Parsed first (CHR ''-'' # rest)"
    "from_chars_u64 rest = Parsed lst (CHR ''/'' # tot)" "first = off" "off \<le> lst"
    "lst - off = of_nat ?n - 1" "\<not> (0 < len \<and> len < of_nat ?n)"
    "check_total off len (of_nat ?n) lst tot"
    using check_content_rangeD [OF c [unfolded s]] by metis
  have last: "unat lst = unat off + ?n - 1" using last_minus_first [OF ne body] p(4,5) by blast
  have "total_spec (unat off) (unat len) ?n tot"
    using check_total_iff [OF guard ne body last] p(6,7) len_n by auto
  moreover obtain a where "s = a @ CHR ''-'' # rest" "number a" "dec_val a = unat off"
    using from_chars_u64_ParsedD [OF p(1)] p(3) by metis
  moreover obtain b where "rest = b @ CHR ''/'' # tot" "number b" "dec_val b = unat lst"
    using from_chars_u64_ParsedD [OF p(2)] by metis
  ultimately show "content_range_spec (unat off) (unat len) cr ?n"
    unfolding content_range_spec_def using s ne last
    by (intro conjI exI [of _ a] exI [of _ b] exI [of _ tot]) simp_all
next
  let ?n = "length body"
  assume "content_range_spec (unat off) (unat len) cr ?n"
  then obtain a b tot where ne: "0 < ?n" and cr: "cr = ''bytes '' @ a @ ''-'' @ b @ ''/'' @ tot"
    and ab: "number a" "number b" "dec_val a = unat off" "dec_val b = unat off + ?n - 1"
    and tot: "total_spec (unat off) (unat len) ?n tot"
    unfolding content_range_spec_def by blast
  note bounds = total_spec_bounds [OF tot guard ne]
  define lst :: u64 where "lst = of_nat (unat off + ?n - 1)"
  have last: "unat lst = unat off + ?n - 1" unfolding lst_def using bounds(1) by (rule unat_of_nat_u64)
  have "from_chars_u64 (a @ CHR ''-'' # b @ CHR ''/'' # tot) = Parsed off (CHR ''-'' # b @ CHR ''/'' # tot)"
    using from_chars_number [of a "CHR ''-'' # b @ CHR ''/'' # tot"] ab(1,3) unat_u64_less [of off]
    by (simp add: is_digit_def)
  moreover have "from_chars_u64 (b @ CHR ''/'' # tot) = Parsed lst (CHR ''/'' # tot)"
    using from_chars_number [of b "CHR ''/'' # tot"] ab(2,4) bounds(1)
    by (simp add: is_digit_def lst_def)
  moreover have "off \<le> lst" "lst - off = of_nat ?n - 1"
    using last_minus_first [OF ne body] last by blast+
  moreover have "\<not> (0 < len \<and> len < of_nat ?n)"
    using bounds(2) unat_of_nat_u64 [OF body] by (auto simp: word_less_nat_alt)
  moreover have "check_total off len (of_nat ?n) lst tot"
    by (rule iffD2 [OF check_total_iff [OF guard ne body last bounds(2)] tot])
  ultimately show "check_content_range off len cr body"
    using ne by (auto simp: check_content_range_def cr Let_def)
qed

section \<open>Properties\<close>

lemma range_text_value:
  assumes "\<not> range_overflows off len"
  shows "range_text off len =
    dec_string (unat off) @ ''-'' @ (if len = 0 then [] else dec_string (unat off + unat len - 1))"
proof (cases "len = 0")
  case True
  then show ?thesis by (simp add: range_text_def to_string_u64_def)
next
  case False
  then have "0 < unat len" by (simp add: unat_gt_0)
  then have "unat (off + len - 1) = unat off + unat len - 1"
    using assms by (intro unat_last_byte) (simp_all add: range_overflows_iff)
  then show ?thesis using False by (simp add: range_text_def to_string_u64_def word_gt_0)
qed

text \<open>
  C4: \<open>get_range\<close> accepts exactly the responses that answer the request. It returns a response
  iff the range does not overflow, the transfer with the Range text gave that response, it is
  not a success other than 206, and, when it is a 206, the Content-Range names exactly the
  bytes of the body, from the requested offset up to the requested end or the file's end.
\<close>

theorem get_range_iff:
  assumes "\<And>r. perform A client path (Some (range_text off len)) = Inr r \<Longrightarrow> length (hr_body r) < 2 ^ 64"
  shows "get_range A client path off len = Inr r \<longleftrightarrow>
    \<not> range_overflows off len \<and>
    perform A client path (Some (range_text off len)) = Inr r \<and>
    (200 \<le> hr_status r \<and> hr_status r < 300 \<longrightarrow>
       hr_status r = 206 \<and>
       content_range_spec (unat off) (unat len) (content_range_of (hr_headers r) [])
         (length (hr_body r)))"
proof (cases "perform A client path (Some (range_text off len))")
  case (Inl e)
  then show ?thesis by (simp add: get_range_eq)
next
  case (Inr q)
  then have "length (hr_body q) < 2 ^ 64" by (rule assms)
  then show ?thesis
    using Inr check_content_range_iff [of off len "hr_body q" "content_range_of (hr_headers q) []"]
    by (auto simp: get_range_eq)
qed

text \<open>The Range text in natural numbers: the first byte and, of a bounded range, the last.\<close>

definition range_spec :: "nat \<Rightarrow> nat \<Rightarrow> string" where
  "range_spec off n = dec_string off @ ''-'' @ (if n = 0 then [] else dec_string (off + n - 1))"

text \<open>
  C33: the overflow check is exact and comes first. A request is refused as an overflow iff its
  last byte does not fit in 64 bits, and then nothing is sent. Otherwise what is sent is the request
  of \<open>perform\<close> with a Range text that names the first and the last byte without wrapping; its error
  is passed on, and so is a response that is not a success, which says nothing about ranges.
\<close>

theorem range_request_exact:
  "(get_range A client path off len = Inl (err_invalid_request ''Byte range overflow'') \<longleftrightarrow>
      0 < unat len \<and> 2 ^ 64 \<le> unat off + unat len - 1) \<and>
    (if 0 < unat len \<and> 2 ^ 64 \<le> unat off + unat len - 1
     then snd (get_range_run A client path off len) = []
     else
       range_text off len = range_spec (unat off) (unat len) \<and>
       snd (get_range_run A client path off len) = snd (perform_run A client path (Some (range_spec (unat off) (unat len)))) \<and>
       (case perform A client path (Some (range_spec (unat off) (unat len))) of
          Inl e \<Rightarrow> get_range A client path off len = Inl e
        | Inr r \<Rightarrow> hr_status r < 200 \<or> 300 \<le> hr_status r \<longrightarrow> get_range A client path off len = Inr r))"
proof (cases "range_overflows off len")
  case True
  then show ?thesis by (simp add: get_range_def get_range_run_def range_overflows_iff)
next
  case False
  have t: "range_text off len = range_spec (unat off) (unat len)"
    using range_text_value [OF False] by (simp add: range_spec_def unat_eq_0)
  have run: "snd (get_range_run A client path off len) = snd (perform_run A client path (Some (range_spec (unat off) (unat len))))"
    using False t by (simp add: get_range_run_def split: prod.split)
  have "get_range A client path off len \<noteq> Inl (err_invalid_request ''Byte range overflow'')"
    using False perform_not_overflow [of A client path] by (auto simp: get_range_eq error_factory_defs split: sum.splits)
  moreover have "case perform A client path (Some (range_spec (unat off) (unat len))) of
      Inl e \<Rightarrow> get_range A client path off len = Inl e
    | Inr r \<Rightarrow> hr_status r < 200 \<or> 300 \<le> hr_status r \<longrightarrow> get_range A client path off len = Inr r"
    using False t by (auto simp: get_range_eq split: sum.split)
  ultimately show ?thesis
    using False t run by (simp only: range_overflows_iff if_False simp_thms)
qed

text \<open>
  A server that honours the protocol is never refused: for a file of \<open>sz\<close> bytes and an offset
  inside it, the Content-Range of a body of that many bytes passes the check.
\<close>

lemma honest_accepted:
  assumes "\<not> range_overflows off len" and "unat off < sz" and "sz < 2 ^ 64"
    and "number a" and "number b" and "number tot" and "dec_val a = unat off"
    and "dec_val b = unat off + length body - 1" and "dec_val tot = sz"
    and "length body = (if len = 0 then sz - unat off else min (unat len) (sz - unat off))"
  shows "check_content_range off len (''bytes '' @ a @ ''-'' @ b @ ''/'' @ tot) body"
proof -
  have "total_spec (unat off) (unat len) (length body) tot"
  proof (cases "len = 0")
    case False
    then have "0 < unat len" by (simp add: unat_gt_0)
    then show ?thesis using False assms by (simp add: total_spec_def)
  qed (use assms in \<open>simp add: total_spec_def\<close>)
  moreover have "0 < length body"
  proof (cases "len = 0")
    case False
    then have "0 < unat len" by (simp add: unat_gt_0)
    then show ?thesis using False assms(2,10) by simp
  qed (use assms(2,10) in simp)
  moreover have "length body < 2 ^ 64" using assms(3,10) by (auto split: if_splits)
  ultimately show ?thesis
    unfolding check_content_range_iff [OF assms(1) \<open>length body < 2 ^ 64\<close>] content_range_spec_def
    using assms(4,5,7,8) by blast
qed

theorem get_range_iff_witness:
  "get_range sample_curl (Some sample_impl) ''https://a/f'' 4 3 =
     Inr \<lparr>hr_status = 206, hr_body = ''abc'', hr_headers = [(''Content-RANGE'', ''bytes 4-6/10'')]\<rparr>"
proof -
  have "\<not> range_overflows 4 3" by (simp add: range_overflows_iff)
  moreover have "content_range_of [(''Content-RANGE'', ''bytes 4-6/10'')] [] = ''bytes 4-6/10''"
    by code_simp
  moreover have "content_range_spec 4 3 ''bytes 4-6/10'' (length ''abc'')"
    unfolding content_range_spec_def total_spec_def
    by (intro conjI exI [of _ "''4''"] exI [of _ "''6''"] exI [of _ "''10''"] disjI2)
      (simp_all add: number_def is_digit_def dec_val_def digit_val_def)
  ultimately show ?thesis
    using get_range_iff [of sample_curl "Some sample_impl" "''https://a/f''" 4 3]
    by (simp add: sample_perform del: content_range_of.simps)
qed

theorem range_request_exact_witness:
  "get_range_run sample_curl (Some sample_impl) ''https://a/f'' (- 1) 2 =
     (Inl (err_invalid_request ''Byte range overflow''), []) \<and>
   get_range sample_curl (Some sample_impl) ''https://a/f'' (- 1) 1 \<noteq>
     Inl (err_invalid_request ''Byte range overflow'')"
  using range_request_exact [where off = "- 1" and len = 2 and A = sample_curl and
      client = "Some sample_impl" and path = "''https://a/f''"]
    range_request_exact [where off = "- 1" and len = 1 and A = sample_curl and
      client = "Some sample_impl" and path = "''https://a/f''"]
  by (simp add: unat_u64_max prod_eq_iff get_range_def)

end
