(* ===== verification/Retry.thy ===== *)
theory Retry
  imports Byte_Range Binary64
begin

text \<open>
  \<open>include/grib/retry.hpp\<close> and \<open>src/core/retry.cpp\<close>: what is retried, how long to wait, and
  the retry loop with its 8-bit attempt counter. The delays are computed in \<open>double\<close> as the
  code does, with the random draw as a parameter; times are integers of milliseconds. The
  operation is a function on a state of the world, so successive calls can differ.
\<close>

section \<open>The policy\<close>

record retry_policy =
  rp_initial_delay :: int
  rp_max_delay :: int
  rp_backoff_multiplier :: double
  rp_jitter_factor :: double
  rp_max_attempts :: u8
  rp_retry_on_network_error :: bool
  rp_retry_on_rate_limit :: bool
  rp_retry_on_server_error :: bool

definition default_policy :: retry_policy where
  "default_policy =
     \<lparr>rp_initial_delay = 500, rp_max_delay = 30000, rp_backoff_multiplier = Fin 2,
      rp_jitter_factor = round64 (1 / 10), rp_max_attempts = 3,
      rp_retry_on_network_error = True, rp_retry_on_rate_limit = True,
      rp_retry_on_server_error = True\<rparr>"

definition should_retry_response :: "http_response \<Rightarrow> retry_policy \<Rightarrow> bool" where
  "should_retry_response r p =
     (if rp_retry_on_rate_limit p \<and> hr_status r = 429 then True
      else if rp_retry_on_server_error p \<and> 500 \<le> hr_status r \<and> hr_status r < 600 then True
      else False)"

definition should_retry_error :: "error \<Rightarrow> retry_policy \<Rightarrow> bool" where
  "should_retry_error e p =
     (if rp_retry_on_network_error p \<and> err_code e = NetworkError then True
      else if rp_retry_on_network_error p \<and> err_code e = Timeout then True
      else if rp_retry_on_rate_limit p \<and> err_code e = RateLimited then True
      else if rp_retry_on_server_error p \<and> err_code e = ServerError then True
      else False)"

section \<open>The delay\<close>

text \<open>\<open>for (std::uint8_t i = 1; i < attempt; ++i) delay = std::min(delay * multiplier, max)\<close>.\<close>

function backoff_loop :: "u8 \<Rightarrow> u8 \<Rightarrow> double \<Rightarrow> double \<Rightarrow> double \<Rightarrow> double" where
  "backoff_loop i attempt delay_ms multiplier max_ms =
     (if i < attempt
      then backoff_loop (i + 1) attempt (std_min (delay_ms * multiplier) max_ms) multiplier max_ms
      else delay_ms)"
  by pat_completeness auto
termination
proof (relation "measure (\<lambda>(i, attempt, _). unat attempt - unat i)", goal_cases)
  case 1
  show ?case by simp
next
  case (2 i attempt delay_ms multiplier max_ms)
  then have "unat (i + 1) = Suc (unat i)" by (simp add: unat_succ)
  then show ?case using 2 by (simp add: word_less_nat_alt)
qed

declare backoff_loop.simps [simp del]

text \<open>\<open>jitter lo hi\<close> is the number drawn from \<open>uniform_real_distribution(lo, hi)\<close>.\<close>

definition calculate_retry_delay :: "(double \<Rightarrow> double \<Rightarrow> double) \<Rightarrow> u8 \<Rightarrow> retry_policy \<Rightarrow> int" where
  "calculate_retry_delay jitter attempt p =
     (let maximum = std_max (rp_max_delay p) 0;
          max_ms = of_int64 maximum;
          start_ms = of_int64 (std_clamp (rp_initial_delay p) 0 maximum);
          multiplier = (if is_finite (rp_backoff_multiplier p)
                        then std_max (rp_backoff_multiplier p) (Fin 0) else Fin 1);
          delay_ms = backoff_loop 1 attempt start_ms multiplier max_ms;
          spread = (if is_finite (rp_jitter_factor p)
                    then std_clamp (rp_jitter_factor p) (Fin 0) (Fin 1) else Fin 0);
          jittered = (if Fin 0 < spread
                      then delay_ms * jitter (Fin 1 - spread) (Fin 1 + spread) else delay_ms)
      in if \<not> is_finite jittered \<or> max_ms \<le> jittered then maximum
         else trunc_rat (num jittered))"

section \<open>The loop\<close>

text \<open>
  The result carries the state of the world after the last call and the delays slept, in
  order. \<open>jit i\<close> is the random draw made after attempt \<open>i\<close>.
\<close>

definition retryable :: "retry_policy \<Rightarrow> http_response result \<Rightarrow> bool" where
  "retryable p result =
     (case result of Inr r \<Rightarrow> should_retry_response r p | Inl e \<Rightarrow> should_retry_error e p)"

function retry_loop :: "('s \<Rightarrow> http_response result \<times> 's) \<Rightarrow> (u8 \<Rightarrow> double \<Rightarrow> double \<Rightarrow> double) \<Rightarrow>
    retry_policy \<Rightarrow> u8 \<Rightarrow> 's \<Rightarrow> int list \<Rightarrow> http_response result \<times> 's \<times> int list" where
  "retry_loop oper jit p attempt s slept =
     (if attempt \<le> rp_max_attempts p
      then
        (case oper s of
           (result, s') \<Rightarrow>
             if retryable p result \<and> attempt < rp_max_attempts p
             then retry_loop oper jit p (attempt + 1) s'
                    (slept @ [calculate_retry_delay (jit attempt) attempt p])
             else (result, s', slept))
      else (Inl (err_network ''Max retry attempts exceeded''), s, slept))"
  by pat_completeness auto
termination
proof (relation "measure (\<lambda>(oper, jit, p, attempt, _). unat (rp_max_attempts p) - unat attempt)", goal_cases)
  case 1
  show ?case by simp
next
  case (2 oper jit p attempt s slept r)
  then have "attempt < rp_max_attempts p" by simp
  then show ?case using unat_succ [of attempt "rp_max_attempts p"] by (simp add: word_less_nat_alt)
qed

declare retry_loop.simps [simp del]

definition with_retry :: "('s \<Rightarrow> http_response result \<times> 's) \<Rightarrow> (u8 \<Rightarrow> double \<Rightarrow> double \<Rightarrow> double) \<Rightarrow>
    retry_policy \<Rightarrow> 's \<Rightarrow> http_response result \<times> 's \<times> int list" where
  "with_retry oper jit p s = retry_loop oper jit p 1 s []"

section \<open>Bounds on the delay\<close>

definition good_delay :: "double \<Rightarrow> bool" where
  "good_delay d \<longleftrightarrow> is_finite d \<and> 0 \<le> num d \<and> is_double d"

lemma good_delay_cases:
  assumes "good_delay d"
  obtains (fin) x where "d = Fin x" and "0 \<le> x" and "representable x" | (zero) "d = Neg_zero"
  using assms by (cases d) (auto simp: good_delay_def)

lemma representable_int64_max: "representable (2 ^ 63)"
proof (rule representable_grid)
  show "(2 :: rat) ^ 63 = of_int 1 * 2 powi 63" by simp
  have "(2 :: rat) ^ 63 < 2 ^ 1024" by (rule power_strict_increasing) simp_all
  then show "\<bar>(2 :: rat) ^ 63\<bar> < max_exp" by simp
qed simp_all

lemma good_of_int64:
  assumes "0 \<le> i" and "i \<le> int64_max"
  shows "good_delay (of_int64 i)"
proof -
  have "(of_int i :: rat) \<le> of_int (2 ^ 63)" using assms(2) by (simp only: of_int_le_iff)
  then have "(of_int i :: rat) \<le> 2 ^ 63" by simp
  then show ?thesis
    using round64_upto [of "of_int i" "2 ^ 63"] assms(1) representable_int64_max
    by (simp add: good_delay_def of_int64_def)
qed

lemma round64_nonneg: "0 \<le> q \<Longrightarrow> round64 q = Pos_inf \<or> good_delay (round64 q)"
  using round_pos_nonneg [of q] round64_is_double [of q]
  by (auto simp: round64_def good_delay_def Let_def abs_if split: if_splits)

lemma good_times:
  assumes "good_delay d" and "good_delay m"
  shows "d * m = Pos_inf \<or> good_delay (d * m)"
proof -
  have fin: "is_finite d" "is_finite m" "0 \<le> num d * num m" "d \<noteq> NaN" "m \<noteq> NaN"
    using assms by (auto simp: good_delay_def)
  show ?thesis
    using fin round64_nonneg [OF fin(3)] 
    by (auto simp: times_double_def good_delay_def representable_def)
qed

lemma good_min:
  assumes "a = Pos_inf \<or> good_delay a" and "good_delay b"
  shows "good_delay (std_min a b)"
  using assms by (auto simp: std_min_def good_delay_def elim: is_finite.elims)

lemma good_backoff:
  assumes "good_delay d" and "good_delay m" and "good_delay max_ms"
  shows "good_delay (backoff_loop i attempt d m max_ms)"
  using assms
proof (induction i attempt d m max_ms rule: backoff_loop.induct)
  case (1 i attempt d m max_ms)
  then show ?case
    using good_min [OF good_times [OF "1.prems"(1,2)] "1.prems"(3)]
    by (subst backoff_loop.simps) simp
qed

lemma good_jitter:
  assumes "good_delay d" and "\<not> j < Fin 0" and "is_double j" and "is_finite (d * j)"
  shows "good_delay (d * j)"
proof (cases "is_finite j")
  case True
  then have "good_delay j" using assms(2,3) by (cases j) (auto simp: good_delay_def)
  then show ?thesis using good_times [OF assms(1)] assms(4) by force
next
  case False
  then show ?thesis
    using assms by (cases j) (auto simp: times_double_def good_delay_def split: if_splits)
qed

definition policy_ok :: "retry_policy \<Rightarrow> bool" where
  "policy_ok p \<longleftrightarrow>
     rp_max_delay p \<le> int64_max \<and> rp_initial_delay p \<le> int64_max \<and>
     is_double (rp_backoff_multiplier p)"

definition jitter_ok :: "(double \<Rightarrow> double \<Rightarrow> double) \<Rightarrow> bool" where
  "jitter_ok jitter \<longleftrightarrow> (\<forall>lo hi. \<not> jitter lo hi < Fin 0 \<and> is_double (jitter lo hi))"

lemma delay_within:
  assumes "policy_ok p" and "jitter_ok jitter"
  shows "0 \<le> calculate_retry_delay jitter attempt p"
    and "calculate_retry_delay jitter attempt p \<le> max (rp_max_delay p) 0"
proof -
  define maximum where "maximum = std_max (rp_max_delay p) 0"
  define max_ms where "max_ms = of_int64 maximum"
  define mult where "mult = (if is_finite (rp_backoff_multiplier p)
      then std_max (rp_backoff_multiplier p) (Fin 0) else Fin 1)"
  define d where "d = backoff_loop 1 attempt
      (of_int64 (std_clamp (rp_initial_delay p) 0 maximum)) mult max_ms"
  define spread where "spread = (if is_finite (rp_jitter_factor p)
      then std_clamp (rp_jitter_factor p) (Fin 0) (Fin 1) else Fin 0)"
  define j where "j = (if Fin 0 < spread then d * jitter (Fin 1 - spread) (Fin 1 + spread) else d)"
  have delay: "calculate_retry_delay jitter attempt p =
      (if \<not> is_finite j \<or> max_ms \<le> j then maximum else trunc_rat (num j))"
    by (simp only: calculate_retry_delay_def Let_def maximum_def max_ms_def mult_def d_def spread_def j_def)
  have max: "0 \<le> maximum" "maximum \<le> int64_max"
    using assms(1) by (auto simp: maximum_def policy_ok_def)
  have "std_clamp (rp_initial_delay p) 0 maximum = max 0 (min (rp_initial_delay p) maximum)"
    using max(1) by (simp add: std_clamp_linorder)
  then have start: "good_delay (of_int64 (std_clamp (rp_initial_delay p) 0 maximum))"
    using max by (intro good_of_int64) auto
  have "good_delay mult"
    using assms(1) representable_of_int [of 1]
    by (cases "rp_backoff_multiplier p")
      (auto simp: mult_def good_delay_def policy_ok_def std_max_def representable_def)
  then have gd: "good_delay d"
    using start good_of_int64 [OF max] by (simp add: d_def max_ms_def good_backoff)
  then have gj: "good_delay j" if "is_finite j"
    using that assms(2) good_jitter [OF gd] by (auto simp: j_def jitter_ok_def)
  have "0 \<le> trunc_rat (num j) \<and> trunc_rat (num j) \<le> maximum" if "is_finite j" "\<not> max_ms \<le> j"
  proof -
    have g: "0 \<le> num j" "is_double j" using gj [OF that(1)] by (auto simp: good_delay_def)
    have "j < max_ms"
      using that good_of_int64 [OF max] by (cases j) (auto simp: less_eq_double_def max_ms_def good_delay_def)
    then have "Fin (num j) < max_ms" using that(1) by (cases j) (auto elim: less_double.elims)
    moreover have "representable (num j)" using g(2) that(1) by (cases j) (auto simp: representable_def)
    ultimately have "num j \<le> of_int maximum"
      using less_round64 [of "num j" "of_int maximum"] g(1) max(1) by (simp add: max_ms_def of_int64_def)
    then show ?thesis using g(1) by (simp add: trunc_rat_def floor_le_iff)
  qed
  then show "0 \<le> calculate_retry_delay jitter attempt p"
    and "calculate_retry_delay jitter attempt p \<le> max (rp_max_delay p) 0"
    using max(1) by (auto simp: delay maximum_def)
qed

section \<open>The exact delay of a policy with integer parameters\<close>

lemma Fin_times_exact:
  assumes "0 \<le> v" and "0 \<le> m" and "v * m < 2 ^ 53"
  shows "Fin (of_int v) * Fin (of_int m) = Fin (of_int (v * m))"
  using assms round64_representable [OF representable_of_int, of "v * m"]
  by (auto simp: times_double_def)

lemma std_min_Fin: "std_min (Fin (of_int a)) (Fin (of_int b)) = Fin (of_int (min a b))"
  by (auto simp: std_min_def)

lemma backoff_exact:
  assumes "0 \<le> v" and "v \<le> c" and "1 \<le> m" and "c * m < 2 ^ 53"
  shows "backoff_loop i attempt (Fin (of_int v)) (Fin (of_int m)) (Fin (of_int c)) =
    Fin (of_int (min (v * m ^ (unat attempt - unat i)) c))"
  using assms(1,2)
proof (induction "unat attempt - unat i" arbitrary: i v)
  case 0
  then have "\<not> i < attempt" by (simp add: word_less_nat_alt)
  then show ?case using 0 by (subst backoff_loop.simps) simp
next
  case (Suc k)
  then have i: "i < attempt" by (simp add: word_less_nat_alt)
  have next_i: "unat (i + 1) = Suc (unat i)" using unat_succ [OF i] .
  then have k: "k = unat attempt - unat (i + 1)" using Suc(2) by simp
  have "v * m \<le> c * m" using Suc.prems assms(3) by (intro mult_right_mono) auto
  then have "v * m < 2 ^ 53" using assms(4) by linarith
  then have "Fin (of_int v) * Fin (of_int m) = Fin (of_int (v * m))"
    using Suc.prems assms(3) by (intro Fin_times_exact) auto
  then have step: "std_min (Fin (of_int v) * Fin (of_int m)) (Fin (of_int c)) = Fin (of_int (min (v * m) c))"
    by (simp only: std_min_Fin)
  have "0 \<le> min (v * m) c" using Suc.prems assms(3) by simp
  then have IH: "backoff_loop (i + 1) attempt (Fin (of_int (min (v * m) c))) (Fin (of_int m)) (Fin (of_int c)) =
      Fin (of_int (min (min (v * m) c * m ^ k) c))"
    using Suc.hyps(1) [OF k, of "min (v * m) c"] k by simp
  have "min (min (v * m) c * m ^ k) c = min (v * m ^ Suc k) c"
  proof (cases "v * m \<le> c")
    case True
    then show ?thesis by (simp add: min_def mult.assoc)
  next
    case False
    have "1 \<le> m ^ k" using assms(3) by simp
    then have "c * 1 \<le> c * m ^ k" and "c * m ^ k \<le> v * m * m ^ k"
      using False Suc.prems by (intro mult_left_mono mult_right_mono; simp)+
    then show ?thesis using False by (simp add: mult.assoc)
  qed
  then show ?case
    using i Suc.hyps(2) by (subst backoff_loop.simps) (simp add: step IH)
qed

lemma delay_exact:
  assumes "0 \<le> rp_initial_delay p" and "0 \<le> rp_max_delay p" and "1 \<le> m"
    and "rp_max_delay p * m < 2 ^ 53" and "rp_backoff_multiplier p = Fin (of_int m)"
    and "rp_jitter_factor p = Fin 0"
  shows "calculate_retry_delay jitter attempt p =
    min (rp_initial_delay p * m ^ (unat attempt - 1)) (rp_max_delay p)"
proof -
  let ?c = "rp_max_delay p"
  define v where "v = min (rp_initial_delay p) ?c"
  have "?c * 1 \<le> ?c * m" using assms(2,3) by (intro mult_left_mono) auto
  then have c: "?c < 2 ^ 53" using assms(4) by simp
  have v: "0 \<le> v" "v \<le> ?c" using assms(1,2) by (auto simp: v_def)
  have ints: "of_int64 v = Fin (of_int v)" "of_int64 ?c = Fin (of_int ?c)"
    using v c assms(2) by (auto intro!: of_int64_exact)
  have clamp: "std_clamp (rp_initial_delay p) 0 ?c = v"
    using assms(1,2) by (simp add: v_def)
  have mult: "std_max (Fin (of_int m)) (Fin 0) = Fin (of_int m)"
    using assms(3) by (simp add: std_max_def)
  have no_spread: "std_clamp (Fin 0) (Fin 0) (Fin 1) = Fin 0" by (simp add: std_clamp_def)
  define w where "w = min (v * m ^ (unat attempt - unat (1 :: u8))) ?c"
  have "calculate_retry_delay jitter attempt p =
      (if Fin (of_int ?c) \<le> Fin (of_int w) then ?c else trunc_rat (of_int w))"
    using assms(2) backoff_exact [OF v assms(3,4), of 1 attempt, folded w_def]
    by (simp add: calculate_retry_delay_def Let_def clamp ints assms(5,6) mult no_spread max_absorb1)
  also have "\<dots> = w"
  proof -
    have "w \<le> ?c" by (simp add: w_def)
    then show ?thesis by (auto simp: less_eq_double_def trunc_rat_def)
  qed
  also have "w = min (rp_initial_delay p * m ^ (unat attempt - 1)) ?c"
  proof (cases "rp_initial_delay p \<le> ?c")
    case True
    then show ?thesis by (simp add: w_def v_def)
  next
    case False
    have "1 \<le> m ^ k" "0 \<le> m ^ k" for k using assms(3) by simp_all
    then have "?c * 1 \<le> ?c * m ^ k" and "?c * m ^ k \<le> rp_initial_delay p * m ^ k" for k
      using False assms(2) by (intro mult_left_mono mult_right_mono; simp)+
    then have "?c \<le> ?c * m ^ k" "?c \<le> rp_initial_delay p * m ^ k" for k
      by (metis mult.right_neutral, metis mult.right_neutral order_trans)
    then show ?thesis using False by (simp add: w_def v_def min_absorb2)
  qed
  finally show ?thesis .
qed

section \<open>The loop against its specification\<close>

text \<open>The world before the \<open>i\<close>-th call and the result of that call, counting from 0.\<close>

fun world :: "('s \<Rightarrow> 'r \<times> 's) \<Rightarrow> 's \<Rightarrow> nat \<Rightarrow> 's" where
  "world oper s 0 = s"
| "world oper s (Suc i) = world oper (snd (oper s)) i"

definition outcome :: "('s \<Rightarrow> 'r \<times> 's) \<Rightarrow> 's \<Rightarrow> nat \<Rightarrow> 'r" where
  "outcome oper s i = fst (oper (world oper s i))"

lemma outcome_0: "outcome oper s 0 = fst (oper s)"
  by (simp add: outcome_def)

lemma outcome_Suc: "outcome oper s (Suc i) = outcome oper (snd (oper s)) i"
  by (simp add: outcome_def)

definition delays :: "(u8 \<Rightarrow> double \<Rightarrow> double \<Rightarrow> double) \<Rightarrow> retry_policy \<Rightarrow> nat \<Rightarrow> nat \<Rightarrow> int list" where
  "delays jit p from k =
     map (\<lambda>i. calculate_retry_delay (jit (of_nat i)) (of_nat i) p) [from..<from + k]"

text \<open>\<open>k\<close> is the number of retries: the first call that is not retryable, or the last allowed.\<close>

definition stops_at :: "('s \<Rightarrow> http_response result \<times> 's) \<Rightarrow> retry_policy \<Rightarrow> nat \<Rightarrow> 's \<Rightarrow> nat \<Rightarrow> bool" where
  "stops_at oper p budget s k \<longleftrightarrow>
     k < budget \<and> (\<forall>i < k. retryable p (outcome oper s i)) \<and>
     (k + 1 = budget \<or> \<not> retryable p (outcome oper s k))"

lemma retry_loop_spec:
  assumes "attempt \<le> rp_max_attempts p"
  shows "\<exists>k. stops_at oper p (unat (rp_max_attempts p) - unat attempt + 1) s k \<and>
    retry_loop oper jit p attempt s slept =
      (outcome oper s k, world oper s (Suc k), slept @ delays jit p (unat attempt) k)"
  using assms
proof (induction oper jit p attempt s slept rule: retry_loop.induct)
  case (1 oper jit p attempt s slept)
  obtain r s' where r: "oper s = (r, s')" by force
  let ?max = "rp_max_attempts p"
  show ?case
  proof (cases "retryable p r \<and> attempt < ?max")
    case False
    then have "stops_at oper p (unat ?max - unat attempt + 1) s 0"
      using r "1.prems" by (auto simp: stops_at_def outcome_def word_less_nat_alt)
    moreover have "retry_loop oper jit p attempt s slept = (r, s', slept)"
      using False r "1.prems" by (subst retry_loop.simps) auto
    ultimately show ?thesis
      using r by (intro exI [of _ 0]) (simp add: outcome_def delays_def)
  next
    case True
    let ?slept = "slept @ [calculate_retry_delay (jit attempt) attempt p]"
    have nx: "unat (attempt + 1) = Suc (unat attempt)" "unat attempt < unat ?max"
      using True unat_succ [of attempt ?max] by (auto simp: word_less_nat_alt)
    then have le: "attempt + 1 \<le> ?max" by (simp add: word_le_nat_alt)
    obtain k where k: "stops_at oper p (unat ?max - unat (attempt + 1) + 1) s' k"
      "retry_loop oper jit p (attempt + 1) s' ?slept =
         (outcome oper s' k, world oper s' (Suc k), ?slept @ delays jit p (unat (attempt + 1)) k)"
      using "1.IH" [OF "1.prems" r [symmetric] True le] r by auto
    have "stops_at oper p (unat ?max - unat attempt + 1) s (Suc k)"
      using k(1) nx True r
      by (auto simp: stops_at_def outcome_Suc outcome_0 less_Suc_eq_0_disj)
    moreover have "?slept @ delays jit p (unat (attempt + 1)) k = slept @ delays jit p (unat attempt) (Suc k)"
      using nx by (simp add: delays_def upt_conv_Cons del: upt_Suc)
    moreover have "retry_loop oper jit p attempt s slept = retry_loop oper jit p (attempt + 1) s' ?slept"
      using True r "1.prems" by (subst retry_loop.simps) simp
    ultimately show ?thesis
      using k(2) r by (intro exI [of _ "Suc k"]) (simp add: outcome_Suc)
  qed
qed

lemma with_retry_spec:
  assumes "0 < rp_max_attempts p"
  shows "\<exists>k. stops_at oper p (unat (rp_max_attempts p)) s k \<and>
    with_retry oper jit p s = (outcome oper s k, world oper s (Suc k), delays jit p 1 k)"
proof -
  have pos: "0 < unat (rp_max_attempts p)" using assms by (simp add: unat_gt_0 word_gt_0)
  then have "1 \<le> rp_max_attempts p" by (simp add: word_le_nat_alt)
  from retry_loop_spec [OF this, of oper s jit "[]"] show ?thesis
    using pos by (simp add: with_retry_def)
qed

lemma with_retry_no_attempts:
  "rp_max_attempts p = 0 \<Longrightarrow>
     with_retry oper jit p s = (Inl (err_network ''Max retry attempts exceeded''), s, [])"
  by (simp add: with_retry_def retry_loop.simps)

lemma sum_list_bound: "\<forall>x \<in> set xs. (x :: int) \<le> b \<Longrightarrow> sum_list xs \<le> int (length xs) * b"
  by (induction xs) (auto simp: algebra_simps)

lemma with_retry_delays:
  assumes "policy_ok p" and "\<And>i. jitter_ok (jit i)" and "with_retry oper jit p s = (r, s', slept)"
  shows "(\<forall>d \<in> set slept. 0 \<le> d \<and> d \<le> max (rp_max_delay p) 0) \<and>
    length slept \<le> unat (rp_max_attempts p) - 1"
proof (cases "rp_max_attempts p = 0")
  case True
  then show ?thesis using assms(3) by (simp add: with_retry_no_attempts)
next
  case False
  then obtain k where "stops_at oper p (unat (rp_max_attempts p)) s k" "slept = delays jit p 1 k"
    using with_retry_spec [of p oper s jit] assms(3) by (auto simp: word_gt_0)
  then show ?thesis
    using delay_within [OF assms(1,2)] by (auto simp: delays_def stops_at_def)
qed

section \<open>The retrying client\<close>

text \<open>
  The client refers to a policy and an \<open>HttpClient\<close>; \<open>net i\<close> is what libcurl does on the
  \<open>i\<close>-th request, so the state of the world is the number of requests made.
\<close>

record retrying_client =
  rc_client :: http_client
  rc_policy :: retry_policy

definition rc_get :: "(nat \<Rightarrow> curl_api) \<Rightarrow> (u8 \<Rightarrow> double \<Rightarrow> double \<Rightarrow> double) \<Rightarrow>
    retrying_client \<Rightarrow> string \<Rightarrow> nat \<Rightarrow> http_response result \<times> nat \<times> int list" where
  "rc_get net jit c path i =
     with_retry (\<lambda>i. (http_get (net i) (rc_client c) path, Suc i)) jit (rc_policy c) i"

definition rc_get_range :: "(nat \<Rightarrow> curl_api) \<Rightarrow> (u8 \<Rightarrow> double \<Rightarrow> double \<Rightarrow> double) \<Rightarrow>
    retrying_client \<Rightarrow> string \<Rightarrow> u64 \<Rightarrow> u64 \<Rightarrow> nat \<Rightarrow> http_response result \<times> nat \<times> int list" where
  "rc_get_range net jit c path off len i =
     with_retry (\<lambda>i. (get_range (net i) (rc_client c) path off len, Suc i)) jit (rc_policy c) i"

definition rc_new :: "http_client \<Rightarrow> retry_policy \<Rightarrow> retrying_client" where
  "rc_new client p = \<lparr>rc_client = client, rc_policy = p\<rparr>"

definition rc_set_policy :: "retry_policy \<Rightarrow> retrying_client \<Rightarrow> retrying_client" where
  "rc_set_policy p c = c\<lparr>rc_policy := p\<rparr>"

lemma world_count: "world (\<lambda>i. (f i, Suc i)) n k = n + k"
  by (induction k arbitrary: n) auto

lemma outcome_count: "outcome (\<lambda>i. (f i, Suc i)) n k = f (n + k)"
  by (simp add: outcome_def world_count)

section \<open>Properties\<close>

text \<open>
  C8: \<open>with_retry\<close> returns for every policy, also with 255 attempts, where the 8-bit counter
  could wrap, and it calls the operation at most \<open>max_attempts\<close> times: it returns the result
  of the first call that is not to be retried, or of the last allowed call; it has slept the
  computed delays of the attempts before, in order; with no attempts it calls nothing.
\<close>

theorem with_retry_correct:
  "(rp_max_attempts p = 0 \<longrightarrow>
      with_retry oper jit p s = (Inl (err_network ''Max retry attempts exceeded''), s, [])) \<and>
   (0 < rp_max_attempts p \<longrightarrow>
      (\<exists>k < unat (rp_max_attempts p).
         (\<forall>i < k. retryable p (outcome oper s i)) \<and>
         (k + 1 = unat (rp_max_attempts p) \<or> \<not> retryable p (outcome oper s k)) \<and>
         with_retry oper jit p s = (outcome oper s k, world oper s (Suc k), delays jit p 1 k)))"
  using with_retry_no_attempts [of p oper jit s] with_retry_spec [of p oper s jit]
  unfolding stops_at_def by blast

text \<open>
  C26: every delay is between zero and the larger of \<open>max_delay\<close> and zero, whatever the multiplier,
  the jitter factor (negative, infinite and NaN included) and the draws are: the comparison
  in \<open>double\<close> before the conversion keeps the cast to 64 bits in range.
\<close>

theorem retry_delay_bounds:
  assumes "policy_ok p" and "jitter_ok jitter"
  shows "0 \<le> calculate_retry_delay jitter attempt p \<and>
    calculate_retry_delay jitter attempt p \<le> max (rp_max_delay p) 0"
  using delay_within [OF assms] by blast

text \<open>
  C37: with an integer multiplier, no jitter and a maximum for which the products are exact in
  \<open>double\<close>, the delay after attempt n is exactly the initial delay times the multiplier to the
  power n - 1, capped at the maximum.
\<close>

theorem retry_delay_exponential:
  assumes "0 \<le> rp_initial_delay p" and "0 \<le> rp_max_delay p" and "1 \<le> m"
    and "rp_max_delay p * m < 2 ^ 53" and "rp_backoff_multiplier p = Fin (of_int m)"
    and "rp_jitter_factor p = Fin 0"
  shows "calculate_retry_delay jitter attempt p =
    min (rp_initial_delay p * m ^ (unat attempt - 1)) (rp_max_delay p)"
  using assms by (rule delay_exact)

text \<open>
  The whole time slept by \<open>with_retry\<close> is at most \<open>max_attempts - 1\<close> times the maximal delay.
\<close>

theorem retry_total_delay:
  assumes "policy_ok p" and "\<And>i. jitter_ok (jit i)" and "with_retry oper jit p s = (r, s', slept)"
  shows "0 \<le> sum_list slept \<and>
    sum_list slept \<le> int (unat (rp_max_attempts p) - 1) * max (rp_max_delay p) 0"
proof -
  note d = with_retry_delays [OF assms]
  have "sum_list slept \<le> int (length slept) * max (rp_max_delay p) 0"
    using d by (intro sum_list_bound) blast
  also have "\<dots> \<le> int (unat (rp_max_attempts p) - 1) * max (rp_max_delay p) 0"
    using d by (intro mult_right_mono) auto
  finally show ?thesis using d by (auto intro: sum_list_nonneg)
qed

text \<open>
  A retried range request keeps the contract of \<open>get_range\<close>: what it returns is the answer
  of one of the requests made, the number of requests is between one and \<open>max_attempts\<close>, and
  an overflowing range is refused after one attempt without sleeping.
\<close>

theorem retrying_range:
  assumes "0 < rp_max_attempts (rc_policy c)"
    and "rc_get_range net jit c path off len i = (r, i', slept)"
  shows "i < i' \<and> i' \<le> i + unat (rp_max_attempts (rc_policy c)) \<and>
    r = get_range (net (i' - 1)) (rc_client c) path off len \<and> length slept = i' - i - 1 \<and>
    (range_overflows off len \<longrightarrow>
       r = Inl (err_invalid_request ''Byte range overflow'') \<and> i' = i + 1 \<and> slept = [])"
proof -
  let ?f = "\<lambda>i. get_range (net i) (rc_client c) path off len"
  obtain k where k: "stops_at (\<lambda>i. (?f i, Suc i)) (rc_policy c) (unat (rp_max_attempts (rc_policy c))) i k"
    "r = ?f (i + k)" "i' = i + Suc k" "slept = delays jit (rc_policy c) 1 k"
    using with_retry_spec [OF assms(1), of "\<lambda>i. (?f i, Suc i)" i jit] assms(2)
    by (auto simp: rc_get_range_def world_count outcome_count simp del: world.simps)
  have "k = 0" if o: "range_overflows off len"
  proof (rule ccontr)
    assume "k \<noteq> 0"
    then have "retryable (rc_policy c) (?f i)" using k(1) by (auto simp: stops_at_def outcome_count)
    then show False
      using o by (simp add: get_range_eq retryable_def should_retry_error_def)
  qed
  then show ?thesis
    using k by (auto simp: stops_at_def delays_def get_range_eq)
qed

text \<open>
  The two notions of a failed request agree. Whether a response is retried is decided like
  the retry of the error that \<open>from_response\<close> makes of it, for every status, body and policy,
  except that a status of 600 or more makes a retried error but is no retried response.
\<close>

lemma retry_decisions_agree:
  "should_retry_error (from_response (hr_status r) body) p \<longleftrightarrow>
     should_retry_response r p \<or> (rp_retry_on_server_error p \<and> 600 \<le> hr_status r)"
  by (auto simp: should_retry_error_def should_retry_response_def from_response_fields)

section \<open>Witnesses\<close>

text \<open>An operation that fails once with a network error and then succeeds; draws of 1.\<close>

definition sample_response :: http_response where
  "sample_response = \<lparr>hr_status = 200, hr_body = ''x'', hr_headers = []\<rparr>"

definition flaky :: "nat \<Rightarrow> http_response result \<times> nat" where
  "flaky i = (if i = 0 then Inl (err_network ''down'') else Inr sample_response, Suc i)"

definition unit_draw :: "double \<Rightarrow> double \<Rightarrow> double" where
  "unit_draw lo hi = Fin 1"

definition plain_policy :: retry_policy where
  "plain_policy = default_policy\<lparr>rp_jitter_factor := Fin 0\<rparr>"

lemma sample_ok: "policy_ok default_policy" "jitter_ok unit_draw"
  using representable_of_int [of 2] representable_of_int [of 1]
  by (simp_all add: policy_ok_def default_policy_def jitter_ok_def unit_draw_def)

theorem with_retry_correct_witness:
  "\<exists>slept. with_retry flaky (\<lambda>_. unit_draw) default_policy 0 = (Inr sample_response, 2, slept)"
proof -
  have max: "0 < rp_max_attempts default_policy" "unat (rp_max_attempts default_policy) = 3"
    by (simp_all add: default_policy_def)
  have out: "outcome flaky 0 i = fst (flaky i)" and w: "world flaky n i = n + i" for i n
  proof -
    show w: "world flaky n i = n + i" for n i by (induction i arbitrary: n) (simp_all add: flaky_def)
    show "outcome flaky 0 i = fst (flaky i)" by (simp add: outcome_def w)
  qed
  have retry0: "retryable default_policy (fst (flaky 0))"
    and stop1: "\<not> retryable default_policy (fst (flaky 1))"
    by (simp_all add: flaky_def retryable_def should_retry_error_def should_retry_response_def
        default_policy_def sample_response_def)
  obtain k where k: "k < 3" "\<forall>i < k. retryable default_policy (outcome flaky 0 i)"
    "k + 1 = 3 \<or> \<not> retryable default_policy (outcome flaky 0 k)"
    "with_retry flaky (\<lambda>_. unit_draw) default_policy 0 =
       (outcome flaky 0 k, world flaky 0 (Suc k), delays (\<lambda>_. unit_draw) default_policy 1 k)"
    using with_retry_correct [of default_policy flaky "\<lambda>_. unit_draw" 0] max by auto
  have "k = 1"
    using k(1-3) retry0 stop1 unfolding out
    by (metis One_nat_def Suc_1 add.commute add_left_imp_eq less_2_cases_iff less_Suc_eq
        numeral_3_eq_3 plus_1_eq_Suc)
  then show ?thesis using k(4) by (simp add: out w flaky_def del: world.simps)
qed

theorem retry_delay_bounds_witness:
  "calculate_retry_delay unit_draw 255 default_policy \<le> 30000"
  using retry_delay_bounds [OF sample_ok, of 255] by (simp add: default_policy_def)

theorem retry_delay_exponential_witness: "calculate_retry_delay unit_draw 4 plain_policy = 4000"
  using retry_delay_exponential [of plain_policy 2 unit_draw 4]
  by (simp add: plain_policy_def default_policy_def)

theorem retry_total_delay_witness:
  "sum_list (snd (snd (with_retry flaky (\<lambda>_. unit_draw) default_policy 0))) \<le> 60000"
proof -
  obtain r s' slept where r: "with_retry flaky (\<lambda>_. unit_draw) default_policy 0 = (r, s', slept)"
    by (metis prod.exhaust)
  have "sum_list slept \<le> int (unat (rp_max_attempts default_policy) - 1) * max (rp_max_delay default_policy) 0"
    using retry_total_delay [OF sample_ok(1) _ r] sample_ok(2) by blast
  then show ?thesis unfolding r by (simp add: default_policy_def)
qed

theorem retrying_range_witness:
  "rc_get_range (\<lambda>_. sample_curl) (\<lambda>_. unit_draw)
     \<lparr>rc_client = Some sample_impl, rc_policy = default_policy\<rparr> ''https://a/f'' (- 1) 2 0 =
   (Inl (err_invalid_request ''Byte range overflow''), 1, [])"
proof -
  let ?c = "\<lparr>rc_client = Some sample_impl, rc_policy = default_policy\<rparr>"
  obtain r i' slept where r: "rc_get_range (\<lambda>_. sample_curl) (\<lambda>_. unit_draw) ?c ''https://a/f'' (- 1) 2 0 =
      (r, i', slept)"
    by (metis prod.exhaust)
  have "range_overflows (- 1) 2" by (simp add: range_overflows_iff unat_u64_max)
  moreover have "0 < rp_max_attempts (rc_policy ?c)" by (simp add: default_policy_def)
  ultimately have "r = Inl (err_invalid_request ''Byte range overflow'') \<and> i' = 0 + 1 \<and> slept = []"
    using retrying_range [OF _ r] by blast
  then show ?thesis unfolding r by simp
qed

end
