(* ===== verification/Rate_Limit.thy ===== *)
theory Rate_Limit
  imports Prelude
begin

text \<open>
  The token bucket \<open>RateLimiter\<close> of \<open>include/grib/rate_limit.hpp\<close> and
  \<open>src/core/rate_limit.cpp\<close>. Times are integers of nanoseconds (the ticks of
  \<open>steady_clock\<close>) and intervals integers of milliseconds; the token count is a 16-bit word.
  Each operation that holds the mutex is one function of the clock readings it makes; that a
  concurrent execution is a sequence of these functions is the subject of \<open>Limiter_Threads\<close>. The
  locale \<open>metered\<close> is the contract of such a source of grants.
\<close>

section \<open>Time\<close>

abbreviation ns_per_ms :: int where
  "ns_per_ms \<equiv> 1000000"

text \<open>\<open>Clock::duration::max()\<close>, and integer division that truncates towards zero.\<close>

abbreviation clock_max :: int where
  "clock_max \<equiv> int64_max"

definition trunc_div :: "int \<Rightarrow> int \<Rightarrow> int" where
  "trunc_div a b = sgn a * sgn b * (\<bar>a\<bar> div \<bar>b\<bar>)"

text \<open>\<open>duration_cast<milliseconds>\<close>.\<close>

definition to_ms :: "int \<Rightarrow> int" where
  "to_ms ns = trunc_div ns ns_per_ms"

section \<open>The limiter\<close>

record rate_config =
  rl_max_tokens :: u16
  rl_refill_interval :: int
  rl_initial_tokens :: u16
  rl_max_wait :: "int option"

record rate_limiter =
  rl_config :: rate_config
  rl_tokens :: u16
  rl_last :: int

definition sanitized :: "rate_config \<Rightarrow> rate_config" where
  "sanitized c =
     (let c1 = (if rl_refill_interval c \<le> 0 then c\<lparr>rl_refill_interval := 100\<rparr> else c);
          c2 = c1\<lparr>rl_max_tokens := max (rl_max_tokens c1) 1\<rparr>
      in c2\<lparr>rl_initial_tokens := min (rl_initial_tokens c2) (rl_max_tokens c2)\<rparr>)"

definition new_limiter :: "rate_config \<Rightarrow> int \<Rightarrow> rate_limiter" where
  "new_limiter c now =
     (let c' = sanitized c
      in \<lparr>rl_config = c', rl_tokens = rl_initial_tokens c', rl_last = now\<rparr>)"

definition earned_at :: "rate_limiter \<Rightarrow> int \<Rightarrow> int" where
  "earned_at l now = trunc_div (to_ms (now - rl_last l)) (rl_refill_interval (rl_config l))"

definition refill :: "int \<Rightarrow> rate_limiter \<Rightarrow> rate_limiter" where
  "refill now l =
     (if rl_max_tokens (rl_config l) \<le> rl_tokens l then l\<lparr>rl_last := now\<rparr>
      else
        (let earned = earned_at l now in
         if earned \<le> 0 then l
         else
           (let total = uint (rl_tokens l) + earned in
            if uint (rl_max_tokens (rl_config l)) \<le> total
            then l\<lparr>rl_tokens := rl_max_tokens (rl_config l), rl_last := now\<rparr>
            else l\<lparr>rl_tokens := of_int total,
                   rl_last := rl_last l + earned * rl_refill_interval (rl_config l) * ns_per_ms\<rparr>)))"

definition interval_duration :: "rate_config \<Rightarrow> int" where
  "interval_duration c =
     (if to_ms clock_max \<le> rl_refill_interval c then clock_max
      else rl_refill_interval c * ns_per_ms)"

text \<open>\<open>now\<close> and \<open>now2\<close> are the two readings of the clock; \<open>None\<close> means that a token was taken.\<close>

definition take_or_wait_time :: "int \<Rightarrow> int \<Rightarrow> rate_limiter \<Rightarrow> int option \<times> rate_limiter" where
  "take_or_wait_time now now2 l =
     (let l' = refill now l in
      if 0 < rl_tokens l' then (None, l'\<lparr>rl_tokens := rl_tokens l' - 1\<rparr>)
      else (Some (max (interval_duration (rl_config l') - (now2 - rl_last l')) 0), l'))"

definition try_acquire :: "int \<Rightarrow> int \<Rightarrow> rate_limiter \<Rightarrow> bool \<times> rate_limiter" where
  "try_acquire now now2 l =
     (case take_or_wait_time now now2 l of (wait, l') \<Rightarrow> (wait = None, l'))"

text \<open>
  The blocking operations read the clock and sleep: \<open>tick t\<close> is the time of the next reading
  after \<open>t\<close>, \<open>wake t w\<close> the time when a sleep of \<open>w\<close> that begins at \<open>t\<close> is over. The result
  carries the time of the return.
\<close>

partial_function (option) acquire_until ::
  "(int \<Rightarrow> int) \<Rightarrow> (int \<Rightarrow> int \<Rightarrow> int) \<Rightarrow> int option \<Rightarrow> int \<Rightarrow> rate_limiter \<Rightarrow>
     (bool \<times> int \<times> rate_limiter) option"
where
  "acquire_until tick wake deadline t l =
     (let n1 = tick t; n2 = tick n1; n3 = tick n2 in
      case take_or_wait_time n1 n2 l of
        (None, l') \<Rightarrow> Some (True, n2, l')
      | (Some wait, l') \<Rightarrow>
          if (case deadline of Some d \<Rightarrow> d - n3 < wait | None \<Rightarrow> False)
          then Some (False, n3, l')
          else acquire_until tick wake deadline (wake n3 wait) l')"

definition acquire_for :: "(int \<Rightarrow> int) \<Rightarrow> (int \<Rightarrow> int \<Rightarrow> int) \<Rightarrow> int \<Rightarrow> int \<Rightarrow> rate_limiter \<Rightarrow>
    (bool \<times> int \<times> rate_limiter) option" where
  "acquire_for tick wake max_wait t l =
     (let now = tick t in
      if max_wait \<le> 0 then acquire_until tick wake (Some now) now l
      else
        (let remaining = to_ms (clock_max - now) in
         acquire_until tick wake
           (Some (if remaining \<le> max_wait then clock_max else now + max_wait * ns_per_ms)) now l))"

definition acquire :: "(int \<Rightarrow> int) \<Rightarrow> (int \<Rightarrow> int \<Rightarrow> int) \<Rightarrow> int \<Rightarrow> rate_limiter \<Rightarrow>
    (bool \<times> int \<times> rate_limiter) option" where
  "acquire tick wake t l =
     (case rl_max_wait (rl_config l) of
        Some w \<Rightarrow> acquire_for tick wake w t l
      | None \<Rightarrow> acquire_until tick wake None t l)"

definition available_tokens :: "int \<Rightarrow> rate_limiter \<Rightarrow> u16" where
  "available_tokens now l =
     of_int (min (uint (rl_tokens l) + max (earned_at l now) 0) (uint (rl_max_tokens (rl_config l))))"

definition reset :: "int \<Rightarrow> rate_limiter \<Rightarrow> rate_limiter" where
  "reset now l = l\<lparr>rl_tokens := rl_initial_tokens (rl_config l), rl_last := now\<rparr>"

definition limiter_config :: "rate_limiter \<Rightarrow> rate_config" where
  "limiter_config l = rl_config l"

text \<open>\<open>ScopedRateLimit\<close>: the flag is what \<open>acquire\<close> returned at construction.\<close>

definition scoped_rate_limit :: "(int \<Rightarrow> int) \<Rightarrow> (int \<Rightarrow> int \<Rightarrow> int) \<Rightarrow> int \<Rightarrow> rate_limiter \<Rightarrow>
    (bool \<times> rate_limiter) option" where
  "scoped_rate_limit tick wake t l =
     map_option (\<lambda>(acquired, _, l'). (acquired, l')) (acquire tick wake t l)"

section \<open>The invariant\<close>

definition limiter_ok :: "rate_config \<Rightarrow> rate_limiter \<Rightarrow> bool" where
  "limiter_ok c l \<longleftrightarrow>
     rl_config l = c \<and> 0 < rl_refill_interval c \<and> 0 < rl_max_tokens c \<and>
     rl_initial_tokens c \<le> rl_max_tokens c \<and> rl_tokens l \<le> rl_max_tokens c"

text \<open>The nanoseconds one token stands for.\<close>

definition token_ns :: "rate_config \<Rightarrow> int" where
  "token_ns c = rl_refill_interval c * ns_per_ms"

lemma limiter_ok_new: "limiter_ok (sanitized c) (new_limiter c now)"
  by (auto simp: limiter_ok_def new_limiter_def sanitized_def Let_def less_max_iff_disj)

lemma earned_at_nonneg:
  assumes "limiter_ok c l" and "rl_last l \<le> now"
  shows "earned_at l now = (now - rl_last l) div token_ns c"
proof -
  have "0 < rl_refill_interval c" "rl_config l = c" using assms(1) by (auto simp: limiter_ok_def)
  moreover have "trunc_div a b = a div b" if "0 \<le> a" "0 < b" for a b :: int
    using that by (cases "a = 0") (auto simp: trunc_div_def)
  moreover have "(now - rl_last l) div (ns_per_ms * rl_refill_interval c) =
      (now - rl_last l) div ns_per_ms div rl_refill_interval c"
    using calculation(1) by (intro zdiv_zmult2_eq) simp
  ultimately show ?thesis
    using assms(2)
    by (simp add: earned_at_def to_ms_def token_ns_def mult.commute [of _ ns_per_ms]
        pos_imp_zdiv_nonneg_iff)
qed

lemma uint16_of_int: "0 \<le> i \<Longrightarrow> i < 2 ^ 16 \<Longrightarrow> uint (of_int i :: u16) = i"
  by (simp add: unsigned_of_int take_bit_int_eq_self)

lemma uint16_less: "uint (w :: u16) < 2 ^ 16"
proof -
  have "uint w < 2 ^ LENGTH(16)" by (rule unsigned_less)
  then show ?thesis by simp
qed

text \<open>What a refill does, over the integers.\<close>

lemma refill_cases:
  assumes ok: "limiter_ok c l" and now: "rl_last l \<le> now"
  obtains (full) "rl_tokens l = rl_max_tokens c" and "refill now l = l\<lparr>rl_last := now\<rparr>"
  | (none) "uint (rl_tokens l) < uint (rl_max_tokens c)" and "(now - rl_last l) div token_ns c = 0"
      and "refill now l = l"
  | (top) "uint (rl_max_tokens c) \<le> uint (rl_tokens l) + (now - rl_last l) div token_ns c"
      and "refill now l = l\<lparr>rl_tokens := rl_max_tokens c, rl_last := now\<rparr>"
  | (part) e where "e = (now - rl_last l) div token_ns c" and "0 < e"
      and "uint (rl_tokens l) + e < uint (rl_max_tokens c)"
      and "uint (rl_tokens (refill now l)) = uint (rl_tokens l) + e"
      and "rl_last (refill now l) = rl_last l + e * token_ns c"
      and "rl_config (refill now l) = c"
proof -
  define e where "e = (now - rl_last l) div token_ns c"
  have c: "rl_config l = c" "0 < token_ns c" "rl_tokens l \<le> rl_max_tokens c"
    using ok by (auto simp: limiter_ok_def token_ns_def)
  have earned: "earned_at l now = e" using earned_at_nonneg [OF ok now] by (simp add: e_def)
  have e0: "0 \<le> e" using now c(2) by (simp add: e_def pos_imp_zdiv_nonneg_iff)
  show ?thesis
  proof (cases "rl_max_tokens c \<le> rl_tokens l")
    case True
    then show ?thesis using full c by (simp add: refill_def)
  next
    case False
    then have lt: "uint (rl_tokens l) < uint (rl_max_tokens c)" by (simp add: word_less_alt not_le)
    consider "e = 0" | "0 < e" "uint (rl_max_tokens c) \<le> uint (rl_tokens l) + e"
      | "0 < e" "uint (rl_tokens l) + e < uint (rl_max_tokens c)"
      using e0 by linarith
    then show ?thesis
    proof cases
      case 1
      then show ?thesis using none lt False c earned by (simp add: refill_def e_def)
    next
      case 2
      then show ?thesis using top False c earned by (simp add: refill_def Let_def e_def)
    next
      case 3
      then have "uint (of_int (uint (rl_tokens l) + e) :: u16) = uint (rl_tokens l) + e"
        using uint16_less [of "rl_max_tokens c"] by (intro uint16_of_int) auto
      then show ?thesis
        using part [OF e_def] 3 False c earned
        by (simp add: refill_def Let_def token_ns_def mult.assoc del: of_int_add)
    qed
  qed
qed

lemma refill_ok:
  assumes "limiter_ok c l" and "rl_last l \<le> now"
  shows "limiter_ok c (refill now l)"
using assms
proof (cases rule: refill_cases)
  case (part e)
  then show ?thesis using assms by (auto simp: limiter_ok_def word_le_def)
qed (use assms in \<open>auto simp: limiter_ok_def\<close>)

lemma refill_time:
  assumes "limiter_ok c l" and "rl_last l \<le> now"
  shows "rl_last l \<le> rl_last (refill now l)" and "rl_last (refill now l) \<le> now"
    and "now - rl_last (refill now l) < token_ns c"
proof -
  have pos: "0 < token_ns c" using assms(1) by (simp add: limiter_ok_def token_ns_def)
  have "rl_last l \<le> rl_last (refill now l) \<and> rl_last (refill now l) \<le> now \<and>
      now - rl_last (refill now l) < token_ns c"
  using assms
  proof (cases rule: refill_cases)
    case none
    then show ?thesis using assms(2) pos by (auto simp: zdiv_eq_0_iff)
  next
    case (part e)
    have "now - rl_last l = e * token_ns c + (now - rl_last l) mod token_ns c"
      using part(1) by (simp add: mult.commute)
    moreover have "0 \<le> (now - rl_last l) mod token_ns c" "(now - rl_last l) mod token_ns c < token_ns c"
      using pos by simp_all
    moreover have "0 \<le> e * token_ns c" using part(2) pos by simp
    ultimately show ?thesis using part(5) by linarith
  qed (use assms(2) pos in auto)
  then show "rl_last l \<le> rl_last (refill now l)" "rl_last (refill now l) \<le> now"
    "now - rl_last (refill now l) < token_ns c" by auto
qed

text \<open>
  The potential: tokens count as the time they stand for. A refill never raises it, and just
  after a refill it is at most a full bucket minus the present time.
\<close>

definition potential :: "rate_config \<Rightarrow> rate_limiter \<Rightarrow> int" where
  "potential c l = uint (rl_tokens l) * token_ns c - rl_last l"

lemma refill_potential:
  assumes "limiter_ok c l" and "rl_last l \<le> now"
  shows "potential c (refill now l) \<le> potential c l"
    and "potential c (refill now l) + now \<le> uint (rl_max_tokens c) * token_ns c"
proof -
  have pos: "0 < token_ns c" using assms(1) by (simp add: limiter_ok_def token_ns_def)
  have "potential c (refill now l) \<le> potential c l"
  using assms
  proof (cases rule: refill_cases)
    case top
    let ?e = "(now - rl_last l) div token_ns c"
    have "uint (rl_max_tokens c) * token_ns c \<le> (uint (rl_tokens l) + ?e) * token_ns c"
      using top(1) pos by (intro mult_right_mono) simp_all
    moreover have "?e * token_ns c \<le> now - rl_last l"
      using div_mult_mod_eq [of "now - rl_last l" "token_ns c"]
        pos_mod_sign [OF pos, of "now - rl_last l"] by linarith
    ultimately show ?thesis using top(2) by (simp add: potential_def algebra_simps)
  next
    case (part e)
    then show ?thesis by (simp add: potential_def algebra_simps)
  qed (use assms(2) in \<open>auto simp: potential_def\<close>)
  moreover have "potential c (refill now l) + now \<le> uint (rl_max_tokens c) * token_ns c"
  proof (cases "rl_last (refill now l) = now")
    case True
    have "uint (rl_tokens (refill now l)) \<le> uint (rl_max_tokens c)"
      using refill_ok [OF assms] by (simp add: limiter_ok_def word_le_def)
    then show ?thesis using True pos by (simp add: potential_def mult_right_mono)
  next
    case False
    have "uint (rl_tokens (refill now l)) + 1 \<le> uint (rl_max_tokens c)"
    using assms
    proof (cases rule: refill_cases)
      case (part e)
      then show ?thesis by simp
    qed (use False in auto)
    then have "(uint (rl_tokens (refill now l)) + 1) * token_ns c \<le> uint (rl_max_tokens c) * token_ns c"
      using pos by (intro mult_right_mono) simp_all
    then show ?thesis
      using refill_time(3) [OF assms] by (simp add: potential_def algebra_simps)
  qed
  ultimately show "potential c (refill now l) \<le> potential c l"
    and "potential c (refill now l) + now \<le> uint (rl_max_tokens c) * token_ns c" by auto
qed

section \<open>The interface of a metered source\<close>

text \<open>
  A call \<open>e\<close> at \<open>time e\<close> is granted or not. A grant costs, the potential pays for it, and after
  any call at time \<open>t\<close> the potential with the cost of the grant is at most \<open>full - t\<close>.
\<close>

fun grants :: "('e \<Rightarrow> 'l \<Rightarrow> bool \<times> 'l) \<Rightarrow> 'e list \<Rightarrow> 'l \<Rightarrow> nat \<times> 'l" where
  "grants call [] l = (0, l)"
| "grants call (e # es) l =
     (case call e l of
        (g, l') \<Rightarrow> (case grants call es l' of (n, l'') \<Rightarrow> ((if g then n + 1 else n), l'')))"

locale metered =
  fixes call :: "'e \<Rightarrow> 'l \<Rightarrow> bool \<times> 'l"
    and time :: "'e \<Rightarrow> int"
    and clock :: "'l \<Rightarrow> int"
    and pot :: "'l \<Rightarrow> int"
    and cost :: int
    and full :: int
    and ok :: "'l \<Rightarrow> bool"
  assumes keeps: "ok l \<Longrightarrow> clock l \<le> time e \<Longrightarrow> call e l = (g, l') \<Longrightarrow>
      ok l' \<and> clock l \<le> clock l' \<and> clock l' \<le> time e"
    and pays: "ok l \<Longrightarrow> clock l \<le> time e \<Longrightarrow> call e l = (g, l') \<Longrightarrow>
      pot l' + (if g then cost else 0) \<le> pot l"
    and capped: "ok l \<Longrightarrow> clock l \<le> time e \<Longrightarrow> call e l = (g, l') \<Longrightarrow>
      pot l' + (if g then cost else 0) + time e \<le> full"
    and floor: "ok l \<Longrightarrow> - clock l \<le> pot l"
begin

lemma run:
  assumes "ok l" and "clock l \<le> t0" and "\<forall>e \<in> set es. t0 \<le> time e \<and> time e \<le> t1" and "t0 \<le> t1"
    and "sorted (map time es)" and "grants call es l = (n, l')"
  shows "ok l' \<and> clock l' \<le> t1 \<and> int n * cost + pot l' \<le> pot l"
  using assms
proof (induction es arbitrary: l n t0 l')
  case Nil
  then show ?case by auto
next
  case (Cons e es)
  obtain g l1 where c: "call e l = (g, l1)" by force
  obtain m l2 where r: "grants call es l1 = (m, l2)" by force
  have e: "clock l \<le> time e" using Cons.prems(2,3) by force
  note k = keeps [OF Cons.prems(1) e c] pays [OF Cons.prems(1) e c]
  have "ok l2 \<and> clock l2 \<le> t1 \<and> int m * cost + pot l2 \<le> pot l1"
    using Cons.prems k r by (intro Cons.IH [of l1 "time e"]) auto
  then show ?case using Cons.prems(6) c r k by (auto simp: algebra_simps split: if_splits)
qed

text \<open>In a window of time, from any state: a full bucket and what the window earns.\<close>

lemma window:
  assumes "ok l" and "clock l \<le> t0" and "\<forall>e \<in> set es. t0 \<le> time e \<and> time e \<le> t1" and "t0 \<le> t1"
    and "sorted (map time es)" and "grants call es l = (n, l')" and "0 \<le> full"
  shows "int n * cost \<le> full + (t1 - t0)"
proof (cases es)
  case Nil
  then show ?thesis using assms(4,6,7) by simp
next
  case (Cons e rest)
  obtain g l1 where c: "call e l = (g, l1)" by force
  obtain m l2 where r: "grants call rest l1 = (m, l2)" by force
  have e: "clock l \<le> time e" "t0 \<le> time e" "time e \<le> t1" using assms(2,3) Cons by auto
  note k = keeps [OF assms(1) e(1) c] capped [OF assms(1) e(1) c]
  have "ok l2 \<and> clock l2 \<le> t1 \<and> int m * cost + pot l2 \<le> pot l1"
    using assms(3,5) Cons k r e by (intro run [of l1 "time e" rest]) auto
  moreover from this have "- clock l2 \<le> pot l2" using floor by blast
  ultimately show ?thesis
    using assms(6) Cons c r k e by (auto simp: algebra_simps split: if_splits)
qed

end

section \<open>The limiter is a metered source\<close>

definition acquire_call :: "int \<times> int \<Rightarrow> rate_limiter \<Rightarrow> bool \<times> rate_limiter" where
  "acquire_call e l = try_acquire (fst e) (snd e) l"

lemma uint16_dec: "(0 :: u16) < w \<Longrightarrow> uint (w - 1) = uint w - 1"
  using uint_sub_lem [of 1 w] by (simp add: word_less_alt)

lemma acquire_call_cases:
  "acquire_call e l =
     (let l' = refill (fst e) l
      in if 0 < rl_tokens l' then (True, l'\<lparr>rl_tokens := rl_tokens l' - 1\<rparr>) else (False, l'))"
  by (simp add: acquire_call_def try_acquire_def take_or_wait_time_def Let_def)

lemma limiter_metered:
  assumes "limiter_ok c l" and "rl_last l \<le> fst e" and "acquire_call e l = (g, l')"
  shows "limiter_ok c l' \<and> rl_last l \<le> rl_last l' \<and> rl_last l' \<le> fst e"
    and "potential c l' + (if g then token_ns c else 0) = potential c (refill (fst e) l)"
proof -
  let ?r = "refill (fst e) l"
  note r = refill_ok [OF assms(1,2)] refill_time [OF assms(1,2)]
  show "limiter_ok c l' \<and> rl_last l \<le> rl_last l' \<and> rl_last l' \<le> fst e"
    using assms(3) r uint16_dec [of "rl_tokens ?r"]
    by (auto simp: acquire_call_cases Let_def limiter_ok_def word_le_def split: if_splits)
  show "potential c l' + (if g then token_ns c else 0) = potential c ?r"
    using assms(3) uint16_dec [of "rl_tokens ?r"]
    by (auto simp: acquire_call_cases Let_def potential_def left_diff_distrib split: if_splits)
qed

interpretation bucket: metered acquire_call fst rl_last "potential c" "token_ns c"
    "uint (rl_max_tokens c) * token_ns c" "limiter_ok c"
  for c
proof
  fix l e g l'
  assume a: "limiter_ok c l" "rl_last l \<le> fst e" "acquire_call e l = (g, l')"
  show "limiter_ok c l' \<and> rl_last l \<le> rl_last l' \<and> rl_last l' \<le> fst e"
    using limiter_metered(1) [OF a] .
  show "potential c l' + (if g then token_ns c else 0) \<le> potential c l"
    using limiter_metered(2) [OF a] refill_potential(1) [OF a(1,2)] by simp
  show "potential c l' + (if g then token_ns c else 0) + fst e \<le> uint (rl_max_tokens c) * token_ns c"
    using limiter_metered(2) [OF a] refill_potential(2) [OF a(1,2)] by simp
next
  fix l
  assume "limiter_ok c l"
  then have "0 < token_ns c" by (simp add: limiter_ok_def token_ns_def)
  then show "- rl_last l \<le> potential c l" by (simp add: potential_def)
qed

section \<open>Properties of single operations\<close>

lemma available_is_refill:
  assumes "limiter_ok c l" and "rl_last l \<le> now"
  shows "available_tokens now l = rl_tokens (refill now l)"
proof -
  have e: "earned_at l now = (now - rl_last l) div token_ns c" by (rule earned_at_nonneg [OF assms])
  have pos: "0 < token_ns c" and le: "uint (rl_tokens l) \<le> uint (rl_max_tokens c)" "rl_config l = c"
    using assms(1) by (auto simp: limiter_ok_def token_ns_def word_le_def)
  have e0: "0 \<le> earned_at l now" using e pos assms(2) by (simp add: pos_imp_zdiv_nonneg_iff)
  have word: "(of_int (uint w) :: u16) = w" for w by simp
  have "min (uint (rl_tokens l) + earned_at l now) (uint (rl_max_tokens c)) =
      uint (rl_tokens (refill now l))"
    using assms
  proof (cases rule: refill_cases)
    case full
    then show ?thesis using e0 by simp
  next
    case none
    then show ?thesis using e by simp
  next
    case top
    then show ?thesis using e by simp
  next
    case (part e')
    then show ?thesis using e by simp
  qed
  then show ?thesis using e0 le(2) word by (simp add: available_tokens_def max_absorb1)
qed

lemma refill_after_interval:
  assumes "limiter_ok c l" and "rl_last l + token_ns c \<le> now"
  shows "0 < rl_tokens (refill now l)"
proof -
  have pos: "0 < token_ns c" "0 < rl_max_tokens c"
    using assms(1) by (simp_all add: limiter_ok_def token_ns_def)
  then have now: "rl_last l \<le> now" using assms(2) by linarith
  have e: "1 \<le> (now - rl_last l) div token_ns c"
    using zdiv_mono1 [of "token_ns c" "now - rl_last l" "token_ns c"] pos(1) assms(2) by simp
  show ?thesis
    using assms(1) now
  proof (cases rule: refill_cases)
    case full
    then show ?thesis using pos(2) by simp
  next
    case none
    then show ?thesis using e by simp
  next
    case top
    then show ?thesis using pos(2) by simp
  next
    case (part e')
    have "0 \<le> uint (rl_tokens l)" by simp
    then have "0 < uint (rl_tokens (refill now l))" using part(2,4) by linarith
    then show ?thesis by (simp add: word_less_alt)
  qed
qed

section \<open>Blocking\<close>

text \<open>An interval short enough for the clock, less than 292 years.\<close>

definition short_interval :: "rate_config \<Rightarrow> bool" where
  "short_interval c \<longleftrightarrow> rl_refill_interval c < to_ms clock_max"

definition clocks :: "(int \<Rightarrow> int) \<Rightarrow> (int \<Rightarrow> int \<Rightarrow> int) \<Rightarrow> bool" where
  "clocks tick wake \<longleftrightarrow> (\<forall>t. t \<le> tick t) \<and> (\<forall>t w. t + w \<le> wake t w)"

lemma take_refill:
  assumes "limiter_ok c l" and "rl_last l \<le> n1" and "short_interval c"
  shows "take_or_wait_time n1 n2 l =
    (if 0 < rl_tokens (refill n1 l)
     then (None, (refill n1 l)\<lparr>rl_tokens := rl_tokens (refill n1 l) - 1\<rparr>)
     else (Some (max (token_ns c - (n2 - rl_last (refill n1 l))) 0), refill n1 l))"
  using refill_ok [OF assms(1,2)] assms(3)
  by (simp add: take_or_wait_time_def Let_def interval_duration_def short_interval_def
      token_ns_def limiter_ok_def)

lemma take_after_wait:
  assumes "limiter_ok c l" and "rl_last l + token_ns c \<le> n1" and "short_interval c"
  shows "\<exists>l'. take_or_wait_time n1 n2 l = (None, l')"
proof -
  have "0 < token_ns c" using assms(1) by (simp add: limiter_ok_def token_ns_def)
  then have "rl_last l \<le> n1" using assms(2) by simp
  then show ?thesis
    using take_refill [OF assms(1) _ assms(3)] refill_after_interval [OF assms(1,2)] by simp
qed

lemma acquire_until_returns:
  assumes ok: "limiter_ok c l" and t: "rl_last l \<le> t" and short: "short_interval c"
    and clk: "clocks tick wake"
  shows "\<exists>b t' l'. acquire_until tick wake deadline t l = Some (b, t', l') \<and> (deadline = None \<longrightarrow> b)"
proof -
  let ?n1 = "tick t" and ?n2 = "tick (tick t)" and ?n3 = "tick (tick (tick t))"
  have mono: "t \<le> ?n1" "?n1 \<le> ?n2" "?n2 \<le> ?n3" and wake: "s + w \<le> wake s w" "s \<le> tick s" for s w
    using clk by (auto simp: clocks_def)
  have l1: "rl_last l \<le> ?n1" using t mono(1) by linarith
  let ?r = "refill ?n1 l"
  note r = take_refill [OF ok l1 short, of ?n2]
  show ?thesis
  proof (cases "0 < rl_tokens ?r")
    case True
    then show ?thesis using r by (subst acquire_until.simps) (auto simp: Let_def)
  next
    case False
    let ?w = "max (token_ns c - (?n2 - rl_last ?r)) 0"
    let ?t2 = "wake ?n3 ?w"
    have "rl_last ?r + token_ns c \<le> ?n3 + ?w" using mono(3) by simp
    also have "\<dots> \<le> tick ?t2" using wake(1) wake(2) by (rule order_trans)
    finally obtain l2 where "take_or_wait_time (tick ?t2) (tick (tick ?t2)) ?r = (None, l2)"
      using take_after_wait [OF refill_ok [OF ok l1] _ short] by blast
    then have second: "acquire_until tick wake deadline ?t2 ?r = Some (True, tick (tick ?t2), l2)"
      by (subst acquire_until.simps) (simp add: Let_def)
    show ?thesis
      using False r by (subst acquire_until.simps) (auto simp: Let_def second split: option.split)
  qed
qed

text \<open>When a token is there at the latest, seen from time \<open>t\<close>.\<close>

definition token_due :: "rate_config \<Rightarrow> int \<Rightarrow> rate_limiter \<Rightarrow> int" where
  "token_due c t l = (if 0 < rl_tokens (refill t l) then t else rl_last (refill t l) + token_ns c)"

text \<open>With an ideal clock, on which reading takes no time and a sleep ends on the spot.\<close>

lemma acquire_until_ideal:
  assumes ok: "limiter_ok c l" and t: "rl_last l \<le> t" and short: "short_interval c" and "t \<le> d"
  shows "\<exists>l'. acquire_until (\<lambda>t. t) (+) (Some d) t l =
    Some (token_due c t l \<le> d, if token_due c t l \<le> d then token_due c t l else t, l')"
proof -
  let ?r = "refill t l"
  note r = take_refill [OF ok t short, of t]
  show ?thesis
  proof (cases "0 < rl_tokens ?r")
    case True
    then show ?thesis using r assms(4)
      by (subst acquire_until.simps) (simp add: Let_def token_due_def)
  next
    case False
    have due: "token_due c t l = rl_last ?r + token_ns c" using False by (simp add: token_due_def)
    have w: "max (token_ns c - (t - rl_last ?r)) 0 = token_due c t l - t"
      using refill_time(3) [OF ok t] unfolding due by simp
    obtain l2 where "take_or_wait_time (token_due c t l) (token_due c t l) ?r = (None, l2)"
      using take_after_wait [OF refill_ok [OF ok t] _ short] due by auto
    then have second: "acquire_until (\<lambda>t. t) (+) (Some d) (token_due c t l) ?r =
        Some (True, token_due c t l, l2)"
      by (subst acquire_until.simps) (simp add: Let_def)
    show ?thesis
      using False r w by (subst acquire_until.simps) (auto simp add: Let_def second)
  qed
qed

section \<open>Properties\<close>

text \<open>
  The rate is kept. Whatever the state of the bucket and whatever the sequence of
  \<open>try_acquire\<close> calls, the tokens granted in a window of time cost at most a full bucket plus the
  time of the window, where a token costs the refill interval.
\<close>

theorem rate_bound:
  assumes "limiter_ok c l" and "rl_last l \<le> t0" and "\<forall>e \<in> set es. t0 \<le> fst e \<and> fst e \<le> t1"
    and "t0 \<le> t1" and "sorted (map fst es)" and "grants acquire_call es l = (n, l')"
  shows "int n * token_ns c \<le> uint (rl_max_tokens c) * token_ns c + (t1 - t0)"
proof -
  have "0 < token_ns c" using assms(1) by (simp add: limiter_ok_def token_ns_def)
  then show ?thesis using bucket.window [OF assms] by simp
qed

text \<open>
  The bucket never holds more than \<open>max_tokens\<close>, in any state that operations at
  non-decreasing times lead to, and the grants so far are paid: their cost is at most the
  initial tokens plus the time since the start.
\<close>

theorem bucket_invariant:
  assumes "\<forall>e \<in> set es. t0 \<le> fst e \<and> fst e \<le> t1" and "t0 \<le> t1" and "sorted (map fst es)"
    and "grants acquire_call es (new_limiter c t0) = (n, l')"
  shows "rl_tokens l' \<le> rl_max_tokens (rl_config l') \<and> rl_config l' = sanitized c \<and>
    int n * token_ns (sanitized c) \<le>
      uint (rl_initial_tokens (sanitized c)) * token_ns (sanitized c) + (t1 - t0)"
proof -
  let ?c = "sanitized c" and ?l = "new_limiter c t0"
  have start: "rl_last ?l = t0" "rl_tokens ?l = rl_initial_tokens ?c"
    by (simp_all add: new_limiter_def Let_def)
  have r: "limiter_ok ?c l' \<and> rl_last l' \<le> t1 \<and> int n * token_ns ?c + potential ?c l' \<le> potential ?c ?l"
    using assms start by (intro bucket.run [OF limiter_ok_new _ assms(1)]) simp_all
  then have "0 < token_ns ?c" by (simp add: limiter_ok_def token_ns_def)
  then have "0 \<le> uint (rl_tokens l') * token_ns ?c" by simp
  then have "- t1 \<le> potential ?c l'" using r unfolding potential_def by linarith
  then show ?thesis using r start by (auto simp: limiter_ok_def potential_def)
qed

text \<open>
  \<open>available_tokens\<close>, which does not change the limiter, tells the truth: it is the count
  that a refill at that time would leave, and \<open>try_acquire\<close> succeeds at that time exactly when
  it is not zero, leaving one token less.
\<close>

theorem available_tokens_correct:
  assumes "limiter_ok c l" and "rl_last l \<le> now"
  shows "available_tokens now l = rl_tokens (refill now l) \<and>
    (fst (try_acquire now now2 l) \<longleftrightarrow> 0 < available_tokens now l) \<and>
    rl_tokens (snd (try_acquire now now2 l)) =
      available_tokens now l - (if 0 < available_tokens now l then 1 else 0)"
  using available_is_refill [OF assms]
  by (auto simp: try_acquire_def take_or_wait_time_def Let_def)

text \<open>
  C35: the blocking operations return. On any clock that does not go back and any sleep that
  lasts at least as long as asked, the loop of \<open>acquire\<close> ends, and without a \<open>max_wait\<close> it
  ends with a token.
\<close>

theorem acquire_returns:
  assumes "limiter_ok c l" and "rl_last l \<le> t" and "short_interval c" and "clocks tick wake"
  shows "\<exists>b t' l'. acquire tick wake t l = Some (b, t', l') \<and> (rl_max_wait c = None \<longrightarrow> b)"
proof -
  have "rl_last l \<le> tick t" using assms(2,4) by (auto simp: clocks_def intro: order_trans)
  then have "\<exists>b t' l'. acquire_until tick wake d (tick t) l = Some (b, t', l')" for d
    using acquire_until_returns [OF assms(1) _ assms(3,4)] by blast
  moreover have "rl_config l = c" using assms(1) by (simp add: limiter_ok_def)
  ultimately show ?thesis
    using acquire_until_returns [OF assms, of None]
    by (auto simp: acquire_def acquire_for_def Let_def split: option.split)
qed

text \<open>
  C31: \<open>acquire_for\<close> on an ideal clock waits exactly as long as needed and never in vain: it
  returns at the moment a token is due when that is within \<open>max_wait\<close>, and otherwise it fails
  at once, without sleeping.
\<close>

theorem acquire_for_exact:
  assumes "limiter_ok c l" and "rl_last l \<le> t" and "short_interval c"
    and "w < to_ms (clock_max - t)"
  shows "\<exists>l'. acquire_for (\<lambda>t. t) (+) w t l =
    Some (token_due c t l \<le> t + max w 0 * ns_per_ms,
      if token_due c t l \<le> t + max w 0 * ns_per_ms then token_due c t l else t, l')"
proof (cases "w \<le> 0")
  case True
  then show ?thesis
    using acquire_until_ideal [OF assms(1-3), of t] by (simp add: acquire_for_def max_absorb2)
next
  case False
  then show ?thesis
    using acquire_until_ideal [OF assms(1-3), of "t + w * ns_per_ms"] assms(4)
    by (simp add: acquire_for_def Let_def)
qed

section \<open>Witnesses\<close>

definition sample_rate :: rate_config where
  "sample_rate =
     \<lparr>rl_max_tokens = 2, rl_refill_interval = 100, rl_initial_tokens = 2, rl_max_wait = None\<rparr>"

definition empty_bucket :: rate_limiter where
  "empty_bucket = \<lparr>rl_config = sample_rate, rl_tokens = 0, rl_last = 0\<rparr>"

lemma sample_bucket_ok:
  "limiter_ok sample_rate empty_bucket" "rl_last empty_bucket = 0" "short_interval sample_rate"
  "clocks (\<lambda>t. t) (+)"
  by (simp_all add: limiter_ok_def empty_bucket_def sample_rate_def short_interval_def clocks_def
      to_ms_def trunc_div_def)

lemma sample_refills:
  "rl_tokens (refill 250000000 empty_bucket) = 2"
  "rl_tokens (refill 50000000 empty_bucket) = 0" "rl_last (refill 50000000 empty_bucket) = 0"
  by (simp_all add: refill_def empty_bucket_def sample_rate_def earned_at_def to_ms_def
      trunc_div_def Let_def)

theorem rate_bound_witness:
  "int (fst (grants acquire_call [(0, 0), (250000000, 250000000)] empty_bucket)) * 100000000
     \<le> 450000000"
  using rate_bound [OF sample_bucket_ok(1) _ _ _ _ surjective_pairing,
      of 0 "[(0, 0), (250000000, 250000000)]" 250000000] sample_bucket_ok(2)
  by (simp add: token_ns_def sample_rate_def del: grants.simps)

theorem bucket_invariant_witness:
  "rl_tokens (snd (grants acquire_call [(5, 6)] (new_limiter sample_rate 0))) \<le>
     rl_max_tokens (rl_config (snd (grants acquire_call [(5, 6)] (new_limiter sample_rate 0))))"
  using bucket_invariant [of "[(5, 6)]" 0 7, OF _ _ _ surjective_pairing, of sample_rate]
  by (auto simp del: grants.simps)

theorem available_tokens_correct_witness: "fst (try_acquire 250000000 0 empty_bucket)"
  using available_tokens_correct [OF sample_bucket_ok(1), of 250000000 0] sample_bucket_ok(2)
  by (simp add: sample_refills)

theorem acquire_returns_witness:
  "\<exists>t' l'. acquire (\<lambda>t. t) (+) 50000000 empty_bucket = Some (True, t', l')"
  using acquire_returns [OF sample_bucket_ok(1) _ sample_bucket_ok(3,4), of 50000000] sample_bucket_ok(2)
  by (auto simp: sample_rate_def)

theorem acquire_for_exact_witness:
  "(\<exists>l'. acquire_for (\<lambda>t. t) (+) 50 50000000 empty_bucket = Some (True, 100000000, l')) \<and>
   (\<exists>l'. acquire_for (\<lambda>t. t) (+) 49 50000000 empty_bucket = Some (False, 50000000, l'))"
proof -
  have "token_due sample_rate 50000000 empty_bucket = 100000000"
    by (simp add: token_due_def sample_refills token_ns_def sample_rate_def)
  moreover have "w < to_ms (clock_max - 50000000)" if "w \<le> 50" for w
    using that by (simp add: to_ms_def trunc_div_def)
  ultimately show ?thesis
    using acquire_for_exact [OF sample_bucket_ok(1) _ sample_bucket_ok(3), of 50000000 50]
      acquire_for_exact [OF sample_bucket_ok(1) _ sample_bucket_ok(3), of 50000000 49]
      sample_bucket_ok(2)
    by simp
qed

end
