(* ===== verification/Traces.thy ===== *)
theory Traces
  imports Prelude
begin

text \<open>
  Executions of labelled step relations and forward simulation. A step of the implementation
  emits a list of events, usually none or one; the specification is a function that replays
  events and is \<open>None\<close> when an event is not allowed. The locale \<open>simulation\<close> is the contract
  between the two; its lemma is trace inclusion.
\<close>

inductive exec :: "('s \<Rightarrow> 'e list \<Rightarrow> 's \<Rightarrow> bool) \<Rightarrow> 's \<Rightarrow> 'e list \<Rightarrow> 's \<Rightarrow> bool" for step where
  exec_none: "exec step s [] s"
| exec_more: "exec step s es s' \<Longrightarrow> step s' e s'' \<Longrightarrow> exec step s (es @ e) s''"

lemma exec_silent: "exec step s es s' \<Longrightarrow> step s' [] s'' \<Longrightarrow> exec step s es s''"
  using exec_more [of step s es s' "[]" s''] by simp

fun replay :: "('e \<Rightarrow> 'a \<Rightarrow> 'a option) \<Rightarrow> 'e list \<Rightarrow> 'a \<Rightarrow> 'a option" where
  "replay spec [] a = Some a"
| "replay spec (e # es) a = Option.bind (spec e a) (replay spec es)"

lemma replay_append:
  "replay spec (es @ fs) a = Option.bind (replay spec es a) (replay spec fs)"
proof (induction es arbitrary: a)
  case (Cons e es)
  then show ?case by (cases "spec e a") simp_all
qed simp

lemma replay_append_Some:
  "replay spec (es @ fs) a = Some c \<longleftrightarrow>
     (\<exists>b. replay spec es a = Some b \<and> replay spec fs b = Some c)"
  by (auto simp: replay_append bind_eq_Some_conv)

text \<open>What holds at the start and is kept by every step holds in every reachable state.\<close>

lemma exec_invariant:
  assumes "exec step s es s'" and "P s" and "\<And>s e s'. P s \<Longrightarrow> step s e s' \<Longrightarrow> P s'"
  shows "P s'"
  using assms(1,2) by induction (auto intro: assms(3))

lemma replay_invariant:
  assumes "replay spec es a = Some b" and "P a" and "\<And>e a b. P a \<Longrightarrow> spec e a = Some b \<Longrightarrow> P b"
  shows "P b"
  using assms(1,2) by (induction es arbitrary: a) (auto simp: bind_eq_Some_conv intro: assms(3))

locale simulation =
  fixes step :: "'s \<Rightarrow> 'e list \<Rightarrow> 's \<Rightarrow> bool"
    and spec :: "'e \<Rightarrow> 'a \<Rightarrow> 'a option"
    and rel :: "'s \<Rightarrow> 'a \<Rightarrow> bool"
  assumes simulates: "rel s a \<Longrightarrow> step s e s' \<Longrightarrow> \<exists>a'. replay spec e a = Some a' \<and> rel s' a'"
begin

lemma trace_included:
  assumes "exec step s es s'" and "rel s a"
  shows "\<exists>a'. replay spec es a = Some a' \<and> rel s' a'"
  using assms
proof induction
  case (exec_none s)
  then show ?case by auto
next
  case (exec_more s es s' e s'')
  then obtain a' where a: "replay spec es a = Some a'" "rel s' a'" by blast
  from simulates [OF a(2) exec_more.hyps(2)]
  obtain a'' where "replay spec e a' = Some a''" "rel s'' a''" by blast
  then show ?case using a(1) by (auto simp: replay_append)
qed

end

section \<open>Windows of a sorted trace\<close>

lemma sorted_window:
  fixes f :: "'a \<Rightarrow> int"
  assumes "sorted (map f xs)" and "a \<le> b"
  shows "xs = filter (\<lambda>x. f x < a) xs @ filter (\<lambda>x. a \<le> f x \<and> f x \<le> b) xs @ filter (\<lambda>x. b < f x) xs"
  using assms(1)
proof (induction xs)
  case (Cons x xs)
  have later: "\<forall>y \<in> set xs. f x \<le> f y" using Cons.prems by simp
  consider "f x < a" | "a \<le> f x" "f x \<le> b" | "b < f x" by linarith
  then show ?case
  proof cases
    case 1
    then show ?thesis using Cons assms(2) by simp
  next
    case 2
    then have "filter (\<lambda>y. f y < a) xs = []" using later by (auto simp: filter_empty_conv)
    then show ?thesis using 2 Cons by simp
  next
    case 3
    then have "filter (\<lambda>y. f y < a) xs = []" "filter (\<lambda>y. a \<le> f y \<and> f y \<le> b) xs = []"
      using later assms(2) by (auto simp: filter_empty_conv)
    then show ?thesis using 3 Cons assms(2) by simp
  qed
qed simp

end
