(* ===== verification/Limiter_Threads.thy ===== *)
theory Limiter_Threads
  imports Rate_Limit Traces
begin

text \<open>
  \<open>RateLimiter\<close> under threads: every operation of \<open>src/core/rate_limit.cpp\<close> cut into the steps
  that other threads can come between, namely taking the mutex, each reading of the clock,
  releasing the mutex, the check of the deadline and the sleep. Any number of threads call any
  operations in any order. The specification is the limiter of \<open>Rate_Limit\<close>, on which each
  locked section is one atomic operation.
\<close>

section \<open>The threads\<close>

text \<open>The locked sections: of \<open>try_acquire\<close>, of one round of \<open>acquire_until\<close> (with its deadline),
  of \<open>available_tokens\<close> and of \<open>reset\<close>.\<close>

datatype lim_section = Sec_try | Sec_loop "int option" | Sec_available | Sec_reset

datatype lim_result = Ret_bool bool | Ret_count u16 | Ret_unit

text \<open>
  Where a thread is: outside any call, before the clock reading of \<open>acquire_for\<close>, before a
  section, inside it (with the mutex), behind the refill, with the outcome of
  \<open>take_or_wait_time\<close>, with the result of a section that does not take; then, without the mutex,
  before the check of the deadline, asleep, or returning.
\<close>

datatype lim_pc =
    Outside
  | Entry_for int
  | Want lim_section
  | Locked lim_section
  | Refilled lim_section int
  | Decided lim_section "int option"
  | Leaving lim_result
  | Told "int option" int
  | Sleeping "int option" int
  | Returning lim_result

record lim_state =
  ls_lim :: rate_limiter
  ls_mutex :: "nat option"
  ls_time :: int
  ls_pc :: "nat \<Rightarrow> lim_pc"

definition goto :: "nat \<Rightarrow> lim_pc \<Rightarrow> lim_state \<Rightarrow> lim_state" where
  "goto i p s = s\<lparr>ls_pc := (ls_pc s)(i := p)\<rparr>"

lemma goto_simps [simp]:
  "ls_lim (goto i p s) = ls_lim s" "ls_mutex (goto i p s) = ls_mutex s"
  "ls_time (goto i p s) = ls_time s" "ls_pc (goto i p s) = (ls_pc s)(i := p)"
  by (simp_all add: goto_def)

definition lim_start :: "rate_config \<Rightarrow> int \<Rightarrow> lim_state" where
  "lim_start c t0 =
     \<lparr>ls_lim = new_limiter c t0, ls_mutex = None, ls_time = t0, ls_pc = \<lambda>_. Outside\<rparr>"

text \<open>What a locked section does to the limiter: the thread, the clock readings, the outcome.\<close>

datatype lim_event =
    Take nat int int "int option"
  | Count nat int u16
  | Reset nat int

definition takes :: "lim_section \<Rightarrow> bool" where
  "takes sec \<longleftrightarrow> (case sec of Sec_try \<Rightarrow> True | Sec_loop _ \<Rightarrow> True | _ \<Rightarrow> False)"

text \<open>The deadline that \<open>acquire_for\<close> computes from its clock reading.\<close>

definition for_deadline :: "int \<Rightarrow> int \<Rightarrow> int" where
  "for_deadline max_wait now =
     (if max_wait \<le> 0 then now
      else if to_ms (clock_max - now) \<le> max_wait then clock_max
      else now + max_wait * ns_per_ms)"

text \<open>Where a thread goes when it has released the mutex behind \<open>take_or_wait_time\<close>.\<close>

definition after_take :: "lim_section \<Rightarrow> int option \<Rightarrow> lim_pc" where
  "after_take sec wait =
     (case sec of
        Sec_loop d \<Rightarrow> (case wait of None \<Rightarrow> Returning (Ret_bool True) | Some w \<Rightarrow> Told d w)
      | _ \<Rightarrow> Returning (Ret_bool (wait = None)))"

inductive lim_step :: "lim_state \<Rightarrow> lim_event list \<Rightarrow> lim_state \<Rightarrow> bool" where
  time_passes: "ls_time s \<le> t \<Longrightarrow> lim_step s [] (s\<lparr>ls_time := t\<rparr>)"
| call_section: "ls_pc s i = Outside \<Longrightarrow> sec \<in> {Sec_try, Sec_available, Sec_reset} \<Longrightarrow>
    lim_step s [] (goto i (Want sec) s)"
| call_acquire: "ls_pc s i = Outside \<Longrightarrow>
    lim_step s [] (goto i (case rl_max_wait (rl_config (ls_lim s)) of
      Some w \<Rightarrow> Entry_for w | None \<Rightarrow> Want (Sec_loop None)) s)"
| call_for: "ls_pc s i = Outside \<Longrightarrow> lim_step s [] (goto i (Entry_for w) s)"
| entry: "ls_pc s i = Entry_for w \<Longrightarrow>
    lim_step s [] (goto i (Want (Sec_loop (Some (for_deadline w (ls_time s))))) s)"
| lock: "ls_pc s i = Want sec \<Longrightarrow> ls_mutex s = None \<Longrightarrow>
    lim_step s [] (goto i (Locked sec) (s\<lparr>ls_mutex := Some i\<rparr>))"
| refills: "ls_pc s i = Locked sec \<Longrightarrow> takes sec \<Longrightarrow>
    lim_step s [] (goto i (Refilled sec (ls_time s)) (s\<lparr>ls_lim := refill (ls_time s) (ls_lim s)\<rparr>))"
| token: "ls_pc s i = Refilled sec now \<Longrightarrow> 0 < rl_tokens (ls_lim s) \<Longrightarrow>
    lim_step s [Take i now (ls_time s) None]
      (goto i (Decided sec None) (s\<lparr>ls_lim := (ls_lim s)\<lparr>rl_tokens := rl_tokens (ls_lim s) - 1\<rparr>\<rparr>))"
| no_token: "ls_pc s i = Refilled sec now \<Longrightarrow> rl_tokens (ls_lim s) = 0 \<Longrightarrow>
    w = max (interval_duration (rl_config (ls_lim s)) - (ls_time s - rl_last (ls_lim s))) 0 \<Longrightarrow>
    lim_step s [Take i now (ls_time s) (Some w)] (goto i (Decided sec (Some w)) s)"
| counts: "ls_pc s i = Locked Sec_available \<Longrightarrow> n = available_tokens (ls_time s) (ls_lim s) \<Longrightarrow>
    lim_step s [Count i (ls_time s) n] (goto i (Leaving (Ret_count n)) s)"
| resets: "ls_pc s i = Locked Sec_reset \<Longrightarrow>
    lim_step s [Reset i (ls_time s)]
      (goto i (Leaving Ret_unit) (s\<lparr>ls_lim := reset (ls_time s) (ls_lim s)\<rparr>))"
| unlock_take: "ls_pc s i = Decided sec wait \<Longrightarrow>
    lim_step s [] (goto i (after_take sec wait) (s\<lparr>ls_mutex := None\<rparr>))"
| unlock_leave: "ls_pc s i = Leaving r \<Longrightarrow>
    lim_step s [] (goto i (Returning r) (s\<lparr>ls_mutex := None\<rparr>))"
| gives_up: "ls_pc s i = Told (Some d) w \<Longrightarrow> d - ls_time s < w \<Longrightarrow>
    lim_step s [] (goto i (Returning (Ret_bool False)) s)"
| sleeps: "ls_pc s i = Told d w \<Longrightarrow> (case d of Some d \<Rightarrow> w \<le> d - ls_time s | None \<Rightarrow> True) \<Longrightarrow>
    lim_step s [] (goto i (Sleeping d (ls_time s + w)) s)"
| wakes: "ls_pc s i = Sleeping d u \<Longrightarrow> u \<le> ls_time s \<Longrightarrow> lim_step s [] (goto i (Want (Sec_loop d)) s)"
| returns: "ls_pc s i = Returning r \<Longrightarrow> lim_step s [] (goto i Outside s)"

inductive_cases lim_stepE: "lim_step s es s'"

text \<open>The deadline is that of the sequential \<open>acquire_for\<close>.\<close>

lemma acquire_for_deadline:
  "acquire_for tick wake w t l =
     acquire_until tick wake (Some (for_deadline w (tick t))) (tick t) l"
  by (simp add: acquire_for_def for_deadline_def Let_def)

section \<open>The atomic limiter\<close>

text \<open>
  The specification replays the events one after the other on the sequential limiter, at
  times that do not go back, and rejects an outcome that the sequential operation would
  not have. Its state is the limiter and the time of the last event.
\<close>

fun ev_time :: "lim_event \<Rightarrow> int" where
  "ev_time (Take _ now _ _) = now"
| "ev_time (Count _ now _) = now"
| "ev_time (Reset _ now) = now"

fun ev_apply :: "lim_event \<Rightarrow> rate_limiter \<Rightarrow> rate_limiter option" where
  "ev_apply (Take i now now2 wait) l =
     (case take_or_wait_time now now2 l of (w, l') \<Rightarrow> if w = wait then Some l' else None)"
| "ev_apply (Count i now n) l = (if n = available_tokens now l then Some l else None)"
| "ev_apply (Reset i now) l = Some (reset now l)"

definition atomic_step :: "lim_event \<Rightarrow> rate_limiter \<times> int \<Rightarrow> (rate_limiter \<times> int) option" where
  "atomic_step e a =
     (if ev_time e < snd a then None
      else map_option (\<lambda>l'. (l', ev_time e)) (ev_apply e (fst a)))"

section \<open>The simulation\<close>

definition inside :: "lim_pc \<Rightarrow> bool" where
  "inside p \<longleftrightarrow>
     (case p of Locked _ \<Rightarrow> True | Refilled _ _ \<Rightarrow> True | Decided _ _ \<Rightarrow> True | Leaving _ \<Rightarrow> True
      | _ \<Rightarrow> False)"

text \<open>
  While a thread is behind its refill the limiter is the refilled one of the specification,
  otherwise they are the same.
\<close>

definition agrees :: "lim_pc \<Rightarrow> int \<Rightarrow> rate_limiter \<Rightarrow> rate_limiter \<Rightarrow> int \<Rightarrow> bool" where
  "agrees p u m l t \<longleftrightarrow>
     (case p of Refilled sec now \<Rightarrow> t \<le> now \<and> now \<le> u \<and> m = refill now l | _ \<Rightarrow> m = l)"

definition explains :: "lim_state \<Rightarrow> rate_limiter \<times> int \<Rightarrow> bool" where
  "explains s a \<longleftrightarrow>
     (\<forall>i. inside (ls_pc s i) \<longleftrightarrow> ls_mutex s = Some i) \<and> snd a \<le> ls_time s \<and>
     (case ls_mutex s of
        Some i \<Rightarrow> agrees (ls_pc s i) (ls_time s) (ls_lim s) (fst a) (snd a)
      | None \<Rightarrow> ls_lim s = fst a)"

lemma agrees_simps [simp]:
  "agrees (Refilled sec now) u m l t \<longleftrightarrow> t \<le> now \<and> now \<le> u \<and> m = refill now l"
  "agrees (Locked sec) u m l t \<longleftrightarrow> m = l" "agrees (Decided sec w) u m l t \<longleftrightarrow> m = l"
  "agrees (Leaving r) u m l t \<longleftrightarrow> m = l"
  by (simp_all add: agrees_def)

lemma agrees_later: "agrees p u m l t \<Longrightarrow> u \<le> u' \<Longrightarrow> agrees p u' m l t"
  by (cases p) (auto simp: agrees_def)

lemma inside_simps [simp]:
  "inside (Locked sec)" "inside (Refilled sec t)" "inside (Decided sec w)" "inside (Leaving r)"
  "\<not> inside Outside" "\<not> inside (Entry_for t)" "\<not> inside (Want sec)" "\<not> inside (Told d t)"
  "\<not> inside (Sleeping d t)" "\<not> inside (Returning r)" "\<not> inside (after_take sec wait)"
  by (simp_all add: inside_def after_take_def split: lim_section.split option.split)

text \<open>Steps of a thread outside and inside the mutex.\<close>

definition settled :: "lim_pc \<Rightarrow> bool" where
  "settled p \<longleftrightarrow> (case p of Locked _ \<Rightarrow> True | Decided _ _ \<Rightarrow> True | Leaving _ \<Rightarrow> True | _ \<Rightarrow> False)"

lemma settled_simps [simp]:
  "settled (Locked sec)" "settled (Decided sec w)" "settled (Leaving r)"
  by (simp_all add: settled_def)

lemma settledD: "settled p \<Longrightarrow> inside p \<and> (agrees p u m l t \<longleftrightarrow> m = l)"
  by (cases p) (simp_all add: settled_def)

lemma explains_holder: "explains s a \<Longrightarrow> inside (ls_pc s i) \<Longrightarrow> ls_mutex s = Some i"
  by (simp add: explains_def)

lemma explains_same:
  assumes "explains s a" and "settled (ls_pc s i)"
  shows "ls_lim s = fst a" and "snd a \<le> ls_time s" and "ls_mutex s = Some i"
  using assms settledD [OF assms(2)] by (auto simp: explains_def)

lemma explains_refilled:
  assumes "explains s a" and "ls_pc s i = Refilled sec now"
  shows "snd a \<le> now" and "now \<le> ls_time s" and "ls_lim s = refill now (fst a)"
  using assms explains_holder [OF assms(1), of i] by (auto simp: explains_def)

lemma explains_goto_outside:
  assumes "explains s a" and "\<not> inside (ls_pc s i)" and "\<not> inside p"
  shows "explains (goto i p s) a"
proof -
  have "ls_mutex s \<noteq> Some i" using assms(1,2) by (auto simp: explains_def)
  then show ?thesis using assms by (cases "ls_mutex s") (auto simp: explains_def)
qed

lemma explains_inside:
  assumes "explains s a" and "inside (ls_pc s i)" and "settled p" and "t' \<le> ls_time s"
  shows "explains (goto i p (s\<lparr>ls_lim := l'\<rparr>)) (l', t')"
proof -
  have "inside (((ls_pc s)(i := p)) j) \<longleftrightarrow> ls_mutex s = Some j" for j
    using assms(1,2) settledD [OF assms(3)] by (auto simp: explains_def)
  then show ?thesis
    using assms(4) settledD [OF assms(3)] explains_holder [OF assms(1,2)] by (simp add: explains_def)
qed

lemma explains_unlock:
  assumes "explains s a" and "settled (ls_pc s i)" and "\<not> inside p"
  shows "explains (goto i p (s\<lparr>ls_mutex := None\<rparr>)) a"
proof -
  have "\<not> inside (((ls_pc s)(i := p)) j)" for j
    using assms(1,3) explains_same(3) [OF assms(1,2)] by (auto simp: explains_def)
  then show ?thesis using explains_same [OF assms(1,2)] by (simp add: explains_def)
qed

lemma explains_lock:
  assumes "explains s a" and "ls_mutex s = None"
  shows "explains (goto i (Locked sec) (s\<lparr>ls_mutex := Some i\<rparr>)) a"
  using assms by (auto simp: explains_def)

lemma explains_refill:
  assumes "explains s a" and "ls_pc s i = Locked sec"
  shows "explains (goto i (Refilled sec (ls_time s)) (s\<lparr>ls_lim := refill (ls_time s) (ls_lim s)\<rparr>)) a"
proof -
  have p: "settled (ls_pc s i)" using assms(2) by simp
  note same = explains_same [OF assms(1) p]
  have "inside (ls_pc s j) \<longleftrightarrow> ls_mutex s = Some j" for j using assms(1) by (simp add: explains_def)
  then have "inside (((ls_pc s)(i := Refilled sec (ls_time s))) j) \<longleftrightarrow> ls_mutex s = Some j" for j
    using same(3) by simp
  then show ?thesis using same(2,3) unfolding same(1) by (simp add: explains_def)
qed

lemma explains_time: "explains s a \<Longrightarrow> ls_time s \<le> t \<Longrightarrow> explains (s\<lparr>ls_time := t\<rparr>) a"
  by (auto simp: explains_def split: option.splits intro: agrees_later)

lemma threads_simulate:
  assumes "explains s a" and "lim_step s es s'"
  shows "\<exists>a'. replay atomic_step es a = Some a' \<and> explains s' a'"
  using assms(2)
proof cases
  case (time_passes u)
  then show ?thesis using explains_time [OF assms(1)] by simp
next
  case (lock i sec)
  then show ?thesis using explains_lock [OF assms(1)] by simp
next
  case (refills i sec)
  then show ?thesis using explains_refill [OF assms(1)] by simp
next
  case (token i sec now)
  note r = explains_refilled [OF assms(1) token(3)]
  let ?l = "(ls_lim s)\<lparr>rl_tokens := rl_tokens (ls_lim s) - 1\<rparr>"
  have "explains s' (?l, now)"
    unfolding token(2) using token(3) r(2) by (intro explains_inside [OF assms(1)]) simp_all
  moreover have "atomic_step (Take i now (ls_time s) None) a = Some (?l, now)"
    using token(4) r by (simp add: atomic_step_def take_or_wait_time_def Let_def)
  ultimately show ?thesis using token(1) by simp
next
  case (no_token i sec now w)
  note r = explains_refilled [OF assms(1) no_token(3)]
  have "explains (goto i (Decided sec (Some w)) (s\<lparr>ls_lim := ls_lim s\<rparr>)) (ls_lim s, now)"
    using no_token(3) r(2) by (intro explains_inside [OF assms(1)]) simp_all
  moreover have "atomic_step (Take i now (ls_time s) (Some w)) a = Some (ls_lim s, now)"
    using no_token(4,5) r by (simp add: atomic_step_def take_or_wait_time_def Let_def)
  ultimately show ?thesis using no_token(1,2) by simp
next
  case (counts i n)
  have p: "settled (ls_pc s i)" using counts by simp
  note same = explains_same [OF assms(1) p]
  have "explains s' (ls_lim s, ls_time s)"
    using explains_inside [OF assms(1), of i "Leaving (Ret_count n)" "ls_time s" "ls_lim s"] counts
    by simp
  then show ?thesis using counts(1,4) same by (simp add: atomic_step_def)
next
  case (resets i)
  have p: "settled (ls_pc s i)" using resets by simp
  note same = explains_same [OF assms(1) p]
  have "explains s' (reset (ls_time s) (ls_lim s), ls_time s)"
    unfolding resets(2) using resets(3) by (intro explains_inside [OF assms(1)]) simp_all
  then show ?thesis using resets same by (simp add: atomic_step_def)
next
  case (unlock_take i sec wait)
  then show ?thesis using explains_unlock [OF assms(1), of i] by simp
next
  case (unlock_leave i r)
  then show ?thesis using explains_unlock [OF assms(1), of i] by simp
qed (simp_all add: explains_goto_outside [OF assms(1)] split: option.split)

interpretation threads: simulation lim_step atomic_step explains
  by unfold_locales (rule threads_simulate)

lemma start_explained: "explains (lim_start c t0) (new_limiter c t0, t0)"
  by (simp add: explains_def lim_start_def)

lemmas run_explained = threads.trace_included [OF _ start_explained]

section \<open>What a call returns\<close>

text \<open>The last event of a thread decides what its call returns.\<close>

fun ev_thread :: "lim_event \<Rightarrow> nat" where
  "ev_thread (Take i _ _ _) = i"
| "ev_thread (Count i _ _) = i"
| "ev_thread (Reset i _) = i"

definition last_of :: "nat \<Rightarrow> lim_event list \<Rightarrow> lim_event option" where
  "last_of i es = List.find (\<lambda>e. ev_thread e = i) (rev es)"

lemma last_of_snoc [simp]:
  "last_of i (es @ [e]) = (if ev_thread e = i then Some e else last_of i es)"
  by (simp add: last_of_def)

definition answers :: "lim_event option \<Rightarrow> lim_result \<Rightarrow> bool" where
  "answers e r \<longleftrightarrow>
     (case r of
        Ret_bool b \<Rightarrow> (case e of Some (Take _ _ _ w) \<Rightarrow> b = (w = None) | _ \<Rightarrow> False)
      | Ret_count n \<Rightarrow> (case e of Some (Count _ _ m) \<Rightarrow> n = m | _ \<Rightarrow> False)
      | Ret_unit \<Rightarrow> (case e of Some (Reset _ _) \<Rightarrow> True | _ \<Rightarrow> False))"

definition honest :: "lim_event option \<Rightarrow> lim_pc \<Rightarrow> bool" where
  "honest e p \<longleftrightarrow>
     (case p of
        Decided _ wait \<Rightarrow> (case e of Some (Take _ _ _ w) \<Rightarrow> w = wait | _ \<Rightarrow> False)
      | Told _ wait \<Rightarrow> (case e of Some (Take _ _ _ w) \<Rightarrow> w = Some wait | _ \<Rightarrow> False)
      | Leaving r \<Rightarrow> answers e r
      | Returning r \<Rightarrow> answers e r
      | _ \<Rightarrow> True)"

lemma honest_returning: "honest e (Returning r) \<longleftrightarrow> answers e r"
  by (simp add: honest_def)

lemma honest_after_take: "honest e (Decided sec wait) \<Longrightarrow> honest e (after_take sec wait)"
  by (auto simp: honest_def answers_def after_take_def
      split: option.splits lim_event.splits lim_section.splits)

lemma honest_step:
  assumes "\<forall>i. honest (last_of i es) (ls_pc s i)" and "lim_step s e s'"
  shows "\<forall>i. honest (last_of i (es @ e)) (ls_pc s' i)"
  using assms(2)
proof cases
  case (unlock_take i sec wait)
  then have "honest (last_of i es) (after_take sec wait)" using assms(1) honest_after_take by metis
  then show ?thesis using unlock_take assms(1) by simp
next
  case (unlock_leave i r)
  then have "honest (last_of i es) (Leaving r)" using assms(1) by metis
  then show ?thesis using unlock_leave assms(1) by (simp add: honest_def)
next
  case (gives_up i d w)
  then have "honest (last_of i es) (Told (Some d) w)" using assms(1) by metis
  then show ?thesis using gives_up assms(1)
    by (auto simp: honest_def answers_def split: option.splits lim_event.splits)
qed (use assms(1) in \<open>auto simp: honest_def answers_def split: option.splits\<close>)

lemma calls_honest:
  assumes "exec lim_step (lim_start c t0) es s"
  shows "\<forall>i. honest (last_of i es) (ls_pc s i)"
  using assms
proof (induction "lim_start c t0" es s)
  case exec_none
  then show ?case by (simp add: lim_start_def honest_def)
next
  case (exec_more es s' e s'')
  then show ?case using honest_step by blast
qed

section \<open>Grants\<close>

definition is_grant :: "lim_event \<Rightarrow> bool" where
  "is_grant e \<longleftrightarrow> (case e of Take _ _ _ None \<Rightarrow> True | _ \<Rightarrow> False)"

definition is_reset :: "lim_event \<Rightarrow> bool" where
  "is_reset e \<longleftrightarrow> (case e of Reset _ _ \<Rightarrow> True | _ \<Rightarrow> False)"

fun readings :: "lim_event list \<Rightarrow> (int \<times> int) list" where
  "readings [] = []"
| "readings (Take i now now2 w # es) = (now, now2) # readings es"
| "readings (e # es) = readings es"

lemma readings_times: "set (map fst (readings es)) \<subseteq> set (map ev_time es)"
  by (induction es rule: readings.induct) auto

lemma readings_sorted: "sorted (map ev_time es) \<Longrightarrow> sorted (map fst (readings es))"
proof (induction es rule: readings.induct)
  case (2 i now now2 w es)
  then show ?case using readings_times [of es] by (auto simp: subset_iff)
qed auto

lemma atomic_step_Some:
  "atomic_step e (l, t) = Some (l', t') \<longleftrightarrow> t \<le> ev_time e \<and> t' = ev_time e \<and> ev_apply e l = Some l'"
  by (auto simp: atomic_step_def)

lemma replay_grants:
  assumes "replay atomic_step es (l, t) = Some (l', t')" and "\<forall>e \<in> set es. \<not> is_reset e"
  shows "grants acquire_call (readings es) l = (length (filter is_grant es), l')"
  using assms
proof (induction es arbitrary: l t)
  case (Cons e es)
  from Cons.prems(1) obtain l1 where l1: "ev_apply e l = Some l1"
    and r: "replay atomic_step es (l1, ev_time e) = Some (l', t')"
    by (auto simp: bind_eq_Some_conv atomic_step_Some)
  note ih = Cons.IH [OF r]
  show ?case
  proof (cases e)
    case (Take i now now2 w)
    then have "acquire_call (now, now2) l = (w = None, l1)"
      using l1 by (auto simp: acquire_call_def try_acquire_def split: prod.splits if_splits)
    then show ?thesis using ih Cons.prems(2) Take by (simp add: is_grant_def split: option.split)
  next
    case (Count i now n)
    then show ?thesis using ih Cons.prems(2) l1 by (simp add: is_grant_def split: if_splits)
  next
    case (Reset i now)
    then show ?thesis using Cons.prems(2) by (simp add: is_reset_def)
  qed
qed simp

lemma replay_times:
  assumes "replay atomic_step es (l, t) = Some (l', t')"
  shows "sorted (map ev_time es) \<and> (\<forall>e \<in> set es. t \<le> ev_time e \<and> ev_time e \<le> t') \<and> t \<le> t'"
  using assms
proof (induction es arbitrary: l t)
  case (Cons e es)
  from Cons.prems obtain l1 where "t \<le> ev_time e"
    and r: "replay atomic_step es (l1, ev_time e) = Some (l', t')"
    by (auto simp: bind_eq_Some_conv atomic_step_Some)
  then show ?case using Cons.IH [OF r] by auto
qed simp

lemma replay_ok:
  assumes "replay atomic_step es (l, t) = Some (l', t')" and "limiter_ok c l" and "rl_last l \<le> t"
  shows "limiter_ok c l' \<and> rl_last l' \<le> t'"
proof -
  let ?P = "\<lambda>a. limiter_ok c (fst a) \<and> rl_last (fst a) \<le> snd a"
  have "?P (l', t')"
  proof (rule replay_invariant [OF assms(1), of ?P])
    show "?P (l, t)" using assms(2,3) by simp
    fix e a b
    assume P: "?P a" and st: "atomic_step e a = Some b"
    obtain m u m' u' where ab: "a = (m, u)" "b = (m', u')" by force
    note st = st [unfolded ab atomic_step_Some]
    show "?P b"
    proof (cases e)
      case (Take i now now2 w)
      then have "acquire_call (now, now2) m = (w = None, m')"
        using st by (auto simp: acquire_call_def try_acquire_def split: prod.splits if_splits)
      then show ?thesis
        using limiter_metered(1) [of c m "(now, now2)" "w = None" m'] P st Take ab by simp
    next
      case (Reset i now)
      then show ?thesis using P st ab by (auto simp: reset_def limiter_ok_def)
    qed (use P st ab in \<open>auto split: if_splits\<close>)
  qed
  then show ?thesis by simp
qed

lemma replay_until:
  assumes "replay atomic_step es (l, t) = Some (l', t')" and "t \<le> b" and "\<forall>e \<in> set es. ev_time e \<le> b"
  shows "t' \<le> b"
  using assms
proof (induction es arbitrary: l t)
  case (Cons e es)
  then show ?case by (auto simp: bind_eq_Some_conv atomic_step_Some)
qed simp

section \<open>Properties\<close>

text \<open>
  C10: the limiter is linearizable. However many threads run its operations in whatever
  interleaving, at most one is inside a locked section, the outcomes of all sections are those
  of the sequential limiter when the sections run one after the other, at times that do not go
  back, the limiter in memory is the sequential one whenever the mutex is free, and every call
  returns what its own last section decided.
\<close>

theorem limiter_linearizable:
  assumes "exec lim_step (lim_start c t0) es s"
  shows "(\<exists>l t. replay atomic_step es (new_limiter c t0, t0) = Some (l, t) \<and> t \<le> ls_time s \<and>
            (ls_mutex s = None \<longrightarrow> ls_lim s = l)) \<and>
    (\<forall>i j. inside (ls_pc s i) \<and> inside (ls_pc s j) \<longrightarrow> i = j) \<and>
    (\<forall>i r. ls_pc s i = Returning r \<longrightarrow> answers (last_of i es) r)"
proof -
  obtain a where a: "replay atomic_step es (new_limiter c t0, t0) = Some a" "explains s a"
    using run_explained [OF assms] by blast
  obtain l t where lt: "a = (l, t)" by force
  have "\<exists>l t. replay atomic_step es (new_limiter c t0, t0) = Some (l, t) \<and> t \<le> ls_time s \<and>
      (ls_mutex s = None \<longrightarrow> ls_lim s = l)"
    using a lt by (auto simp: explains_def)
  moreover have "\<forall>i j. inside (ls_pc s i) \<and> inside (ls_pc s j) \<longrightarrow> i = j"
    using a(2) by (auto simp: explains_def)
  moreover have "\<forall>i r. ls_pc s i = Returning r \<longrightarrow> answers (last_of i es) r"
    using calls_honest [OF assms] honest_returning by metis
  ultimately show ?thesis by blast
qed

text \<open>
  C9: the rate is kept under threads. In any window of time without a \<open>reset\<close>, all threads
  together are granted at most a full bucket plus the tokens that the window earns.
\<close>

theorem concurrent_rate_bound:
  assumes "exec lim_step (lim_start c t0) es s" and "t1 \<le> t2"
    and "\<forall>e \<in> set es. t1 \<le> ev_time e \<and> ev_time e \<le> t2 \<longrightarrow> \<not> is_reset e"
  shows "int (length (filter is_grant (filter (\<lambda>e. t1 \<le> ev_time e \<and> ev_time e \<le> t2) es))) *
      token_ns (sanitized c) \<le> uint (rl_max_tokens (sanitized c)) * token_ns (sanitized c) + (t2 - t1)"
proof -
  let ?c = "sanitized c" and ?in = "filter (\<lambda>e. t1 \<le> ev_time e \<and> ev_time e \<le> t2) es"
  let ?before = "filter (\<lambda>e. ev_time e < t1) es" and ?after = "filter (\<lambda>e. t2 < ev_time e) es"
  obtain l t where run: "replay atomic_step es (new_limiter c t0, t0) = Some (l, t)"
    using run_explained [OF assms(1)] by force
  note times = replay_times [OF run]
  have "es = ?before @ ?in @ ?after" using times assms(2) by (intro sorted_window) simp_all
  then have "replay atomic_step (?before @ ?in @ ?after) (new_limiter c t0, t0) = Some (l, t)"
    using run by simp
  then obtain l1 u1 l2 u2 where pre: "replay atomic_step ?before (new_limiter c t0, t0) = Some (l1, u1)"
    and mid: "replay atomic_step ?in (l1, u1) = Some (l2, u2)"
    by (auto simp: replay_append_Some)
  have ok: "limiter_ok ?c l1" "rl_last l1 \<le> u1"
    using replay_ok [OF pre limiter_ok_new] by (simp_all add: new_limiter_def Let_def)
  have pos: "0 < token_ns ?c" using ok(1) by (simp add: limiter_ok_def token_ns_def)
  show ?thesis
  proof (cases "?in = []")
    case True
    then show ?thesis using pos assms(2) by simp
  next
    case False
    then obtain e where e: "e \<in> set es" "t1 \<le> ev_time e" "ev_time e \<le> t2"
      by (auto simp: filter_empty_conv)
    let ?w = "max t0 t1"
    have w: "?w \<le> t2" using e times assms(2) by force
    have "\<forall>x \<in> set ?before. ev_time x \<le> ?w" by auto
    then have "u1 \<le> ?w" by (intro replay_until [OF pre]) simp_all
    moreover have "\<forall>p \<in> set (readings ?in). ?w \<le> fst p \<and> fst p \<le> t2"
    proof -
      have "\<forall>x \<in> set (map ev_time ?in). ?w \<le> x \<and> x \<le> t2" using times by auto
      then show ?thesis using readings_times [of ?in] by (fastforce simp: subset_iff)
    qed
    moreover have "sorted (map fst (readings ?in))"
      using replay_times [OF mid] by (intro readings_sorted) blast
    moreover have "grants acquire_call (readings ?in) l1 = (length (filter is_grant ?in), l2)"
      using assms(3) by (intro replay_grants [OF mid]) auto
    ultimately have "int (length (filter is_grant ?in)) * token_ns ?c
        \<le> uint (rl_max_tokens ?c) * token_ns ?c + (t2 - ?w)"
      using ok w pos by (intro bucket.window [OF ok(1)]) auto
    then show ?thesis by simp
  qed
qed

section \<open>Progress\<close>

text \<open>The steps a thread has left inside the mutex.\<close>

definition steps_inside :: "lim_pc \<Rightarrow> nat" where
  "steps_inside p =
     (case p of Locked _ \<Rightarrow> 3 | Refilled _ _ \<Rightarrow> 2 | Decided _ _ \<Rightarrow> 1 | Leaving _ \<Rightarrow> 1 | _ \<Rightarrow> 0)"

lemma steps_inside_simps [simp]:
  "steps_inside (Locked sec) = 3" "steps_inside (Refilled sec t) = 2" "steps_inside (Decided sec w) = 1"
  "steps_inside (Leaving r) = 1" "steps_inside (after_take sec w) = 0" "steps_inside (Returning r) = 0"
  by (simp_all add: steps_inside_def after_take_def split: lim_section.split option.split)

text \<open>The holder of the mutex always has a step, which needs no other thread and no time.\<close>

lemma holder_steps:
  assumes "inside (ls_pc s j)"
  shows "\<exists>e s'. lim_step s e s' \<and> steps_inside (ls_pc s' j) < steps_inside (ls_pc s j)"
proof (cases "ls_pc s j")
  case (Locked sec)
  show ?thesis
  proof (cases sec)
    case Sec_available
    then show ?thesis using lim_step.counts [of s j] Locked by force
  next
    case Sec_reset
    then show ?thesis using lim_step.resets [of s j] Locked by force
  qed (use lim_step.refills [of s j sec] Locked in \<open>force simp: takes_def\<close>)+
next
  case (Refilled sec now)
  show ?thesis
  proof (cases "0 < rl_tokens (ls_lim s)")
    case True
    then show ?thesis using lim_step.token [of s j sec now] Refilled by force
  next
    case False
    then have "rl_tokens (ls_lim s) = 0" by (simp add: word_gt_0)
    then show ?thesis using lim_step.no_token [OF Refilled _ refl] Refilled by force
  qed
next
  case (Decided sec w)
  then show ?thesis using lim_step.unlock_take [of s j sec w] by force
next
  case (Leaving r)
  then show ?thesis using lim_step.unlock_leave [of s j r] by force
qed (use assms in simp_all)

text \<open>A thread that is in a call and not waiting for the mutex can go on, at the latest after a while.\<close>

lemma thread_steps:
  assumes "ls_pc s i \<noteq> Outside" and "\<And>sec. ls_pc s i = Want sec \<Longrightarrow> ls_mutex s = None"
  shows "\<exists>t e s'. ls_time s \<le> t \<and> lim_step (s\<lparr>ls_time := t\<rparr>) e s' \<and> ls_pc s' i \<noteq> ls_pc s i"
proof -
  have now: ?thesis if "lim_step s e s'" and "ls_pc s' i \<noteq> ls_pc s i" for e s'
    using that by (intro exI [of _ "ls_time s"] exI [of _ e] exI [of _ s']) simp
  show ?thesis
  proof (cases "inside (ls_pc s i)")
    case True
    then show ?thesis using holder_steps [OF True] now by fastforce
  next
    case False
    show ?thesis
    proof (cases "ls_pc s i")
      case (Entry_for w)
      then show ?thesis using now [OF lim_step.entry] by simp
    next
      case (Want sec)
      then show ?thesis using now [OF lim_step.lock] assms(2) by simp
    next
      case (Told d w)
      show ?thesis
      proof (cases "\<exists>t. d = Some t \<and> t - ls_time s < w")
        case True
        then show ?thesis using Told now [OF lim_step.gives_up] by auto
      next
        case False
        then have "case d of Some t \<Rightarrow> w \<le> t - ls_time s | None \<Rightarrow> True" by (cases d) auto
        then show ?thesis using Told now [OF lim_step.sleeps] by simp
      qed
    next
      case (Sleeping d u)
      let ?s = "s\<lparr>ls_time := max u (ls_time s)\<rparr>"
      have "lim_step ?s [] (goto i (Want (Sec_loop d)) ?s)"
        using lim_step.wakes [of ?s i d u] Sleeping by (simp add: le_max_iff_disj)
      then show ?thesis using Sleeping by (intro exI [of _ "max u (ls_time s)"]) (force simp: le_max_iff_disj)
    next
      case (Returning r)
      then show ?thesis using now [OF lim_step.returns] by simp
    qed (use False assms(1) in simp_all)
  qed
qed

text \<open>Only its own steps move a thread, and inside the mutex each one brings it closer to the exit.\<close>

lemma inside_shrinks:
  assumes "lim_step s e s'" and "inside (ls_pc s j)"
  shows "ls_pc s' j = ls_pc s j \<or> steps_inside (ls_pc s' j) < steps_inside (ls_pc s j)"
  using assms by cases (auto split: if_splits)

text \<open>
  C29: no deadlock. In every reachable state a thread inside a call can go on, if need be after
  some time, unless it waits for the mutex; then the holder can go on at once, and whatever
  the threads do the holder's own steps, at most three, end with the release.
\<close>

theorem limiter_progress:
  assumes "exec lim_step (lim_start c t0) es s" and "ls_pc s i \<noteq> Outside"
  shows "(\<exists>t e s'. ls_time s \<le> t \<and> lim_step (s\<lparr>ls_time := t\<rparr>) e s' \<and> ls_pc s' i \<noteq> ls_pc s i) \<or>
    (\<exists>j. ls_mutex s = Some j \<and> j \<noteq> i \<and> steps_inside (ls_pc s j) \<in> {1, 2, 3} \<and>
       (\<exists>e s'. lim_step s e s' \<and> steps_inside (ls_pc s' j) < steps_inside (ls_pc s j)) \<and>
       (\<forall>e s'. lim_step s e s' \<longrightarrow>
          ls_pc s' j = ls_pc s j \<or> steps_inside (ls_pc s' j) < steps_inside (ls_pc s j)))"
proof (cases "(\<exists>sec. ls_pc s i = Want sec) \<and> ls_mutex s \<noteq> None")
  case False
  then have "ls_mutex s = None" if "ls_pc s i = Want sec" for sec using that by simp
  then show ?thesis using thread_steps [OF assms(2)] by simp
next
  case True
  then obtain j where j: "ls_mutex s = Some j" by blast
  have ins: "inside (ls_pc s j)" using run_explained [OF assms(1)] j by (auto simp: explains_def)
  then have "j \<noteq> i" using True by auto
  moreover have "steps_inside (ls_pc s j) \<in> {1, 2, 3}" using ins by (cases "ls_pc s j") simp_all
  ultimately show ?thesis using j holder_steps [OF ins] inside_shrinks [OF _ ins] by blast
qed

section \<open>A concrete execution\<close>

text \<open>Two threads call \<open>try_acquire\<close>; the first gets a token while the second waits for the mutex.\<close>

definition sample_lim0 :: lim_state where
  "sample_lim0 = goto 1 (Want Sec_try) (goto 0 (Want Sec_try) (lim_start sample_rate 0))"

definition sample_lim1 :: lim_state where
  "sample_lim1 =
     (let s = sample_lim0\<lparr>ls_mutex := Some 0, ls_lim := refill 0 (ls_lim sample_lim0)\<rparr>
      in goto 0 (Refilled Sec_try 0) s)"

definition sample_lim2 :: lim_state where
  "sample_lim2 =
     goto 0 (Decided Sec_try None)
       (sample_lim1\<lparr>ls_lim := (ls_lim sample_lim1)\<lparr>rl_tokens := rl_tokens (ls_lim sample_lim1) - 1\<rparr>\<rparr>)"

lemma sample_lim_tokens: "rl_tokens (ls_lim sample_lim1) = 2"
  by (simp add: sample_lim1_def sample_lim0_def lim_start_def new_limiter_def sanitized_def
      sample_rate_def refill_def Let_def)

lemma sample_lim_exec: "exec lim_step (lim_start sample_rate 0) [Take 0 0 0 None] sample_lim2"
proof -
  let ?s0 = "lim_start sample_rate 0"
  let ?sa = "goto 0 (Want Sec_try) ?s0"
  let ?sl = "goto 0 (Locked Sec_try) (sample_lim0\<lparr>ls_mutex := Some 0\<rparr>)"
  have "lim_step ?s0 [] ?sa" by (rule lim_step.call_section) (simp_all add: lim_start_def)
  then have e0: "exec lim_step ?s0 [] ?sa" by (rule exec_silent [OF exec_none])
  have "lim_step ?sa [] sample_lim0"
    unfolding sample_lim0_def by (rule lim_step.call_section) (simp_all add: lim_start_def)
  with e0 have e1: "exec lim_step ?s0 [] sample_lim0" by (rule exec_silent)
  have "lim_step sample_lim0 [] ?sl"
    by (rule lim_step.lock) (simp_all add: sample_lim0_def lim_start_def)
  with e1 have e2: "exec lim_step ?s0 [] ?sl" by (rule exec_silent)
  have "lim_step ?sl [] sample_lim1"
    using lim_step.refills [of ?sl 0 Sec_try]
    by (simp add: sample_lim1_def Let_def takes_def goto_def) (simp add: sample_lim0_def lim_start_def)
  with e2 have e3: "exec lim_step ?s0 [] sample_lim1" by (rule exec_silent)
  have "ls_time sample_lim1 = 0" "ls_pc sample_lim1 0 = Refilled Sec_try 0"
    by (simp_all add: sample_lim1_def sample_lim0_def lim_start_def Let_def)
  then have "lim_step sample_lim1 [Take 0 0 0 None] sample_lim2"
    using lim_step.token [of sample_lim1 0 Sec_try 0] sample_lim_tokens
    by (simp add: sample_lim2_def)
  with e3 show ?thesis using exec_more by fastforce
qed

theorem limiter_linearizable_witness:
  "(\<exists>l t. replay atomic_step [Take 0 0 0 None] (new_limiter sample_rate 0, 0) = Some (l, t)) \<and>
   inside (ls_pc sample_lim2 0) \<and> \<not> inside (ls_pc sample_lim2 1)"
  using limiter_linearizable [OF sample_lim_exec]
  by (auto simp: sample_lim2_def sample_lim1_def sample_lim0_def Let_def)

theorem concurrent_rate_bound_witness:
  "int (length (filter is_grant (filter (\<lambda>e. 0 \<le> ev_time e \<and> ev_time e \<le> 5) [Take 0 0 0 None]))) *
     100000000 \<le> 200000005"
  using concurrent_rate_bound [OF sample_lim_exec, of 0 5]
  by (simp add: is_reset_def token_ns_def sanitized_def sample_rate_def Let_def)

theorem limiter_progress_witness:
  "ls_pc sample_lim2 1 = Want Sec_try \<and>
   (\<exists>e s'. lim_step sample_lim2 e s' \<and> steps_inside (ls_pc s' 0) < steps_inside (ls_pc sample_lim2 0))"
proof -
  have pc: "ls_pc sample_lim2 1 = Want Sec_try" "ls_mutex sample_lim2 = Some 0"
    by (simp_all add: sample_lim2_def sample_lim1_def sample_lim0_def Let_def)
  have "\<not> (lim_step (sample_lim2\<lparr>ls_time := t\<rparr>) e s' \<and> ls_pc s' 1 \<noteq> ls_pc sample_lim2 1)" for t e s'
    using pc by (auto elim!: lim_stepE split: if_splits)
  then show ?thesis using limiter_progress [OF sample_lim_exec, of 1] pc by auto
qed

end
