(* ===== verification/Curl_Runtime.thy ===== *)
theory Curl_Runtime
  imports Prelude
begin

text \<open>
  The lifetime of libcurl in \<open>src/http/client.cpp\<close>: the process-wide \<open>CurlRuntime\<close> behind a static
  \<open>shared_ptr\<close>, the reference that each \<open>HttpClient::Impl\<close> keeps to it, and the construction,
  moves and destruction of \<open>HttpClient\<close>. The store has the library's own state (is it initialised,
  which easy handles are open) and the C++ objects; a call of libcurl that its documentation
  forbids is \<open>None\<close>: a use of the library before its initialisation or behind its clean-up, a
  clean-up with open handles, a handle closed twice. Pointers and handles are numbers.
\<close>

section \<open>The store\<close>

datatype static_ptr = Not_yet | Holds | Gone

record curl_world =
  cw_inits :: nat
  cw_cleanups :: nat
  cw_easy :: "nat set"
  cw_runtime :: "bool option"
  cw_static :: static_ptr
  cw_refs :: nat
  cw_impls :: "nat \<rightharpoonup> nat option"
  cw_clients :: "nat \<rightharpoonup> nat option"

text \<open>
  \<open>cw_inits\<close> and \<open>cw_cleanups\<close> count the successful \<open>curl_global_init\<close> and the
  \<open>curl_global_cleanup\<close> calls, \<open>cw_easy\<close> are the open easy handles. \<open>cw_runtime\<close> is the
  \<open>CurlRuntime\<close> object while it exists, whether its status is \<open>CURLE_OK\<close>; \<open>cw_static\<close> is the
  function-local static of \<open>runtime()\<close> and \<open>cw_refs\<close> the use count. \<open>cw_impls\<close> are the
  \<open>Impl\<close> objects with their \<open>curl\<close> member, \<open>cw_clients\<close> the \<open>HttpClient\<close> objects with \<open>impl_\<close>.
\<close>

definition curl_start :: curl_world where
  "curl_start =
     \<lparr>cw_inits = 0, cw_cleanups = 0, cw_easy = {}, cw_runtime = None, cw_static = Not_yet,
      cw_refs = 0, cw_impls = Map.empty, cw_clients = Map.empty\<rparr>"

definition curl_usable :: "curl_world \<Rightarrow> bool" where
  "curl_usable w \<longleftrightarrow> cw_cleanups w < cw_inits w"

definition global_init :: "bool \<Rightarrow> curl_world \<Rightarrow> curl_world" where
  "global_init ok w = (if ok then w\<lparr>cw_inits := cw_inits w + 1\<rparr> else w)"

definition global_cleanup :: "curl_world \<Rightarrow> curl_world option" where
  "global_cleanup w =
     (if curl_usable w \<and> cw_easy w = {} then Some (w\<lparr>cw_cleanups := cw_cleanups w + 1\<rparr>) else None)"

definition easy_init :: "nat \<Rightarrow> curl_world \<Rightarrow> curl_world option" where
  "easy_init e w =
     (if curl_usable w \<and> e \<notin> cw_easy w then Some (w\<lparr>cw_easy := insert e (cw_easy w)\<rparr>) else None)"

definition easy_cleanup :: "nat \<Rightarrow> curl_world \<Rightarrow> curl_world option" where
  "easy_cleanup e w =
     (if curl_usable w \<and> e \<in> cw_easy w then Some (w\<lparr>cw_easy := cw_easy w - {e}\<rparr>) else None)"

section \<open>The operations\<close>

text \<open>The constructor and the destructor of \<open>CurlRuntime\<close>.\<close>

definition make_runtime :: "bool \<Rightarrow> curl_world \<Rightarrow> curl_world" where
  "make_runtime ok w = (global_init ok w)\<lparr>cw_runtime := Some ok\<rparr>"

definition destroy_runtime :: "curl_world \<Rightarrow> curl_world option" where
  "destroy_runtime w =
     (case cw_runtime w of
        None \<Rightarrow> None
      | Some ok \<Rightarrow>
          map_option (\<lambda>w. w\<lparr>cw_runtime := None\<rparr>) (if ok then global_cleanup w else Some w))"

text \<open>
  \<open>runtime()\<close>: the first call constructs the static pointer, every call returns a copy of it.
  \<open>ok\<close> is what \<open>curl_global_init\<close> answers. A call behind the end of the static is an error.
\<close>

definition get_runtime :: "bool \<Rightarrow> curl_world \<Rightarrow> curl_world option" where
  "get_runtime ok w =
     (case cw_static w of
        Not_yet \<Rightarrow> Some ((make_runtime ok w)\<lparr>cw_static := Holds, cw_refs := 2\<rparr>)
      | Holds \<Rightarrow> Some (w\<lparr>cw_refs := cw_refs w + 1\<rparr>)
      | Gone \<Rightarrow> None)"

text \<open>The destructor of one \<open>shared_ptr\<close> to the runtime; the last one destroys the runtime.\<close>

definition drop_runtime :: "curl_world \<Rightarrow> curl_world option" where
  "drop_runtime w =
     (if cw_refs w = 0 then None
      else
        (let w' = w\<lparr>cw_refs := cw_refs w - 1\<rparr>
         in if cw_refs w' = 0 then destroy_runtime w' else Some w'))"

text \<open>
  The constructor of \<open>Impl\<close>, its members in their order: the reference, the configuration (which
  libcurl does not see), the easy handle, if the status is good. \<open>easy\<close> is what \<open>curl_easy_init\<close>
  returns. The destructor closes the handle, then the members go in the opposite order.
\<close>

definition create_impl :: "nat \<Rightarrow> bool \<Rightarrow> nat option \<Rightarrow> curl_world \<Rightarrow> curl_world option" where
  "create_impl p ok easy w =
     (case get_runtime ok w of
        None \<Rightarrow> None
      | Some w1 \<Rightarrow>
          if cw_runtime w1 = Some True then
            (case easy of
               None \<Rightarrow> Some (w1\<lparr>cw_impls := (cw_impls w1)(p \<mapsto> None)\<rparr>)
             | Some e \<Rightarrow> map_option (\<lambda>w2. w2\<lparr>cw_impls := (cw_impls w2)(p \<mapsto> Some e)\<rparr>) (easy_init e w1))
          else Some (w1\<lparr>cw_impls := (cw_impls w1)(p \<mapsto> None)\<rparr>))"

definition destroy_impl :: "nat \<Rightarrow> curl_world \<Rightarrow> curl_world option" where
  "destroy_impl p w =
     (case cw_impls w p of
        None \<Rightarrow> None
      | Some curl \<Rightarrow>
          (case (case curl of Some e \<Rightarrow> easy_cleanup e w | None \<Rightarrow> Some w) of
             None \<Rightarrow> None
           | Some w1 \<Rightarrow> drop_runtime (w1\<lparr>cw_impls := (cw_impls w1)(p := None)\<rparr>)))"

datatype client_op =
    Client_new nat nat bool "nat option"
  | Client_delete nat
  | Client_move nat nat
  | Client_assign nat nat
  | Static_exit

text \<open>
  \<open>Client_new x p ok easy\<close> constructs the client \<open>x\<close> with an \<open>Impl\<close> at \<open>p\<close>; \<open>Client_move x y\<close> and
  \<open>Client_assign x y\<close> are the defaulted moves from \<open>x\<close> to \<open>y\<close>, where \<open>unique_ptr\<close> first releases
  the source, then replaces the pointer of the target, then deletes what it had;
  \<open>Static_exit\<close> is the destruction of the static at the end of the process.
\<close>

fun delete_impl :: "nat option \<Rightarrow> curl_world \<Rightarrow> curl_world option" where
  "delete_impl None w = Some w"
| "delete_impl (Some p) w = destroy_impl p w"

fun run_client :: "client_op \<Rightarrow> curl_world \<Rightarrow> curl_world option" where
  "run_client (Client_new x p ok easy) w =
     map_option (\<lambda>w'. w'\<lparr>cw_clients := (cw_clients w')(x \<mapsto> Some p)\<rparr>) (create_impl p ok easy w)"
| "run_client (Client_delete x) w =
     (case cw_clients w x of
        None \<Rightarrow> None
      | Some impl \<Rightarrow> delete_impl impl (w\<lparr>cw_clients := (cw_clients w)(x := None)\<rparr>))"
| "run_client (Client_move x y) w =
     (case cw_clients w x of
        None \<Rightarrow> None
      | Some impl \<Rightarrow> Some (w\<lparr>cw_clients := (cw_clients w)(x \<mapsto> None, y \<mapsto> impl)\<rparr>))"
| "run_client (Client_assign x y) w =
     (case cw_clients w x of
        None \<Rightarrow> None
      | Some impl \<Rightarrow>
          (let released = (cw_clients w)(x \<mapsto> None)
           in case released y of
                None \<Rightarrow> None
              | Some old \<Rightarrow> delete_impl old (w\<lparr>cw_clients := released(y \<mapsto> impl)\<rparr>)))"
| "run_client Static_exit w =
     (case cw_static w of
        Not_yet \<Rightarrow> Some (w\<lparr>cw_static := Gone\<rparr>)
      | Holds \<Rightarrow> drop_runtime (w\<lparr>cw_static := Gone\<rparr>)
      | Gone \<Rightarrow> None)"

text \<open>
  What a program may do: construct at fresh places before the end of the static, move from and
  delete what exists; new memory and new handles are not in use.
\<close>

fun client_allowed :: "client_op \<Rightarrow> curl_world \<Rightarrow> bool" where
  "client_allowed (Client_new x p ok easy) w \<longleftrightarrow>
     cw_clients w x = None \<and> cw_impls w p = None \<and> cw_static w \<noteq> Gone \<and>
     (case easy of Some e \<Rightarrow> e \<notin> cw_easy w | None \<Rightarrow> True)"
| "client_allowed (Client_delete x) w \<longleftrightarrow> cw_clients w x \<noteq> None"
| "client_allowed (Client_move x y) w \<longleftrightarrow> cw_clients w x \<noteq> None \<and> cw_clients w y = None"
| "client_allowed (Client_assign x y) w \<longleftrightarrow> cw_clients w x \<noteq> None \<and> cw_clients w y \<noteq> None"
| "client_allowed Static_exit w \<longleftrightarrow> cw_static w \<noteq> Gone"

inductive reachable_curl :: "curl_world \<Rightarrow> bool" where
  reachable_start: "reachable_curl curl_start"
| reachable_op: "reachable_curl w \<Longrightarrow> client_allowed p w \<Longrightarrow> run_client p w = Some w' \<Longrightarrow> reachable_curl w'"

section \<open>Exclusive owners\<close>

text \<open>
  A map from objects to an optional member owns the set \<open>S\<close> when each element is the member
  of exactly one object: easy handles in \<open>Impl\<close> objects, \<open>Impl\<close> objects in clients.
\<close>

definition member_is :: "(nat \<rightharpoonup> nat option) \<Rightarrow> nat \<Rightarrow> nat \<Rightarrow> bool" where
  "member_is m x p \<longleftrightarrow> m x = Some (Some p)"

definition owners :: "(nat \<rightharpoonup> nat option) \<Rightarrow> nat set \<Rightarrow> bool" where
  "owners m S \<longleftrightarrow>
     (\<forall>p. p \<in> S \<longleftrightarrow> (\<exists>x. member_is m x p)) \<and>
     (\<forall>x y p. member_is m x p \<and> member_is m y p \<longrightarrow> x = y)"

lemma member_upd:
  "member_is (m(x := c)) y p \<longleftrightarrow> (if y = x then c = Some (Some p) else member_is m y p)"
  by (simp add: member_is_def)

lemma owners_new:
  assumes "owners m S" and "m x = None" and "p \<notin> S"
  shows "owners (m(x \<mapsto> Some p)) (insert p S)"
proof -
  have "member_is (m(x \<mapsto> Some p)) y q \<longleftrightarrow> member_is m y q \<or> (y = x \<and> q = p)" for y q
    using assms(2) by (auto simp: member_is_def)
  moreover have "\<not> member_is m y p" for y using assms(1,3) unfolding owners_def by blast
  ultimately show ?thesis using assms(1) unfolding owners_def by (auto 0 3)
qed

lemma owners_forget:
  assumes "owners m S" and "m x = Some (Some p)" and "\<And>q. c \<noteq> Some (Some q)"
  shows "p \<in> S" and "owners (m(x := c)) (S - {p})"
proof -
  have x: "member_is m x p" using assms(2) by (simp add: member_is_def)
  then show "p \<in> S" using assms(1) unfolding owners_def by blast
  have "member_is (m(x := c)) y q \<longleftrightarrow> member_is m y q \<and> q \<noteq> p" for y q
  proof (cases "y = x")
    case True
    then show ?thesis using assms(2,3) by (auto simp: member_is_def)
  next
    case False
    then show ?thesis using assms(1) x unfolding owners_def by (auto simp: member_upd)
  qed
  then show "owners (m(x := c)) (S - {p})" using assms(1) unfolding owners_def by blast
qed

lemma owners_none:
  assumes "owners m S" and "\<And>q. m x \<noteq> Some (Some q)" and "\<And>q. c \<noteq> Some (Some q)"
  shows "owners (m(x := c)) S"
proof -
  have "member_is (m(x := c)) y q \<longleftrightarrow> member_is m y q" for y q
    using assms(2,3) by (auto simp: member_is_def)
  then show ?thesis using assms(1) unfolding owners_def by blast
qed

lemma owners_give:
  assumes "owners m S" and "\<And>q. m y \<noteq> Some (Some q)" and "m x = Some v" and "x \<noteq> y"
  shows "owners (m(x \<mapsto> None, y \<mapsto> v)) S"
proof -
  define f where "f z = (if z = y then x else if z = x then y else z)" for z
  have inv: "f (f z) = z" for z by (simp add: f_def)
  have eq: "member_is (m(x \<mapsto> None, y \<mapsto> v)) z q \<longleftrightarrow> member_is m (f z) q" for z q
    using assms(2-4) by (simp add: member_is_def f_def)
  show ?thesis
    unfolding owners_def eq
  proof (intro conjI allI impI)
    show "q \<in> S \<longleftrightarrow> (\<exists>z. member_is m (f z) q)" for q
      using assms(1) inv unfolding owners_def by metis
    show "z = z'" if "member_is m (f z) q \<and> member_is m (f z') q" for z z' q
    proof -
      have "f z = f z'" using assms(1) that unfolding owners_def by blast
      then show ?thesis using inv by metis
    qed
  qed
qed

lemma owners_drop:
  assumes "owners m S" and "m x = Some c"
  shows "owners (m(x := None)) (S - set_option c)"
  using owners_forget(2) [OF assms(1), of x] owners_none [OF assms(1), of x None] assms(2)
  by (cases c) auto

section \<open>The invariant\<close>

text \<open>
  The use count is the number of references: the static, one per \<open>Impl\<close>, and \<open>n\<close> that an
  operation holds at the moment. The library is usable exactly while a runtime with a good
  status exists; it was initialised at most once.
\<close>

definition runtime_ok :: "nat \<Rightarrow> curl_world \<Rightarrow> bool" where
  "runtime_ok n w \<longleftrightarrow>
     finite (dom (cw_impls w)) \<and>
     cw_refs w = (if cw_static w = Holds then 1 else 0) + card (dom (cw_impls w)) + n \<and>
     (cw_runtime w = None \<longleftrightarrow> cw_refs w = 0) \<and>
     cw_cleanups w \<le> cw_inits w \<and> cw_inits w \<le> 1 \<and>
     (curl_usable w \<longleftrightarrow> cw_runtime w = Some True) \<and>
     (cw_static w = Not_yet \<longrightarrow> cw_inits w = 0 \<and> cw_refs w = 0)"

text \<open>Every open handle belongs to one \<open>Impl\<close>, and then the library is usable.\<close>

definition easy_ok :: "curl_world \<Rightarrow> bool" where
  "easy_ok w \<longleftrightarrow> owners (cw_impls w) (cw_easy w) \<and> (cw_easy w \<noteq> {} \<longrightarrow> curl_usable w)"

definition curl_inv :: "curl_world \<Rightarrow> bool" where
  "curl_inv w \<longleftrightarrow> runtime_ok 0 w \<and> easy_ok w \<and> owners (cw_clients w) (dom (cw_impls w))"

text \<open>What an operation on the runtime leaves alone.\<close>

definition same_objects :: "curl_world \<Rightarrow> curl_world \<Rightarrow> bool" where
  "same_objects w w' \<longleftrightarrow>
     cw_impls w' = cw_impls w \<and> cw_easy w' = cw_easy w \<and> cw_clients w' = cw_clients w"

lemma runtime_ok_easy [simp]:
  "runtime_ok n (w\<lparr>cw_easy := E\<rparr>) \<longleftrightarrow> runtime_ok n w"
  "runtime_ok n (w\<lparr>cw_easy := E, cw_impls := I\<rparr>) \<longleftrightarrow> runtime_ok n (w\<lparr>cw_impls := I\<rparr>)"
  "runtime_ok n (w\<lparr>cw_clients := C\<rparr>) \<longleftrightarrow> runtime_ok n w"
  by (simp_all add: runtime_ok_def curl_usable_def)

lemma easy_ok_clients [simp]: "easy_ok (w\<lparr>cw_clients := C\<rparr>) \<longleftrightarrow> easy_ok w"
  by (simp add: easy_ok_def curl_usable_def)

lemma get_runtime_ok:
  assumes "runtime_ok 0 w" and "cw_static w \<noteq> Gone"
  obtains w1 where "get_runtime ok w = Some w1" and "runtime_ok 1 w1" and "same_objects w w1"
    and "cw_static w1 = Holds" and "curl_usable w \<Longrightarrow> curl_usable w1"
proof (cases "cw_static w")
  case Not_yet
  let ?w = "(make_runtime ok w)\<lparr>cw_static := Holds, cw_refs := 2\<rparr>"
  have "runtime_ok 1 ?w"
    using assms(1) Not_yet by (auto simp: runtime_ok_def make_runtime_def global_init_def curl_usable_def)
  moreover have "same_objects w ?w" "curl_usable w \<Longrightarrow> curl_usable ?w"
    by (auto simp: same_objects_def make_runtime_def global_init_def curl_usable_def)
  ultimately show ?thesis using that [of ?w] Not_yet by (simp add: get_runtime_def)
next
  case Holds
  let ?w = "w\<lparr>cw_refs := cw_refs w + 1\<rparr>"
  have "runtime_ok 1 ?w" using assms(1) Holds by (auto simp: runtime_ok_def curl_usable_def)
  then show ?thesis
    using that [of ?w] Holds by (simp add: get_runtime_def same_objects_def curl_usable_def)
qed (use assms(2) in simp)

lemma drop_runtime_ok:
  assumes "runtime_ok (Suc n) w" and "easy_ok w"
  obtains w' where "drop_runtime w = Some w'" and "runtime_ok n w'" and "same_objects w w'"
    and "cw_static w' = cw_static w" and "easy_ok w'"
proof (cases "cw_refs w = 1")
  case False
  let ?w = "w\<lparr>cw_refs := cw_refs w - 1\<rparr>"
  have "drop_runtime w = Some ?w"
    using assms(1) False by (auto simp: drop_runtime_def runtime_ok_def Let_def)
  moreover have "runtime_ok n ?w"
    using assms(1) False by (auto simp: runtime_ok_def curl_usable_def)
  moreover have "easy_ok ?w" using assms(2) by (simp add: easy_ok_def curl_usable_def)
  ultimately show ?thesis using that [of ?w] by (simp add: same_objects_def)
next
  case True
  then have none: "dom (cw_impls w) = {}" and n: "n = 0" and st: "cw_static w \<noteq> Holds" "cw_static w \<noteq> Not_yet"
    using assms(1) by (auto simp: runtime_ok_def split: if_splits)
  then have easy: "cw_easy w = {}"
    using assms(2) by (auto simp: easy_ok_def owners_def member_is_def)
  obtain ok where ok: "cw_runtime w = Some ok" using assms(1) True by (auto simp: runtime_ok_def)
  define w1 where "w1 = (if ok then w\<lparr>cw_refs := 0, cw_cleanups := cw_cleanups w + 1\<rparr> else w\<lparr>cw_refs := 0\<rparr>)"
  have "curl_usable w \<longleftrightarrow> ok" using assms(1) ok by (auto simp: runtime_ok_def)
  then have "drop_runtime w = Some (w1\<lparr>cw_runtime := None\<rparr>)"
    using True ok easy by (auto simp: drop_runtime_def destroy_runtime_def global_cleanup_def
        curl_usable_def w1_def Let_def)
  moreover have "runtime_ok n (w1\<lparr>cw_runtime := None\<rparr>)"
    using assms(1) True ok none n st by (auto simp: runtime_ok_def w1_def curl_usable_def)
  moreover have "easy_ok (w1\<lparr>cw_runtime := None\<rparr>)"
    using assms(2) easy by (auto simp: easy_ok_def w1_def)
  ultimately show ?thesis using that by (auto simp: same_objects_def w1_def)
qed

lemma add_impl:
  assumes "runtime_ok 1 w" and "cw_impls w p = None"
  shows "runtime_ok 0 (w\<lparr>cw_impls := (cw_impls w)(p \<mapsto> c)\<rparr>)"
  using assms by (auto simp: runtime_ok_def curl_usable_def card_insert_if domIff)

lemma remove_impl:
  assumes "runtime_ok 0 w" and "cw_impls w p = Some c"
  shows "runtime_ok 1 (w\<lparr>cw_impls := (cw_impls w)(p := None)\<rparr>)"
proof -
  have "p \<in> dom (cw_impls w)" using assms(2) by auto
  moreover from this have "0 < card (dom (cw_impls w))"
    using assms(1) by (auto simp: runtime_ok_def card_gt_0_iff)
  ultimately show ?thesis using assms by (auto simp: runtime_ok_def curl_usable_def card_Diff_singleton)
qed

lemma create_impl_ok:
  assumes "runtime_ok 0 w" and "easy_ok w" and "cw_static w \<noteq> Gone" and "cw_impls w p = None"
    and "\<And>e. easy = Some e \<Longrightarrow> e \<notin> cw_easy w"
  obtains w' c where "create_impl p ok easy w = Some w'" and "runtime_ok 0 w'" and "easy_ok w'"
    and "cw_impls w' = (cw_impls w)(p \<mapsto> c)" and "cw_clients w' = cw_clients w"
proof -
  obtain w1 where w1: "get_runtime ok w = Some w1" "runtime_ok 1 w1" "same_objects w w1"
      "curl_usable w \<Longrightarrow> curl_usable w1"
    using get_runtime_ok [OF assms(1,3)] by metis
  note same = w1(3) [unfolded same_objects_def]
  have easy1: "easy_ok w1" using assms(2) same w1(4) by (auto simp: easy_ok_def)
  have free: "cw_impls w1 p = None" using assms(4) same by simp
  show ?thesis
  proof (cases "cw_runtime w1 = Some True \<and> easy \<noteq> None")
    case False
    let ?w = "w1\<lparr>cw_impls := (cw_impls w1)(p \<mapsto> None)\<rparr>"
    have "create_impl p ok easy w = Some ?w"
      using False w1(1) by (auto simp: create_impl_def split: option.split)
    moreover have "easy_ok ?w"
      using easy1 free owners_none [of "cw_impls w1" _ p] by (simp add: easy_ok_def curl_usable_def)
    ultimately show ?thesis using that [of ?w None] add_impl [OF w1(2) free] same by simp
  next
    case True
    then obtain e where e: "easy = Some e" by blast
    have fresh: "e \<notin> cw_easy w1" using assms(5) e same by simp
    have use: "curl_usable w1" using True w1(2) by (auto simp: runtime_ok_def)
    let ?w = "w1\<lparr>cw_easy := insert e (cw_easy w1), cw_impls := (cw_impls w1)(p \<mapsto> Some e)\<rparr>"
    have "create_impl p ok easy w = Some ?w"
      using True w1(1) e fresh use by (simp add: create_impl_def easy_init_def)
    moreover have "easy_ok ?w"
      using easy1 free fresh use owners_new [of "cw_impls w1" _ p e]
      by (simp add: easy_ok_def curl_usable_def)
    moreover have "runtime_ok 0 ?w"
      using add_impl [OF w1(2) free, of "Some e"] by simp
    ultimately show ?thesis using that [of ?w "Some e"] same by simp
  qed
qed

lemma destroy_impl_ok:
  assumes "runtime_ok 0 w" and "easy_ok w" and "p \<in> dom (cw_impls w)"
  obtains w' where "destroy_impl p w = Some w'" and "runtime_ok 0 w'" and "easy_ok w'"
    and "cw_impls w' = (cw_impls w)(p := None)" and "cw_clients w' = cw_clients w"
proof -
  obtain c where c: "cw_impls w p = Some c" using assms(3) by blast
  define w1 where "w1 = (case c of Some e \<Rightarrow> w\<lparr>cw_easy := cw_easy w - {e}\<rparr> | None \<Rightarrow> w)"
  have closed: "(case c of Some e \<Rightarrow> easy_cleanup e w | None \<Rightarrow> Some w) = Some w1"
  proof (cases c)
    case (Some e)
    then have "e \<in> cw_easy w"
      using assms(2) c owners_forget(1) [of "cw_impls w" _ p e None] by (simp add: easy_ok_def)
    then show ?thesis using Some assms(2) by (auto simp: w1_def easy_cleanup_def easy_ok_def)
  qed (simp add: w1_def)
  let ?w = "w1\<lparr>cw_impls := (cw_impls w1)(p := None)\<rparr>"
  have same: "cw_impls w1 = cw_impls w" "cw_clients w1 = cw_clients w"
    by (simp_all add: w1_def split: option.split)
  have "runtime_ok 0 w1"
    using assms(1) by (cases c) (simp_all add: w1_def)
  then have run: "runtime_ok (Suc 0) ?w" using remove_impl [of w1 p c] c same by simp
  have easy: "easy_ok ?w"
    using assms(2) c owners_drop [of "cw_impls w" _ p c]
    by (cases c) (auto simp: easy_ok_def w1_def curl_usable_def)
  obtain w' where "drop_runtime ?w = Some w'" "runtime_ok 0 w'" "same_objects ?w w'" "easy_ok w'"
    using drop_runtime_ok [OF run easy] by metis
  then show ?thesis
    using that [of w'] closed c same by (simp add: destroy_impl_def same_objects_def)
qed

lemma delete_impl_ok:
  assumes "runtime_ok 0 w" and "easy_ok w"
    and "owners (cw_clients w) (dom (cw_impls w) - set_option old)"
    and "set_option old \<subseteq> dom (cw_impls w)"
  obtains w' where "delete_impl old w = Some w'" and "curl_inv w'"
proof (cases old)
  case None
  then show ?thesis using that [of w] assms by (simp add: curl_inv_def)
next
  case (Some p)
  then obtain w' where "destroy_impl p w = Some w'" "runtime_ok 0 w'" "easy_ok w'"
      "cw_impls w' = (cw_impls w)(p := None)" "cw_clients w' = cw_clients w"
    using destroy_impl_ok [OF assms(1,2), of p] assms(4) by auto
  then show ?thesis using that [of w'] Some assms(3) by (simp add: curl_inv_def)
qed

section \<open>Every operation keeps the invariant\<close>

lemma new_client_ok:
  assumes "curl_inv w" and "client_allowed (Client_new x p ok easy) w"
  shows "\<exists>w'. run_client (Client_new x p ok easy) w = Some w' \<and> curl_inv w'"
proof -
  have inv: "runtime_ok 0 w" "easy_ok w" "owners (cw_clients w) (dom (cw_impls w))"
    using assms(1) by (simp_all add: curl_inv_def)
  have free: "cw_static w \<noteq> Gone" "cw_impls w p = None" "cw_clients w x = None"
    "\<And>e. easy = Some e \<Longrightarrow> e \<notin> cw_easy w"
    using assms(2) by (auto split: option.splits)
  obtain w' c where w': "create_impl p ok easy w = Some w'" "runtime_ok 0 w'" "easy_ok w'"
      "cw_impls w' = (cw_impls w)(p \<mapsto> c)" "cw_clients w' = cw_clients w"
    using create_impl_ok [OF inv(1,2) free(1,2,4)] by metis
  have "owners ((cw_clients w)(x \<mapsto> Some p)) (insert p (dom (cw_impls w)))"
    using inv(3) free(2,3) by (intro owners_new) auto
  then show ?thesis using w' by (simp add: curl_inv_def)
qed

lemma replaced_ok:
  assumes "curl_inv w" and "owners cs (dom (cw_impls w) - set_option old)"
    and "set_option old \<subseteq> dom (cw_impls w)"
  shows "\<exists>w'. delete_impl old (w\<lparr>cw_clients := cs\<rparr>) = Some w' \<and> curl_inv w'"
proof -
  have "runtime_ok 0 (w\<lparr>cw_clients := cs\<rparr>)" "easy_ok (w\<lparr>cw_clients := cs\<rparr>)"
    using assms(1) by (simp_all add: curl_inv_def)
  then obtain w' where "delete_impl old (w\<lparr>cw_clients := cs\<rparr>) = Some w'" "curl_inv w'"
    using delete_impl_ok [of "w\<lparr>cw_clients := cs\<rparr>" old] assms(2,3) by auto
  then show ?thesis by blast
qed

lemma owners_replace:
  assumes "owners m S" and "m y = Some old" and "c \<in> {None, Some None}"
  shows "set_option old \<subseteq> S" and "owners (m(y := c)) (S - set_option old)"
proof -
  show "set_option old \<subseteq> S"
    using owners_forget(1) [OF assms(1), of y _ None] assms(2) by (cases old) auto
  show "owners (m(y := c)) (S - set_option old)"
  proof (cases old)
    case None
    then show ?thesis using owners_none [OF assms(1), of y c] assms(2,3) by auto
  next
    case (Some p)
    then show ?thesis using owners_forget(2) [OF assms(1), of y p c] assms(2,3) by auto
  qed
qed

lemma assign_ok:
  assumes "curl_inv w" and "client_allowed (Client_assign x y) w"
  shows "\<exists>w'. run_client (Client_assign x y) w = Some w' \<and> curl_inv w'"
proof -
  let ?cs = "cw_clients w" and ?S = "dom (cw_impls w)"
  have own: "owners ?cs ?S" using assms(1) by (simp add: curl_inv_def)
  obtain v old where x: "?cs x = Some v" and y: "?cs y = Some old" using assms(2) by auto
  show ?thesis
  proof (cases "x = y")
    case True
    have "?cs(x \<mapsto> v) = ?cs" using x by auto
    then show ?thesis using replaced_ok [OF assms(1), of ?cs None] own x True by simp
  next
    case False
    note r = owners_replace [OF own y, of "Some None"]
    have "owners ((?cs(y \<mapsto> None))(x \<mapsto> None, y \<mapsto> v)) (?S - set_option old)"
      using r x False by (intro owners_give) auto
    then have "owners (?cs(x \<mapsto> None, y \<mapsto> v)) (?S - set_option old)"
      using False by (simp add: fun_upd_twist [of y x])
    then show ?thesis using replaced_ok [OF assms(1)] r x y False by simp
  qed
qed

lemma exit_ok:
  assumes "curl_inv w" and "client_allowed Static_exit w"
  shows "\<exists>w'. run_client Static_exit w = Some w' \<and> curl_inv w'"
proof (cases "cw_static w")
  case Not_yet
  then show ?thesis
    using assms(1) by (auto simp: curl_inv_def runtime_ok_def easy_ok_def curl_usable_def)
next
  case Holds
  let ?w = "w\<lparr>cw_static := Gone\<rparr>"
  have "runtime_ok (Suc 0) ?w" using assms(1) Holds by (simp add: curl_inv_def runtime_ok_def curl_usable_def)
  moreover have "easy_ok ?w" using assms(1) by (simp add: curl_inv_def easy_ok_def curl_usable_def)
  ultimately obtain w' where "drop_runtime ?w = Some w'" "runtime_ok 0 w'" "same_objects ?w w'" "easy_ok w'"
    using drop_runtime_ok by metis
  then show ?thesis using assms(1) Holds by (simp add: curl_inv_def same_objects_def)
qed (use assms(2) in simp)

lemma run_client_ok:
  assumes "curl_inv w" and "client_allowed p w"
  shows "\<exists>w'. run_client p w = Some w' \<and> curl_inv w'"
proof (cases p)
  case (Client_new x i ok easy)
  then show ?thesis using new_client_ok assms by blast
next
  case (Client_delete x)
  then obtain v where x: "cw_clients w x = Some v" using assms(2) by auto
  have "owners (cw_clients w) (dom (cw_impls w))" using assms(1) by (simp add: curl_inv_def)
  from owners_replace [OF this x, of None] replaced_ok [OF assms(1)]
  show ?thesis using Client_delete x by simp
next
  case (Client_move x y)
  then obtain v where x: "cw_clients w x = Some v" and y: "cw_clients w y = None" using assms(2) by auto
  have own: "owners (cw_clients w) (dom (cw_impls w))" using assms(1) by (simp add: curl_inv_def)
  have "owners ((cw_clients w)(x \<mapsto> None, y \<mapsto> v)) (dom (cw_impls w))"
    using owners_give [OF own, of y x v] x y by (cases "x = y") auto
  then show ?thesis using Client_move x assms(1) by (simp add: curl_inv_def)
next
  case (Client_assign x y)
  then show ?thesis using assign_ok assms by blast
next
  case Static_exit
  then show ?thesis using exit_ok assms by blast
qed

lemma reachable_curl_inv: "reachable_curl w \<Longrightarrow> curl_inv w"
proof (induction rule: reachable_curl.induct)
  case reachable_start
  then show ?case
    by (simp add: curl_inv_def curl_start_def runtime_ok_def easy_ok_def owners_def member_is_def curl_usable_def)
next
  case (reachable_op w p w')
  then show ?case using run_client_ok by fastforce
qed

section \<open>Properties\<close>

text \<open>
  C16: libcurl is never misused. Whatever sequence of constructions, moves, self moves and
  destructions of clients a process performs, also when clients outlive the static at its end,
  the next operation succeeds: no easy handle is opened or closed while the library is not
  initialised, none is closed twice, and the library is cleaned up only when all are closed.
\<close>

theorem curl_never_misused:
  assumes "reachable_curl w" and "client_allowed p w"
  shows "\<exists>w'. run_client p w = Some w' \<and> reachable_curl w'"
  using run_client_ok [OF reachable_curl_inv [OF assms(1)] assms(2)] reachable_op [OF assms] by blast

text \<open>
  C22: the library is initialised at most once per process, and cleaned up exactly then when a
  successful initialisation has lost its last user: while any client has an easy handle it is
  usable, and when the static and all clients are gone every initialisation is undone and no
  easy handle is open.
\<close>

theorem curl_cleaned_up:
  assumes "reachable_curl w"
  shows "cw_inits w \<le> 1 \<and> cw_cleanups w \<le> cw_inits w \<and>
    (\<forall>x p e. cw_clients w x = Some (Some p) \<and> cw_impls w p = Some (Some e) \<longrightarrow>
       e \<in> cw_easy w \<and> curl_usable w) \<and>
    (cw_static w \<noteq> Holds \<and> (\<forall>x p. cw_clients w x \<noteq> Some (Some p)) \<longrightarrow>
       cw_cleanups w = cw_inits w \<and> cw_easy w = {})"
proof -
  have inv: "runtime_ok 0 w" "owners (cw_impls w) (cw_easy w)" "cw_easy w \<noteq> {} \<longrightarrow> curl_usable w"
    "owners (cw_clients w) (dom (cw_impls w))"
    using reachable_curl_inv [OF assms] by (simp_all add: curl_inv_def easy_ok_def)
  have "e \<in> cw_easy w \<and> curl_usable w" if "cw_impls w p = Some (Some e)" for p e
    using inv(2,3) that by (auto simp: owners_def member_is_def)
  moreover have "cw_cleanups w = cw_inits w \<and> cw_easy w = {}"
    if "cw_static w \<noteq> Holds" and "\<forall>x p. cw_clients w x \<noteq> Some (Some p)"
  proof -
    have "dom (cw_impls w) = {}" using inv(4) that(2) by (auto simp: owners_def member_is_def)
    then have "cw_refs w = 0" using inv(1) that(1) by (simp add: runtime_ok_def)
    then have "\<not> curl_usable w" "cw_cleanups w \<le> cw_inits w" using inv(1) by (simp_all add: runtime_ok_def)
    then show ?thesis using inv(3) by (auto simp: curl_usable_def)
  qed
  ultimately show ?thesis using inv(1) by (auto simp: runtime_ok_def)
qed

section \<open>A concrete process\<close>

text \<open>Two clients, a move assignment that closes a handle, and a client behind the exit.\<close>

fun run_clients :: "client_op list \<Rightarrow> curl_world \<Rightarrow> curl_world option" where
  "run_clients [] w = Some w"
| "run_clients (p # ps) w =
     (if client_allowed p w then (case run_client p w of None \<Rightarrow> None | Some w' \<Rightarrow> run_clients ps w') else None)"

lemma run_clients_reachable:
  "reachable_curl w \<Longrightarrow> run_clients ps w = Some w' \<Longrightarrow> reachable_curl w'"
  by (induction ps w rule: run_clients.induct)
    (auto split: option.splits if_splits intro: reachable_op)

definition sample_clients :: "client_op list" where
  "sample_clients =
     [Client_new 0 10 True (Some 5), Client_new 1 11 True (Some 6), Client_assign 0 1, Static_exit]"

definition sample_process :: curl_world where
  "sample_process =
     \<lparr>cw_inits = 1, cw_cleanups = 0, cw_easy = {5}, cw_runtime = Some True, cw_static = Gone,
      cw_refs = 1, cw_impls = [10 \<mapsto> Some 5], cw_clients = [0 \<mapsto> None, 1 \<mapsto> Some 10]\<rparr>"

lemmas curl_step_defs =
  create_impl_def get_runtime_def make_runtime_def global_init_def easy_init_def easy_cleanup_def
  destroy_impl_def drop_runtime_def destroy_runtime_def global_cleanup_def curl_usable_def Let_def

lemma sample_process_reachable: "reachable_curl sample_process"
proof -
  have "run_clients sample_clients curl_start = Some sample_process"
    by (simp add: sample_clients_def sample_process_def curl_start_def curl_step_defs fun_eq_iff insert_commute)
  then show ?thesis using run_clients_reachable [OF reachable_start] by blast
qed

theorem curl_never_misused_witness: "\<exists>w'. run_client (Client_delete 1) sample_process = Some w' \<and> reachable_curl w'"
  using curl_never_misused [OF sample_process_reachable, of "Client_delete 1"]
  by (simp add: sample_process_def)

theorem curl_cleaned_up_witness: "cw_inits sample_process \<le> 1 \<and> (5 :: nat) \<in> cw_easy sample_process"
  using curl_cleaned_up [OF sample_process_reachable] by (simp add: sample_process_def)

end
