(* ===== verification/Calendar.thy ===== *)
theory Calendar
  imports Text
begin

text \<open>
  The date text of the example programs: \<open>time(nullptr) - 24 * 3600\<close>, \<open>gmtime_r\<close> and \<open>strftime\<close> with
  \<open>"%Y%m%d"\<close> into \<open>char ymd[16]\<close>. Days are counted in the calendar year by year and month by month;
  the specification is the closed formula for seconds since the epoch that POSIX gives.
\<close>

section \<open>Broken-down time\<close>

text \<open>The fields of \<open>std::tm\<close> that the format reads or that fix the time of day.\<close>

record tm =
  tm_year :: int  \<comment> \<open>years since 1900\<close>
  tm_mon :: int  \<comment> \<open>0 to 11\<close>
  tm_mday :: int
  tm_hour :: int
  tm_min :: int
  tm_sec :: int

definition zero_tm :: tm where
  "zero_tm = \<lparr>tm_year = 0, tm_mon = 0, tm_mday = 0, tm_hour = 0, tm_min = 0, tm_sec = 0\<rparr>"

definition leap :: "int \<Rightarrow> bool" where
  "leap y \<longleftrightarrow> y mod 4 = 0 \<and> (y mod 100 \<noteq> 0 \<or> y mod 400 = 0)"

definition year_length :: "int \<Rightarrow> int" where
  "year_length y = (if leap y then 366 else 365)"

definition month_lengths :: "int \<Rightarrow> int list" where
  "month_lengths y = [31, if leap y then 29 else 28, 31, 30, 31, 30, 31, 31, 30, 31, 30, 31]"

text \<open>The year that holds the day number \<open>d\<close> counted from the first of January of the year \<open>y\<close>.\<close>

function civil_year :: "int \<Rightarrow> int \<Rightarrow> int \<times> int" where
  "civil_year y d =
     (if d < 0 then civil_year (y - 1) (d + year_length (y - 1))
      else if year_length y \<le> d then civil_year (y + 1) (d - year_length y)
      else (y, d))"
  by pat_completeness auto

termination
  by (relation "measure (\<lambda>(y, d). nat (if d < 0 then 400 - d else d))")
    (auto simp: year_length_def split: if_splits)

declare civil_year.simps [simp del]

text \<open>The month, from 0, and the day of the month, from 1, of a day of the year.\<close>

fun civil_month :: "int list \<Rightarrow> int \<Rightarrow> int \<times> int" where
  "civil_month [] d = (0, d + 1)"
| "civil_month (l # ls) d =
     (if d < l then (0, d + 1) else (case civil_month ls (d - l) of (m, k) \<Rightarrow> (m + 1, k)))"

text \<open>\<open>gmtime_r\<close>, which fails and writes nothing when the year does not fit in an \<open>int\<close>.\<close>

definition gmtime_r :: "int \<Rightarrow> tm \<Rightarrow> tm" where
  "gmtime_r now buf =
     (case civil_year 1970 (now div 86400) of (y, yd) \<Rightarrow>
      case civil_month (month_lengths y) yd of (m, d) \<Rightarrow>
        if int32_min \<le> y - 1900 \<and> y - 1900 \<le> int32_max
        then \<lparr>tm_year = y - 1900, tm_mon = m, tm_mday = d, tm_hour = now mod 86400 div 3600,
              tm_min = now mod 3600 div 60, tm_sec = now mod 60\<rparr>
        else buf)"

section \<open>The text\<close>

definition two_digits :: "int \<Rightarrow> string" where
  "two_digits n = [digit_char (nat n div 10), digit_char (nat n mod 10)]"

text \<open>\<open>strftime(s, maxsize, "%Y%m%d", tm)\<close>; \<open>None\<close> when the text and its NUL do not fit.\<close>

definition strftime_ymd :: "nat \<Rightarrow> tm \<Rightarrow> string option" where
  "strftime_ymd maxsize t =
     (let s = to_string_int (tm_year t + 1900) @ two_digits (tm_mon t + 1) @ two_digits (tm_mday t) in
      if length s < maxsize then Some s else None)"

text \<open>
  What the programs compute from the result \<open>t\<close> of \<open>time\<close>. A \<open>time_t\<close> is an integer; the subtraction
  would only overflow within a day of its lower limit.
\<close>

definition date_text :: "int \<Rightarrow> string option" where
  "date_text t = strftime_ymd 16 (gmtime_r (t - 24 * 3600) zero_tm)"

section \<open>The calendar\<close>

text \<open>
  The day number of a date by the formula of POSIX for seconds since the epoch: years of 365
  days, the leap days of the years before, and the day of the year.
\<close>

definition year_start :: "int \<Rightarrow> int" where
  "year_start y = 365 * (y - 1970) + (y - 1969) div 4 - (y - 1901) div 100 + (y - 1601) div 400"

definition month_start :: "int \<Rightarrow> int \<Rightarrow> int" where
  "month_start y m = sum_list (take (nat (m - 1)) (month_lengths y))"

definition day_number :: "int \<Rightarrow> int \<Rightarrow> int \<Rightarrow> int" where
  "day_number y m d = year_start y + month_start y m + d - 1"

definition valid_date :: "int \<Rightarrow> int \<Rightarrow> int \<Rightarrow> bool" where
  "valid_date y m d \<longleftrightarrow> 1 \<le> m \<and> m \<le> 12 \<and> 1 \<le> d \<and> d \<le> month_lengths y ! nat (m - 1)"

lemma div_pred:
  assumes "(0::int) < k"
  shows "a div k = (a - 1) div k + (if a mod k = 0 then 1 else 0)"
proof (cases "a mod k = 0")
  case True
  have "(a - 1) div k = a div k - 1"
    using assms True mult_div_mod_eq [of k a]
    by (intro int_div_pos_eq [where r = "k - 1"]) (auto simp: algebra_simps)
  then show ?thesis using True by simp
next
  case False
  have "0 \<le> a mod k" "a mod k < k" using assms by simp_all
  then have "(a - 1) div k = a div k"
    using False mult_div_mod_eq [of k a]
    by (intro int_div_pos_eq [where r = "a mod k - 1"]) (auto simp: algebra_simps)
  then show ?thesis using False by simp
qed

text \<open>A quotient grows by one exactly at the multiples.\<close>

lemma div_step:
  assumes "(0::int) < k" and "c mod k = 0" and "c' = c + 1"
  shows "(y - c) div k = (y - c') div k + (if y mod k = 0 then 1 else 0)"
proof -
  have "(y - c) mod k = 0 \<longleftrightarrow> y mod k = 0"
    using assms(2) by (auto simp: mod_eq_0_iff_dvd dvd_diff_right_iff dvd_diff_left_iff)
  then show ?thesis using div_pred [OF assms(1), of "y - c"] by (simp add: assms(3) diff_diff_eq)
qed

lemma multiple_mod: "(c::int) mod k = 0 \<Longrightarrow> y mod c = 0 \<Longrightarrow> y mod k = 0"
  by (auto simp: mod_eq_0_iff_dvd intro: dvd_trans)

lemma leap_days:
  assumes "P100 \<longrightarrow> P4" and "P400 \<longrightarrow> P100"
  shows "365 * (n + 1) + (q4 + (if P4 then 1 else 0)) - (q100 + (if P100 then 1 else 0)) +
      (q400 + (if P400 then 1 else 0)) =
    365 * n + q4 - q100 + q400 + (365 + (if P4 \<and> (\<not> P100 \<or> P400) then 1 else (0::int)))"
  using assms by (cases P4; cases P100; cases P400) simp_all

lemma year_start_Suc: "year_start (y + 1) = year_start y + year_length y"
proof -
  have e: "y + 1 - 1970 = y - 1970 + 1" "y + 1 - 1969 = y - 1968" "y + 1 - 1901 = y - 1900"
    "y + 1 - 1601 = y - 1600" by simp_all
  have s: "(y - 1968) div 4 = (y - 1969) div 4 + (if y mod 4 = 0 then 1 else 0)"
    "(y - 1900) div 100 = (y - 1901) div 100 + (if y mod 100 = 0 then 1 else 0)"
    "(y - 1600) div 400 = (y - 1601) div 400 + (if y mod 400 = 0 then 1 else 0)"
    by (rule div_step; simp)+
  have l: "year_length y = 365 + (if y mod 4 = 0 \<and> (y mod 100 \<noteq> 0 \<or> y mod 400 = 0) then 1 else 0)"
    by (simp add: year_length_def leap_def)
  have "y mod 100 = 0 \<longrightarrow> y mod 4 = 0" and "y mod 400 = 0 \<longrightarrow> y mod 100 = 0"
    using multiple_mod [of 100 4 y] multiple_mod [of 400 100 y] by simp_all
  then show ?thesis unfolding year_start_def e s l by (rule leap_days)
qed

lemma year_start_pred: "year_start (y - 1) = year_start y - year_length (y - 1)"
  using year_start_Suc [of "y - 1"] by simp

lemma civil_year_correct:
  assumes "civil_year y d = (y', d')"
  shows "year_start y' + d' = year_start y + d \<and> 0 \<le> d' \<and> d' < year_length y'"
  using assms
proof (induction y d rule: civil_year.induct)
  case (1 y d)
  show ?case
    using 1 by (subst (asm) (3) civil_year.simps) (auto simp: year_start_Suc year_start_pred split: if_splits)
qed

lemma civil_month_correct:
  assumes "0 \<le> d" and "d < sum_list ls" and "civil_month ls d = (m, k)"
  shows "0 \<le> m \<and> nat m < length ls \<and> 1 \<le> k \<and> k \<le> ls ! nat m \<and> sum_list (take (nat m) ls) + k = d + 1"
  using assms
proof (induction ls d arbitrary: m k rule: civil_month.induct)
  case (1 d)
  then show ?case by simp
next
  case (2 l ls d)
  show ?case
  proof (cases "d < l")
    case True
    then show ?thesis using 2 by auto
  next
    case False
    then obtain m' where m': "civil_month ls (d - l) = (m', k)" "m = m' + 1"
      using 2(4) by (auto split: prod.splits)
    then show ?thesis using 2(1) [OF False _ _ m'(1)] 2(2,3) False
      by (auto simp: nat_add_distrib)
  qed
qed

lemma month_lengths_sum: "sum_list (month_lengths y) = year_length y"
  by (simp add: month_lengths_def year_length_def)

lemma month_length_31: "i < 12 \<Longrightarrow> month_lengths y ! i \<le> 31"
  by (auto simp: month_lengths_def less_Suc_eq numeral_eq_Suc)


lemma year_start_less: "y < y' \<Longrightarrow> year_start y < year_start y'"
proof (induction y' rule: int_gr_induct)
  case base
  then show ?case by (simp add: year_start_Suc year_length_def)
next
  case (step i)
  then show ?case by (simp add: year_start_Suc year_length_def)
qed

lemma year_start_less_iff: "year_start y < year_start y' \<longleftrightarrow> y < y'"
  using year_start_less [of y y'] year_start_less [of y' y] by (cases y y' rule: linorder_cases) auto

lemma gmtime_date:
  assumes "civil_year 1970 day = (y, yd)" and "civil_month (month_lengths y) yd = (m, d)"
  shows "valid_date y (m + 1) d" and "day_number y (m + 1) d = day"
    and "year_start y \<le> day" and "day < year_start (y + 1)"
proof -
  note y = civil_year_correct [OF assms(1)]
  have "0 \<le> yd" "yd < sum_list (month_lengths y)" using y by (simp_all add: month_lengths_sum)
  note m = civil_month_correct [OF this assms(2)]
  have "length (month_lengths y) = 12" "year_start 1970 = 0"
    by (simp_all add: month_lengths_def year_start_def)
  then show "valid_date y (m + 1) d" "day_number y (m + 1) d = day"
    "year_start y \<le> day" "day < year_start (y + 1)"
    using y m by (auto simp: valid_date_def day_number_def month_start_def year_start_Suc)
qed

section \<open>Reading the text back\<close>

lemma two_digits_val [simp]:
  assumes "0 \<le> n" and "n < 100"
  shows "dec_val (two_digits n) = nat n" and "\<forall>c \<in> set (two_digits n). is_digit c"
proof -
  have "nat n < 100" using assms by simp
  then have "nat n div 10 < 10" by (simp add: less_mult_imp_div_less)
  then show "dec_val (two_digits n) = nat n" "\<forall>c \<in> set (two_digits n). is_digit c"
    by (simp_all add: two_digits_def dec_val_def)
qed

lemma two_digits_length [simp]: "length (two_digits n) = 2"
  by (simp add: two_digits_def)

lemma to_string_int_wide: "\<bar>i\<bar> < 10 ^ 10 \<Longrightarrow> length (to_string_int i) \<le> 11"
  using dec_string_length [of "nat \<bar>i\<bar>" 10] by (auto simp: to_string_int_def nat_less_iff)

lemma dec_string_4:
  assumes "1000 \<le> n" and "n < 10000"
  shows "length (dec_string n) = 4"
proof -
  have "1 \<le> n div 1000" "n div 1000 < 10" using assms by (simp_all add: less_mult_imp_div_less)
  moreover have "n div 10 div 10 div 10 = n div 1000" by (simp flip: div_mult2_eq)
  moreover have "\<not> n < 10" "\<not> n div 10 < 10" "\<not> n div 10 div 10 < 10" using assms
    by (simp_all add: div_less_iff_less_mult flip: div_mult2_eq)
  ultimately show ?thesis by (simp add: dec_string.simps)
qed

lemma valid_dateD:
  assumes "valid_date y m d"
  shows "1 \<le> m" and "m \<le> 12" and "1 \<le> d" and "d \<le> 31"
proof -
  have "nat (m - 1) < 12" using assms by (auto simp: valid_date_def)
  then have "month_lengths y ! nat (m - 1) \<le> 31"
    by (auto simp: month_lengths_def less_Suc_eq numeral_eq_Suc)
  then show "1 \<le> m" and "m \<le> 12" and "1 \<le> d" and "d \<le> 31" using assms by (auto simp: valid_date_def)
qed

lemma dec_val_digits [simp]:
  assumes "0 \<le> n" and "n < 100"
  shows "dec_val (xs @ two_digits n) = 100 * dec_val xs + nat n"
proof -
  have "nat n div 10 < 10" using assms by (simp add: less_mult_imp_div_less)
  then show ?thesis
    using dec_val_snoc [of "xs @ [digit_char (nat n div 10)]"] by (simp add: two_digits_def)
qed

definition date_of_text :: "string \<Rightarrow> int \<times> int \<times> int" where
  "date_of_text s = (int (dec_val (take 4 s)), int (dec_val (take 2 (drop 4 s))), int (dec_val (drop 6 s)))"

lemma date_of_text_ymd:
  assumes "1000 \<le> y" and "y < 10000" and "valid_date y m d"
  shows "date_of_text (to_string_int y @ two_digits m @ two_digits d) = (y, m, d)"
    and "length (to_string_int y @ two_digits m @ two_digits d) = 8"
    and "\<forall>c \<in> set (to_string_int y @ two_digits m @ two_digits d). is_digit c"
proof -
  have y: "length (to_string_int y) = 4" "dec_val (to_string_int y) = nat y"
      "\<forall>c \<in> set (to_string_int y). is_digit c"
    using assms(1,2) dec_string_4 [of "nat y"] by (simp_all add: to_string_int_def dec_string_digits)
  note md = valid_dateD [OF assms(3)]
  show "date_of_text (to_string_int y @ two_digits m @ two_digits d) = (y, m, d)"
    "length (to_string_int y @ two_digits m @ two_digits d) = 8"
    "\<forall>c \<in> set (to_string_int y @ two_digits m @ two_digits d). is_digit c"
    using y md assms(1) two_digits_val(2) [of m] two_digits_val(2) [of d] by (auto simp: date_of_text_def)
qed

section \<open>Properties\<close>

lemma zero_text: "strftime_ymd 16 zero_tm = Some ''19000100''"
  by code_simp

lemma date_text_cases:
  obtains y m d where "valid_date y m d" and "day_number y m d = t div 86400 - 1"
    and "year_start y \<le> t div 86400 - 1" and "t div 86400 - 1 < year_start (y + 1)"
    and "gmtime_r (t - 24 * 3600) zero_tm = zero_tm \<and> \<not> (int32_min \<le> y - 1900 \<and> y - 1900 \<le> int32_max) \<or>
      int32_min \<le> y - 1900 \<and> y - 1900 \<le> int32_max \<and>
      strftime_ymd k (gmtime_r (t - 24 * 3600) zero_tm) =
        (let s = to_string_int y @ two_digits m @ two_digits d in if length s < k then Some s else None)"
proof -
  obtain y yd m d where c: "civil_year 1970 (t div 86400 - 1) = (y, yd)"
    "civil_month (month_lengths y) yd = (m, d)" by (metis prod.exhaust)
  have "(t - 24 * 3600) div 86400 = t div 86400 - 1" by simp
  then show ?thesis
    using that [of y "m + 1" d] gmtime_date [OF c] c by (auto simp: gmtime_r_def strftime_ymd_def)
qed

lemma month_lengths_pos: "x \<in> set (month_lengths y) \<Longrightarrow> 0 \<le> x"
  by (auto simp: month_lengths_def)

lemma month_start_Suc:
  assumes "1 \<le> m" and "m \<le> 12"
  shows "month_start y (m + 1) = month_start y m + month_lengths y ! nat (m - 1)"
proof -
  have "nat (m + 1 - 1) = Suc (nat (m - 1))" using assms by simp
  moreover have "nat (m - 1) < length (month_lengths y)" using assms by (simp add: month_lengths_def)
  ultimately show ?thesis by (simp add: month_start_def take_Suc_conv_app_nth)
qed

lemma month_start_mono:
  assumes "1 \<le> m" and "m \<le> m'"
  shows "month_start y m \<le> month_start y m'"
proof -
  have "nat (m' - 1) = nat (m - 1) + nat (m' - m)" using assms by simp
  moreover have "0 \<le> sum_list (take k (drop j (month_lengths y)))" for j k
    by (intro sum_list_nonneg month_lengths_pos [of _ y]) (meson in_set_dropD in_set_takeD)
  ultimately show ?thesis by (simp add: month_start_def take_add)
qed

lemma month_before:
  assumes "valid_date y m d" and "m < m'"
  shows "month_start y m + d \<le> month_start y m'"
proof -
  have "month_start y m + d \<le> month_start y (m + 1)"
    using assms(1) by (simp add: month_start_Suc valid_date_def)
  then show ?thesis using month_start_mono [of "m + 1" m' y] assms by (simp add: valid_date_def)
qed

lemma day_in_year:
  assumes "valid_date y m d"
  shows "year_start y \<le> day_number y m d" and "day_number y m d < year_start (y + 1)"
proof -
  have "0 \<le> month_start y m" using month_start_mono [of 1 m y] assms
    by (simp add: month_start_def valid_date_def)
  moreover have "month_start y 13 = year_length y"
    by (simp add: month_start_def month_lengths_def year_length_def)
  ultimately show "year_start y \<le> day_number y m d" "day_number y m d < year_start (y + 1)"
    using month_before [OF assms, of 13] assms by (auto simp: day_number_def year_start_Suc valid_date_def)
qed

text \<open>A day has one date.\<close>

lemma date_unique:
  assumes "valid_date y m d" and "valid_date y' m' d'" and "day_number y m d = day_number y' m' d'"
  shows "y = y' \<and> m = m' \<and> d = d'"
proof -
  have "year_start y < year_start (y' + 1)" "year_start y' < year_start (y + 1)"
    using day_in_year [OF assms(1)] day_in_year [OF assms(2)] assms(3) by linarith+
  then have y: "y = y'" by (simp add: year_start_less_iff)
  moreover have "\<not> m < m'" "\<not> m' < m"
    using month_before [OF assms(1), of m'] month_before [OF assms(2), of m] assms y
    by (auto simp: day_number_def valid_date_def)
  ultimately show ?thesis using assms(3) by (simp add: day_number_def)
qed

text \<open>The text of a date with a year of four digits.\<close>

definition ymd_text :: "int \<Rightarrow> int \<Rightarrow> int \<Rightarrow> string" where
  "ymd_text y m d = to_string_int y @ two_digits m @ two_digits d"

lemma date_text_is:
  assumes "1000 \<le> y" and "y < 10000" and "valid_date y m d"
    and "day_number y m d = t div 86400 - 1"
  shows "date_text t = Some (ymd_text y m d)"
proof -
  obtain y' m' d' where ymd: "valid_date y' m' d'" "day_number y' m' d' = t div 86400 - 1"
    and tm: "gmtime_r (t - 24 * 3600) zero_tm = zero_tm \<and> \<not> (int32_min \<le> y' - 1900 \<and> y' - 1900 \<le> int32_max) \<or>
      int32_min \<le> y' - 1900 \<and> y' - 1900 \<le> int32_max \<and>
      strftime_ymd 16 (gmtime_r (t - 24 * 3600) zero_tm) =
        (let s = to_string_int y' @ two_digits m' @ two_digits d' in if length s < 16 then Some s else None)"
    by (rule date_text_cases)
  have same: "y' = y" "m' = m" "d' = d" using date_unique [OF ymd(1) assms(3)] ymd(2) assms(4) by simp_all
  have "length (ymd_text y m d) = 8"
    using date_of_text_ymd(2) [OF assms(1-3)] by (simp add: ymd_text_def)
  then show ?thesis using tm assms(1,2) by (simp add: same date_text_def ymd_text_def)
qed

text \<open>
  The date in the requested path. The text always fits in the 16 bytes the programs give
  \<open>strftime\<close>, even for the years at the ends of \<open>int\<close>; for every time up to the end of the year
  9999 (and from the year 1000) it is eight digits, and the date they spell exists and is the
  day before the day of \<open>t\<close> in UTC.
\<close>

theorem date_text_yesterday:
  "\<exists>s. date_text t = Some s \<and> length s < 16 \<and>
     (- 30610224000 + 86400 \<le> t \<and> t < 253402300800 + 86400 \<longrightarrow>
        length s = 8 \<and> (\<forall>c \<in> set s. is_digit c) \<and>
        (case date_of_text s of (y, m, d) \<Rightarrow> valid_date y m d \<and> day_number y m d = t div 86400 - 1))"
proof -
  obtain y m d where ymd: "valid_date y m d" "day_number y m d = t div 86400 - 1"
      "year_start y \<le> t div 86400 - 1" "t div 86400 - 1 < year_start (y + 1)"
    and tm: "gmtime_r (t - 24 * 3600) zero_tm = zero_tm \<and> \<not> (int32_min \<le> y - 1900 \<and> y - 1900 \<le> int32_max) \<or>
      int32_min \<le> y - 1900 \<and> y - 1900 \<le> int32_max \<and>
      strftime_ymd 16 (gmtime_r (t - 24 * 3600) zero_tm) =
        (let s = to_string_int y @ two_digits m @ two_digits d in if length s < 16 then Some s else None)"
    by (rule date_text_cases)
  have year: "1000 \<le> y \<and> y < 10000" if "- 30610224000 + 86400 \<le> t" "t < 253402300800 + 86400"
  proof -
    have "year_start 1000 = - 354285" "year_start 10000 = 2932897" by (simp_all add: year_start_def)
    moreover have "- 354285 \<le> t div 86400 - 1" "t div 86400 - 1 < 2932897" using that by simp_all
    ultimately have "year_start 1000 < year_start (y + 1)" "year_start y < year_start 10000"
      using ymd(3,4) by simp_all
    then show ?thesis by (simp add: year_start_less_iff)
  qed
  show ?thesis
  proof (cases "int32_min \<le> y - 1900 \<and> y - 1900 \<le> int32_max")
    case True
    have "length (to_string_int y) \<le> 11" using True by (intro to_string_int_wide) auto
    then have fits: "length (to_string_int y @ two_digits m @ two_digits d) < 16"
      by simp
    then have "date_text t = Some (to_string_int y @ two_digits m @ two_digits d)"
      using tm True by (simp add: date_text_def)
    then show ?thesis using fits date_of_text_ymd [OF _ _ ymd(1)] year ymd(1,2) by simp
  next
    case False
    then have "gmtime_r (t - 24 * 3600) zero_tm = zero_tm" using tm by blast
    then have "date_text t = Some ''19000100''" using zero_text by (simp add: date_text_def)
    moreover have "\<not> (- 30610224000 + 86400 \<le> t \<and> t < 253402300800 + 86400)"
    proof
      assume "- 30610224000 + 86400 \<le> t \<and> t < 253402300800 + 86400"
      then have "1000 \<le> y" "y < 10000" using year by blast+
      then show False using False by simp
    qed
    ultimately show ?thesis by (intro exI [of _ "''19000100''"]) auto
  qed
qed

theorem date_text_yesterday_witness:
  "date_text 1747440000 = Some ''20250516'' \<and> valid_date 2025 5 16 \<and>
   day_number 2025 5 16 = 1747440000 div 86400 - 1"
proof -
  have "date_text 1747440000 = Some ''20250516''" "date_of_text ''20250516'' = (2025, 5, 16)" by code_simp+
  then show ?thesis using date_text_yesterday [of 1747440000] by simp
qed

end
