(* ===== verification/Pipeline.thy ===== *)
theory Pipeline
  imports Nomads Ecmwf Extract Retry Calendar
begin

text \<open>
  The parts together, as \<open>examples/example_nomads_idx.cpp\<close> composes them: fetch the sidecar,
  parse it, select a record, fetch its bytes and extract a value. The program's printing is left
  out; \<open>None\<close> stands for its \<open>return 1\<close>. The ECMWF program is the theory \<open>Ecmwf_Pipeline\<close>.
\<close>

section \<open>The example program\<close>

text \<open>\<open>A0\<close> and \<open>A1\<close> are what libcurl does on the first and on the second request.\<close>

definition nomads_example :: "curl_api \<Rightarrow> curl_api \<Rightarrow> ('h, 'n) eccodes \<Rightarrow> http_client \<Rightarrow> string \<Rightarrow>
    grib_selector \<Rightarrow> double \<Rightarrow> double \<Rightarrow> double option" where
  "nomads_example A0 A1 E client base sel lat lon =
     (case http_get A0 client (base @ ''.idx'') of
        Inl _ \<Rightarrow> None
      | Inr idx \<Rightarrow>
          if hr_status idx \<noteq> 200 then None
          else
            (case parse_nomads_idx (hr_body idx) of
               Inl _ \<Rightarrow> None
             | Inr entries \<Rightarrow>
                 (case select entries sel of
                    [] \<Rightarrow> None
                  | rec # _ \<Rightarrow>
                      (case get_range A1 client base (e_offset rec) (e_length rec) of
                         Inl _ \<Rightarrow> None
                       | Inr blob \<Rightarrow>
                           if hr_status blob \<noteq> 206 then None
                           else
                             (case extract_point E (hr_body blob) lat lon of
                                Inl _ \<Rightarrow> None
                              | Inr kelvin \<Rightarrow> Some kelvin)))))"

text \<open>
  The whole \<open>main\<close>: \<open>t\<close> is the result of \<open>time(nullptr)\<close>, \<open>global\<close> and \<open>easy\<close> say whether
  libcurl's global and easy initialisation succeed. The coordinates are New York City.
\<close>

definition nomads_base :: "string \<Rightarrow> string" where
  "nomads_base ymd =
     ''https://noaa-gfs-bdp-pds.s3.amazonaws.com/gfs.'' @ ymd @ ''/00/atmos/gfs.t00z.pgrb2.0p25.f000''"

definition tmp_selector :: grib_selector where
  "tmp_selector =
     \<lparr>s_param = Some ''TMP'', s_level = Some ''2 m above ground'', s_step = None, s_member = None\<rparr>"

definition nomads_main :: "curl_api \<Rightarrow> curl_api \<Rightarrow> ('h, 'n) eccodes \<Rightarrow> bool \<Rightarrow> bool \<Rightarrow> int \<Rightarrow>
    double option" where
  "nomads_main A0 A1 E global easy t =
     (case date_text t of
        None \<Rightarrow> None
      | Some ymd \<Rightarrow>
          nomads_example A0 A1 E (new_client global easy default_config) (nomads_base ymd) tmp_selector
            (round64 (407128 / 10000)) (round64 (- 740060 / 10000)))"

section \<open>A server with a file\<close>

text \<open>
  What a server that honours Range requests and knows the length of its file answers (RFC 9110):
  status 206, the bytes of the range that exist, and among any other header fields one
  Content-Range field, its name in any mix of cases, for exactly these bytes and this length.
\<close>

definition file_slice :: "string \<Rightarrow> u64 \<Rightarrow> u64 \<Rightarrow> string" where
  "file_slice file off len =
     (if len = 0 then drop (unat off) file else take (unat len) (drop (unat off) file))"

definition same_letter :: "char \<Rightarrow> char \<Rightarrow> bool" where
  "same_letter c d \<longleftrightarrow>
     (let i = of_char c :: nat; j = of_char d in
      i = j \<or> (65 \<le> i \<and> i \<le> 90 \<and> j = i + 32) \<or> (65 \<le> j \<and> j \<le> 90 \<and> i = j + 32))"

definition same_name :: "string \<Rightarrow> string \<Rightarrow> bool" where
  "same_name a b \<longleftrightarrow> list_all2 same_letter a b"

definition says_range :: "string \<Rightarrow> nat \<Rightarrow> nat \<Rightarrow> nat \<Rightarrow> bool" where
  "says_range v off n total_len \<longleftrightarrow>
     (\<exists>a b tot. v = ''bytes '' @ a @ ''-'' @ b @ ''/'' @ tot \<and> number a \<and> number b \<and> number tot \<and>
        dec_val a = off \<and> dec_val b = off + n - 1 \<and> dec_val tot = total_len)"

definition range_fields :: "(string \<times> string) list \<Rightarrow> nat \<Rightarrow> nat \<Rightarrow> nat \<Rightarrow> bool" where
  "range_fields hs off n total_len \<longleftrightarrow>
     (\<exists>pre name v post. hs = pre @ (name, v) # post \<and> same_name name ''Content-Range'' \<and>
        says_range v off n total_len \<and>
        (\<forall>(k, _) \<in> set pre \<union> set post. \<not> same_name k ''Content-Range''))"

text \<open>A client takes a body up to its limit, 64 MiB by default; a limit of 0 is none.\<close>

definition accepts_body :: "http_client \<Rightarrow> nat \<Rightarrow> bool" where
  "accepts_body client n \<longleftrightarrow>
     (let max_bytes = hc_max_response_bytes (client_config client) in
      max_bytes = 0 \<or> n \<le> unat max_bytes)"

definition serves :: "curl_api \<Rightarrow> http_client \<Rightarrow> string \<Rightarrow> string \<Rightarrow> bool" where
  "serves A client path file \<longleftrightarrow>
     (\<forall>off len. \<not> range_overflows off len \<and> unat off < length file \<and>
        accepts_body client (length (file_slice file off len)) \<longrightarrow>
        (\<exists>hs. perform A client path (Some (range_text off len)) =
             Inr \<lparr>hr_status = 206, hr_body = file_slice file off len, hr_headers = hs\<rparr> \<and>
           range_fields hs (unat off) (length (file_slice file off len)) (length file)))"

lemma slice_length:
  "length (file_slice file off len) =
     (if len = 0 then length file - unat off else min (unat len) (length file - unat off))"
  by (simp add: file_slice_def min.commute)

text \<open>The code's comparison of names is the one of HTTP, and its search finds the field.\<close>

lemma lower_char_same:
  assumes "\<not> (65 \<le> (of_char d :: nat) \<and> (of_char d :: nat) \<le> 90)"
  shows "lower_char c = d \<longleftrightarrow> same_letter c d"
proof (cases "65 \<le> (of_char c :: nat) \<and> (of_char c :: nat) \<le> 90")
  case True
  have "lower_char c = d \<longleftrightarrow> (of_char c :: nat) + 32 = of_char d"
    using True by (auto simp: lower_char_def of_char_of simp flip: of_char_eq_iff [where ?'a = nat])
  then show ?thesis using True assms by (auto simp: same_letter_def Let_def)
next
  case False
  then show ?thesis using assms by (auto simp: lower_char_def same_letter_def Let_def)
qed

lemma lower_name: "map lower_char name = ''content-range'' \<longleftrightarrow> same_name name ''Content-Range''"
proof -
  have low: "map lower_char name = ''content-range'' \<longleftrightarrow> list_all2 same_letter name ''content-range''"
    by (simp add: list_all2_Cons2 lower_char_same map_eq_Cons_conv)
  have "same_letter c CHR ''c'' \<longleftrightarrow> same_letter c CHR ''C''"
    "same_letter c CHR ''r'' \<longleftrightarrow> same_letter c CHR ''R''" for c
    by (auto simp: same_letter_def Let_def)
  then show ?thesis unfolding low same_name_def by (simp add: list_all2_Cons2)
qed

lemma content_range_skips:
  "\<forall>(k, _) \<in> set hs. \<not> same_name k ''Content-Range'' \<Longrightarrow> content_range_of hs found = found"
  by (induction hs arbitrary: found) (auto simp: lower_name)

lemma content_range_search: "content_range_of (xs @ ys) found = content_range_of ys (content_range_of xs found)"
  by (induction xs arbitrary: found) auto

lemma range_fields_found:
  assumes "range_fields hs off n total_len"
  shows "says_range (content_range_of hs []) off n total_len"
proof -
  obtain pre name v post where hs: "hs = pre @ (name, v) # post" "same_name name ''Content-Range''"
      "says_range v off n total_len"
    and others: "\<forall>(k, _) \<in> set pre \<union> set post. \<not> same_name k ''Content-Range''"
    using assms unfolding range_fields_def by blast
  have "content_range_of hs [] = content_range_of post v"
    using hs(2) by (simp add: hs(1) content_range_search lower_name)
  also have "\<dots> = v" using others by (intro content_range_skips) auto
  finally show ?thesis using hs(3) by simp
qed

lemma served_range:
  assumes "serves A client path file" and "\<not> range_overflows off len" and "unat off < length file"
    and "length file < 2 ^ 64" and "accepts_body client (length (file_slice file off len))"
  obtains hs where "get_range A client path off len =
      Inr \<lparr>hr_status = 206, hr_body = file_slice file off len, hr_headers = hs\<rparr>"
    and "perform A client path (Some (range_text off len)) =
      Inr \<lparr>hr_status = 206, hr_body = file_slice file off len, hr_headers = hs\<rparr>"
proof -
  obtain hs where p: "perform A client path (Some (range_text off len)) =
      Inr \<lparr>hr_status = 206, hr_body = file_slice file off len, hr_headers = hs\<rparr>"
    and f: "range_fields hs (unat off) (length (file_slice file off len)) (length file)"
    using assms(1-3,5) unfolding serves_def by blast
  obtain a b tot where v: "content_range_of hs [] = ''bytes '' @ a @ ''-'' @ b @ ''/'' @ tot"
    "number a" "number b" "number tot" "dec_val a = unat off"
    "dec_val b = unat off + length (file_slice file off len) - 1" "dec_val tot = length file"
    using range_fields_found [OF f] unfolding says_range_def by blast
  have "check_content_range off len (content_range_of hs []) (file_slice file off len)"
    unfolding v(1) using assms(2-4) v(2-7) slice_length by (rule honest_accepted)
  then show ?thesis using that [of hs] assms(2) p by (simp add: get_range_eq)
qed

section \<open>Files of messages and their inventories\<close>

text \<open>The inventory of a file: one valid row per message, with the message's byte offset.\<close>

definition inventory_of :: "string list \<Rightarrow> nomads_row list \<Rightarrow> bool" where
  "inventory_of ms rows \<longleftrightarrow>
     length rows = length ms \<and> (\<forall>r \<in> set rows. valid_row r) \<and>
     (\<forall>i < length ms. ms ! i \<noteq> [] \<and> unat (r_offset (rows ! i)) = length (concat (take i ms))) \<and>
     length (concat ms) < 2 ^ 64"

lemma concat_take_Suc:
  "i < length ms \<Longrightarrow> length (concat (take (Suc i) ms)) = length (concat (take i ms)) + length (ms ! i)"
  by (simp add: take_Suc_conv_app_nth)

lemma inventory_sorted:
  assumes "inventory_of ms rows"
  shows "sorted_wrt (<) (map r_offset rows)"
proof -
  have "r_offset (rows ! i) < r_offset (rows ! Suc i)" if "Suc i < length rows" for i
  proof -
    have "0 < length (ms ! i)" using assms that by (auto simp: inventory_of_def)
    then show ?thesis
      using assms that concat_take_Suc [of i ms] by (auto simp: inventory_of_def word_less_nat_alt)
  qed
  then show ?thesis by (simp add: sorted_wrt_iff_nth_Suc_transp transp_def)
qed

lemma row_entry_simps [simp]:
  "e_offset (row_entry r) = r_offset r" "e_length (row_entry r) = 0"
  by (simp_all add: row_entry_def new_entry_def)

lemma selects_length [simp]: "selects sel (e\<lparr>e_length := n\<rparr>) = selects sel e"
  by (simp add: selects_def)

text \<open>The bytes that the entry of a message asks for are the message.\<close>

lemma entry_slice:
  assumes inv: "inventory_of ms rows" and i: "i < length ms"
    and e: "e = with_lengths (map row_entry rows) ! i"
  shows "file_slice (concat ms) (e_offset e) (e_length e) = ms ! i"
    and "unat (e_offset e) < length (concat ms)"
proof -
  have len: "length rows = length ms" using inv by (simp add: inventory_of_def)
  have off: "unat (r_offset (rows ! j)) = length (concat (take j ms))" if "j < length ms" for j
    using inv that by (simp add: inventory_of_def)
  have eoff: "unat (e_offset e) = length (concat (take i ms))"
    using i len off [OF i] by (simp add: e with_lengths_nth)
  have split: "concat ms = concat (take i ms) @ ms ! i @ concat (drop (Suc i) ms)"
    by (metis concat.simps(2) concat_append id_take_nth_drop [OF i])
  then have drop: "drop (unat (e_offset e)) (concat ms) = ms ! i @ concat (drop (Suc i) ms)"
    unfolding eoff by (metis append_eq_conv_conj)
  have "ms ! i \<noteq> []" using inv i by (simp add: inventory_of_def)
  then show "unat (e_offset e) < length (concat ms)" unfolding eoff using split by simp
  show "file_slice (concat ms) (e_offset e) (e_length e) = ms ! i"
  proof (cases "Suc i < length ms")
    case False
    then have "e_length e = 0" using i len by (simp add: e with_lengths_nth)
    moreover have "drop (Suc i) ms = []" using False by simp
    ultimately show ?thesis using drop by (simp add: file_slice_def)
  next
    case True
    have le: "r_offset (rows ! i) \<le> r_offset (rows ! Suc i)"
      using off [OF i] off [OF True] concat_take_Suc [OF i] by (simp add: word_le_nat_alt)
    have "e_length e = r_offset (rows ! Suc i) - r_offset (rows ! i)"
      using True i len by (simp add: e with_lengths_nth)
    then have l: "unat (e_length e) = length (ms ! i)"
      using unat_sub [OF le] off [OF i] off [OF True] concat_take_Suc [OF i] by simp
    moreover have "e_length e \<noteq> 0" using l \<open>ms ! i \<noteq> []\<close> by auto
    ultimately show ?thesis using drop by (simp add: file_slice_def)
  qed
qed

lemma filter_first:
  assumes "i < length xs" and "P (xs ! i)" and "\<forall>j < i. \<not> P (xs ! j)"
  shows "\<exists>ys. filter P xs = xs ! i # ys"
proof -
  have "filter P (take i xs) = []"
    using assms(1,3) by (auto simp: filter_empty_conv in_set_conv_nth)
  moreover have "filter P xs = filter P (take i xs) @ filter P (xs ! i # drop (Suc i) xs)"
    by (metis filter_append id_take_nth_drop [OF assms(1)])
  ultimately show ?thesis using assms(2) by simp
qed

lemma selected_first:
  assumes "length es = n" and "i < n" and "selects sel (es ! i)" and "\<forall>j < i. \<not> selects sel (es ! j)"
  shows "\<exists>ys. select (with_lengths es) sel = with_lengths es ! i # ys"
proof -
  have "selects sel (with_lengths es ! j) = selects sel (es ! j)" if "j < n" for j
    using that assms(1) by (simp add: with_lengths_nth)
  then have "\<exists>ys. filter (selects sel) (with_lengths es) = with_lengths es ! i # ys"
    using assms by (intro filter_first) auto
  then show ?thesis by (simp add: select_filter)
qed

lemma first_message_read:
  assumes "inventory_of ms rows" and "i < length ms"
    and "selects sel (row_entry (rows ! i))" and "\<forall>j < i. \<not> selects sel (row_entry (rows ! j))"
    and "perform A0 client (base @ ''.idx'') None =
           Inr \<lparr>hr_status = 200, hr_body = print_inventory rows, hr_headers = hs\<rparr>"
    and "serves A1 client base (concat ms)" and "accepts_body client (length (ms ! i))"
  shows "nomads_example A0 A1 E client base sel lat lon =
    (case extract_point E (ms ! i) lat lon of Inl _ \<Rightarrow> None | Inr k \<Rightarrow> Some k)"
proof -
  let ?es = "with_lengths (map row_entry rows)"
  let ?e = "?es ! i"
  have len: "length rows = length ms" and small: "length (concat ms) < 2 ^ 64"
    and valid: "\<forall>r \<in> set rows. valid_row r"
    using assms(1) by (auto simp: inventory_of_def)
  have parse: "parse_nomads_idx (print_inventory rows) = Inr ?es"
    using parse_print_inventory [OF valid inventory_sorted [OF assms(1)]] .
  obtain ys where sel: "select ?es sel = ?e # ys"
    using selected_first [of "map row_entry rows" "length ms" i sel] assms(2-4) len by auto
  note e = entry_slice [OF assms(1,2) refl]
  have guard: "\<not> range_overflows (e_offset ?e) (e_length ?e)"
  proof (cases "i + 1 < length ?es")
    case True
    then have "unat (e_offset ?e) + unat (e_length ?e) = unat (e_offset (?es ! (i + 1)))"
      using ranges_tile [OF parse] by blast
    then show ?thesis
      using unat_u64_less [of "e_offset (?es ! (i + 1))"] by (auto simp: range_overflows_iff)
  next
    case False
    then show ?thesis using assms(2) len by (simp add: range_overflows_iff with_lengths_nth)
  qed
  have "accepts_body client (length (file_slice (concat ms) (e_offset ?e) (e_length ?e)))"
    using assms(7) by (simp only: e(1))
  from served_range [OF assms(6) guard e(2) small this] obtain fields where
    "get_range A1 client base (e_offset ?e) (e_length ?e) =
      Inr \<lparr>hr_status = 206, hr_body = ms ! i, hr_headers = fields\<rparr>"
    unfolding e(1) by blast
  then show ?thesis
    using assms(5) parse sel by (simp add: nomads_example_def http_get_def)
qed

section \<open>Properties\<close>

text \<open>
  C1: end to end. For any file of GRIB messages with an inventory that lists them, behind a server
  that honours ranges and knows the file's length, whatever other header fields it sends, the
  example program returns the value of exactly the message whose record is the first that the
  selector accepts: fetching by byte range and decoding is the same as decoding that message alone.
  Only this message has to be within the client's limit, the file may be larger.
\<close>

theorem nomads_end_to_end:
  assumes "inventory_of ms rows" and "i < length ms"
    and "selects sel (row_entry (rows ! i))" and "\<forall>j < i. \<not> selects sel (row_entry (rows ! j))"
    and "perform A0 client (base @ ''.idx'') None =
           Inr \<lparr>hr_status = 200, hr_body = print_inventory rows, hr_headers = hs\<rparr>"
    and "serves A1 client base (concat ms)" and "accepts_body client (length (ms ! i))"
  shows "nomads_example A0 A1 E client base sel lat lon =
    (case extract_point E (ms ! i) lat lon of Inl _ \<Rightarrow> None | Inr k \<Rightarrow> Some k)"
  using assms by (rule first_message_read)

text \<open>What the program's selector accepts: both texts may be parts of longer fields.\<close>

lemma tmp_selects:
  "selects tmp_selector (row_entry r) \<longleftrightarrow> sublist ''TMP'' (r_var r) \<and> sublist ''2 m above ground'' (r_level r)"
  by (simp add: selects_def tmp_selector_def row_entry_def new_entry_def)

text \<open>
  C3: the whole NOMADS program. Run at the time \<open>t\<close>, \<open>main\<close> reads the file of the UTC day before:
  when a server that honours ranges has that day's file under its path, with an inventory that
  lists it, the program's value is the one extracted for New York City from the message of the
  first record whose parameter contains "TMP" and whose level contains "2 m above ground", if it is
  within the 64 MiB that the default client accepts. The match is by substring, as \<open>select\<close>
  documents it: a record APTMP, or TMP at 12 m, listed earlier would be the one.
\<close>

theorem nomads_main_yesterday:
  fixes A0 A1 E t y m d
  defines "client \<equiv> new_client True True default_config" and "base \<equiv> nomads_base (ymd_text y m d)"
  assumes "valid_date y m d" and "day_number y m d = t div 86400 - 1" and "1000 \<le> y" and "y < 10000"
    and "inventory_of ms rows" and "i < length ms" and "length (ms ! i) \<le> 64 * 1024 * 1024"
    and "sublist ''TMP'' (r_var (rows ! i)) \<and> sublist ''2 m above ground'' (r_level (rows ! i))"
    and "\<forall>j < i. \<not> (sublist ''TMP'' (r_var (rows ! j)) \<and> sublist ''2 m above ground'' (r_level (rows ! j)))"
    and "perform A0 client (base @ ''.idx'') None =
           Inr \<lparr>hr_status = 200, hr_body = print_inventory rows, hr_headers = hs\<rparr>"
    and "serves A1 client base (concat ms)"
  shows "nomads_main A0 A1 E True True t =
    (case extract_point E (ms ! i) (round64 (407128 / 10000)) (round64 (- 740060 / 10000)) of
       Inl _ \<Rightarrow> None | Inr k \<Rightarrow> Some k)"
proof -
  have "accepts_body client (length (ms ! i))"
    using assms(9) by (simp add: accepts_body_def client_def new_client_def client_config_def default_config_def)
  from first_message_read [OF assms(7,8) _ _ assms(12,13) this, of tmp_selector] assms(10,11)
  show ?thesis using date_text_is [OF assms(5,6,3,4)]
    by (simp add: tmp_selects nomads_main_def client_def base_def)
qed

text \<open>
  The two parsers only produce ranges that \<open>get_range\<close> accepts: no entry of a parsed NOMADS
  inventory or ECMWF index is refused as an overflow.
\<close>

theorem parsed_ranges_requestable:
  assumes "parse_nomads_idx text = Inr es \<or> parse_ecmwf_index G text = Inr es" and "e \<in> set es"
  shows "\<not> range_overflows (e_offset e) (e_length e)"
  using assms(1)
proof
  assume n: "parse_nomads_idx text = Inr es"
  obtain i where i: "i < length es" "e = es ! i" using assms(2) by (auto simp: in_set_conv_nth)
  show ?thesis
  proof (cases "i + 1 < length es")
    case True
    then show ?thesis
      using ranges_tile [OF n] i unat_u64_less [of "e_offset (es ! (i + 1))"]
      by (auto simp: range_overflows_iff)
  next
    case False
    then have "e = last es" using i by (metis Suc_eq_plus1 diff_Suc_1 last_conv_nth
          length_0_conv less_nat_zero_code less_SucE not_less_eq nat_neq_iff less_Suc_eq)
    then show ?thesis using ranges_tile [OF n] i by (auto simp: range_overflows_iff)
  qed
next
  assume "parse_ecmwf_index G text = Inr es"
  from ranges_fit [OF this assms(2)] show ?thesis by (auto simp: range_overflows_iff)
qed

section \<open>A concrete server for the witness\<close>

text \<open>
  A libcurl that answers a request without a Range with a text, and a request with one with
  the bytes of the file that the Range text names, read back from the option. The Content-Range
  stands between other fields, in small letters as in HTTP/2.
\<close>

definition body_event :: "string \<Rightarrow> transfer_event" where
  "body_event body = Body_data body 1 (of_nat (length body)) True"

fun requested_range :: "curl_option list \<Rightarrow> string option" where
  "requested_range [] = None"
| "requested_range (Opt_range r # opts) = r"
| "requested_range (_ # opts) = requested_range opts"

definition read_range :: "string \<Rightarrow> string \<Rightarrow> u64 \<times> string" where
  "read_range file s =
     (case from_chars_u64 s of
        Parsed off rest \<Rightarrow>
          (off, case from_chars_u64 (tl rest) of
                  Parsed lst _ \<Rightarrow> take (unat lst + 1 - unat off) (drop (unat off) file)
                | _ \<Rightarrow> drop (unat off) file)
      | _ \<Rightarrow> (0, []))"

definition content_range_line :: "string \<Rightarrow> u64 \<Rightarrow> nat \<Rightarrow> string" where
  "content_range_line file off n =
     ''bytes '' @ dec_string (unat off) @ ''-'' @ dec_string (unat off + n - 1) @ ''/'' @
     dec_string (length file)"

definition range_head :: "string \<Rightarrow> transfer_event list" where
  "range_head line =
     [header_event ''HTTP/1.1 206 Partial Content'', header_event ''Server: S3'',
      header_event (''content-range: '' @ line), header_event ''ETag: 7'', header_event []]"

definition file_server :: "string \<Rightarrow> string \<Rightarrow> curl_option list \<Rightarrow> transfer" where
  "file_server text file opts =
     (case requested_range opts of
        None \<Rightarrow> \<lparr>tr_events = [body_event text], tr_code = CURLE_OK, tr_status = Some 200\<rparr>
      | Some s \<Rightarrow>
          (case read_range file s of
             (off, body) \<Rightarrow>
               \<lparr>tr_events = range_head (content_range_line file off (length body)) @ [body_event body],
                tr_code = CURLE_OK, tr_status = Some 206\<rparr>))"

definition file_curl :: "string \<Rightarrow> string \<Rightarrow> curl_api" where
  "file_curl text file =
     \<lparr>ca_slist = True, ca_setopt = \<lambda>_. True, ca_transfer = file_server text file,
      ca_strerror = \<lambda>_. ''error''\<rparr>"

lemma requested_range_options [simp]: "requested_range (request_options cfg path rng) = rng"
  by (simp add: request_options_def Let_def)

lemma file_curl_ready:
  assumes "is_absolute_url path" and "CHR 0x00 \<notin> set path"
  shows "request_ready (file_curl text file) sample_impl path rng"
proof -
  have "\<not> invalid_header (hc_user_agent default_config)"
    by (simp add: invalid_header_def default_config_def)
  then show ?thesis
    using assms
    by (simp add: request_ready_def sample_impl_def file_curl_def list_all_iff request_url_def)
      (simp add: default_config_def)
qed

lemma body_event_ok: "length body < 2 ^ 64 \<Longrightarrow> event_ok (body_event body)"
  using unat_of_nat_u64 [of "length body"] by (simp add: body_event_def)

lemma read_range_text:
  assumes "\<not> range_overflows off len"
  shows "read_range file (range_text off len) = (off, file_slice file off len)"
proof (cases "len = 0")
  case True
  have "from_chars_u64 (dec_string (unat off) @ ''-'') = Parsed off ''-''"
    using from_chars_u64_dec [of "unat off" "''-''"] unat_u64_less [of off] by (simp add: is_digit_def)
  then show ?thesis
    using True range_text_value [OF assms]
    by (simp add: read_range_def file_slice_def) (simp add: from_chars_u64_def)
next
  case False
  then have pos: "0 < unat len" by (simp add: unat_gt_0)
  let ?l = "unat off + unat len - 1"
  have l: "?l < 2 ^ 64" using assms pos by (simp add: range_overflows_iff)
  have "from_chars_u64 (dec_string (unat off) @ CHR ''-'' # dec_string ?l) =
      Parsed off (CHR ''-'' # dec_string ?l)"
    using from_chars_u64_dec [of "unat off" "CHR ''-'' # dec_string ?l"] unat_u64_less [of off]
    by (simp add: is_digit_def)
  moreover have "from_chars_u64 (dec_string ?l) = Parsed (of_nat ?l) []"
    using from_chars_u64_dec [OF l, of "[]"] by simp
  moreover have "unat (of_nat ?l :: u64) = ?l" using l by (rule unat_of_nat_u64)
  moreover have "?l + 1 - unat off = unat len" using pos by simp
  ultimately show ?thesis
    using False range_text_value [OF assms] by (simp add: read_range_def file_slice_def)
qed

lemma dec_string_short: "n < 2 ^ 64 \<Longrightarrow> length (dec_string n) \<le> 20"
  by (rule dec_string_length) simp_all

lemma content_range_header:
  assumes "length file < 2 ^ 64" and "unat off + n \<le> length file"
  shows "event_ok (header_event (''content-range: '' @ content_range_line file off n))"
    and "parse_header ((''content-range: '' @ content_range_line file off n) @ crlf) =
      [(''content-range'', content_range_line file off n)]"
proof -
  let ?v = "content_range_line file off n"
  have "unat off + n - 1 < 2 ^ 64" using assms by linarith
  then have "length ?v \<le> 68"
    using dec_string_short [of "unat off"] dec_string_short [of "unat off + n - 1"]
      dec_string_short [of "length file"] assms unat_u64_less [of off]
    by (simp add: content_range_line_def)
  then have small: "length (''content-range: '' @ ?v) + 2 < 2 ^ 64" by simp
  then show "event_ok (header_event (''content-range: '' @ ?v))"
    using unat_of_nat_u64 [OF small] by (simp add: header_event_def crlf_def)
  have "is_digit (last (dec_string (length file)))"
    using dec_string_digits [of "length file"] by simp
  then have last: "last ?v \<notin> set header_blank"
    by (auto simp: content_range_line_def header_blank_def is_digit_def)
  have "hd ?v \<notin> set header_blank" by (simp add: content_range_line_def header_blank_def)
  then have "parse_header (''content-range'' @ CHR '':'' # '' '' @ ?v @ crlf) = [(''content-range'', ?v)]"
    using last by (intro parse_header_padded) (simp_all add: header_blank_def crlf_def)
  then show "parse_header ((''content-range: '' @ ?v) @ crlf) = [(''content-range'', ?v)]" by simp
qed

lemma content_range_says:
  assumes "0 < n" shows "says_range (content_range_line file off n) (unat off) n (length file)"
  unfolding says_range_def content_range_line_def
  by (intro exI [of _ "dec_string (unat off)"] exI [of _ "dec_string (unat off + n - 1)"]
      exI [of _ "dec_string (length file)"]) simp

lemma range_head_facts:
  fixes grib off n
  defines "line \<equiv> content_range_line grib off n"
  assumes "length grib < 2 ^ 64" and "unat off + n \<le> length grib"
  shows "list_all event_ok (range_head line)" and "body_bytes (range_head line) = []"
    and "concat (map parse_header (last_block (header_lines (range_head line)))) =
      [(''Server'', ''S3''), (''content-range'', line), (''ETag'', ''7'')]"
proof -
  note h = content_range_header [OF assms(2,3), folded line_def]
  show "list_all event_ok (range_head line)"
    using h(1) by (simp add: range_head_def) (simp add: header_event_def crlf_def)
  show "body_bytes (range_head line) = []" by (simp add: range_head_def header_event_def)
  have p: "parse_header (''Server: S3'' @ crlf) = [(''Server'', ''S3'')]"
    "parse_header (''ETag: 7'' @ crlf) = [(''ETag'', ''7'')]"
    using parse_header_padded [of "''Server''" "'' ''" crlf "''S3''"]
      parse_header_padded [of "''ETag''" "'' ''" crlf "''7''"]
    by (simp_all add: header_blank_def crlf_def)
  have none: "parse_header (''HTTP/1.1 206 Partial Content'' @ crlf) = []" "parse_header crlf = []"
    by (simp_all add: parse_header_def find_char_def crlf_def)
  have "last_block (header_lines (range_head line)) =
      [''HTTP/1.1 206 Partial Content'' @ crlf, ''Server: S3'' @ crlf, (''content-range: '' @ line) @ crlf,
       ''ETag: 7'' @ crlf, [] @ crlf]"
    by (simp add: range_head_def header_event_def starts_block_def crlf_def)
  then show "concat (map parse_header (last_block (header_lines (range_head line)))) =
      [(''Server'', ''S3''), (''content-range'', line), (''ETag'', ''7'')]"
    by (simp only: h(2) [unfolded append.simps] p [unfolded append.simps] none [unfolded append.simps]
        list.map concat.simps append.simps append_Nil2)
qed

lemma file_curl_serves:
  assumes "is_absolute_url path" and "CHR 0x00 \<notin> set path" and flen: "length file < 2 ^ 64"
  shows "serves (file_curl text file) (Some sample_impl) path file"
  unfolding serves_def
proof (intro allI impI)
  fix off len :: u64
  assume r: "\<not> range_overflows off len \<and> unat off < length file \<and>
    accepts_body (Some sample_impl) (length (file_slice file off len))"
  let ?rng = "Some (range_text off len)"
  let ?body = "file_slice file off len"
  let ?line = "content_range_line file off (length ?body)"
  let ?hs = "[(''Server'', ''S3''), (''content-range'', ?line), (''ETag'', ''7'')]"
  have bound: "unat off + length ?body \<le> length file" using r by (auto simp: slice_length)
  have ne: "0 < length ?body" using r by (auto simp: slice_length unat_gt_0)
  note head = range_head_facts [OF flen bound]
  define tr where "tr = \<lparr>tr_events = range_head ?line @ [body_event ?body],
    tr_code = CURLE_OK, tr_status = Some 206\<rparr>"
  have tr: "ca_transfer (file_curl text file) (request_options (ci_config sample_impl) path ?rng) = tr"
    using r by (simp add: file_curl_def file_server_def read_range_text tr_def)
  have "length ?body < 2 ^ 64" using bound flen by linarith
  then have ok: "list_all event_ok (tr_events tr)" using head(1) body_event_ok by (simp add: tr_def)
  have fields: "concat (map parse_header (last_block (header_lines (tr_events tr)))) = ?hs"
    using head(3) by (simp add: tr_def body_event_def range_head_def header_event_def)
  have "body_bytes (tr_events tr) = ?body" by (simp add: tr_def range_head_def header_event_def body_event_def)
  moreover have "to_int16 206 = 206" by (simp add: to_int16_def)
  moreover have "tr_code tr = CURLE_OK" "tr_status tr = Some 206" by (simp_all add: tr_def)
  moreover have "hc_max_response_bytes (ci_config sample_impl) = 0 \<or>
      length ?body \<le> unat (hc_max_response_bytes (ci_config sample_impl))"
    using r by (simp add: accepts_body_def client_config_def Let_def)
  ultimately have "perform (file_curl text file) (Some sample_impl) path ?rng =
      Inr \<lparr>hr_status = 206, hr_body = ?body, hr_headers = ?hs\<rparr>"
    using perform_delivers [OF file_curl_ready [OF assms(1,2)] tr ok] fields by simp
  moreover have "range_fields ?hs (unat off) (length ?body) (length file)"
    unfolding range_fields_def
    by (intro exI [of _ "[(''Server'', ''S3'')]"] exI [of _ "''content-range''"] exI [of _ ?line]
        exI [of _ "[(''ETag'', ''7'')]"] conjI content_range_says [OF ne])
      (simp_all add: same_name_def same_letter_def)
  ultimately show "\<exists>hs. perform (file_curl text file) (Some sample_impl) path ?rng =
      Inr \<lparr>hr_status = 206, hr_body = ?body, hr_headers = hs\<rparr> \<and>
      range_fields hs (unat off) (length ?body) (length file)" by blast
qed

lemma file_curl_text:
  assumes "is_absolute_url path" and "CHR 0x00 \<notin> set path" and "length text \<le> 67108864"
  shows "perform (file_curl text file) (Some sample_impl) path None =
    Inr \<lparr>hr_status = 200, hr_body = text, hr_headers = []\<rparr>"
proof -
  define tr where "tr = \<lparr>tr_events = [body_event text], tr_code = CURLE_OK, tr_status = Some 200\<rparr>"
  have tr: "ca_transfer (file_curl text file) (request_options (ci_config sample_impl) path None) = tr"
    by (simp add: file_curl_def file_server_def tr_def)
  have ok: "list_all event_ok (tr_events tr)" using body_event_ok [of "text"] assms(3) by (simp add: tr_def)
  have "to_int16 200 = 200" by (simp add: to_int16_def)
  then show ?thesis
    using perform_delivers [OF file_curl_ready [OF assms(1,2)] tr ok] assms(3)
    by (simp add: tr_def body_event_def sample_impl_def default_config_def)
qed

definition sample_messages :: "string list" where
  "sample_messages = [grib2_message CHR 0x00 ''ab'', grib2_message CHR 0x01 ''c'']"

definition message_rows :: "nomads_row list" where
  "message_rows =
     [\<lparr>r_record = 1, r_offset = 0, r_date = ''d=2026051700'', r_var = ''PRMSL'',
       r_level = ''mean sea level'', r_fcst = ''anl'', r_ens = No_ens\<rparr>,
      \<lparr>r_record = 2, r_offset = 22, r_date = ''d=2026051700'', r_var = ''TMP'',
       r_level = ''2 m above ground'', r_fcst = ''anl'', r_ens = No_ens\<rparr>]"

lemma sample_inventory: "inventory_of sample_messages message_rows"
  by (auto simp: inventory_of_def sample_messages_def message_rows_def valid_row_def
      grib2_message_def less_Suc_eq)

lemma tmp_row: "selects tmp_selector (row_entry (message_rows ! 1))"
  and other_row: "\<not> selects tmp_selector (row_entry (message_rows ! 0))"
  by (simp_all add: selects_def tmp_selector_def row_entry_def message_rows_def sublist_Cons_right)

lemma inventory_small: "length (print_inventory message_rows) \<le> 67108864"
  using dec_string_short [of 0] dec_string_short [of 1] dec_string_short [of 2] dec_string_short [of 22]
  by (simp add: print_inventory_def row_line_def row_fields_def message_rows_def to_string_u64_def)

theorem nomads_end_to_end_witness:
  "nomads_example (file_curl (print_inventory message_rows) []) (file_curl [] (concat sample_messages))
     sample_eccodes (Some sample_impl) ''https://a/f'' tmp_selector (Fin 40) (Fin (- 75)) =
   (case extract_point sample_eccodes (grib2_message CHR 0x01 ''c'') (Fin 40) (Fin (- 75)) of
      Inl _ \<Rightarrow> None | Inr k \<Rightarrow> Some k)"
proof -
  have url: "is_absolute_url (''https://a/f'' @ x)" for x
    using is_absolute_url_intro [of "''https''" "''a/f'' @ x"]
    by (simp add: is_alpha_def scheme_chars_def)
  have idx: "perform (file_curl (print_inventory message_rows) []) (Some sample_impl)
      (''https://a/f'' @ ''.idx'') None =
      Inr \<lparr>hr_status = 200, hr_body = print_inventory message_rows, hr_headers = []\<rparr>"
    by (intro file_curl_text url inventory_small) simp
  have srv: "serves (file_curl [] (concat sample_messages)) (Some sample_impl) ''https://a/f''
      (concat sample_messages)"
    using url [of "[]"] by (intro file_curl_serves) (simp_all add: sample_messages_def grib2_message_def)
  show ?thesis
    using nomads_end_to_end [OF sample_inventory _ tmp_row _ idx srv] other_row
    by (simp add: sample_messages_def grib2_message_def accepts_body_def client_config_def sample_impl_def
        default_config_def)
qed

theorem parsed_ranges_requestable_witness:
  "\<not> range_overflows (e_offset (row_entry (sample_rows ! 1))) (e_length (row_entry (sample_rows ! 1)))"
  using parsed_ranges_requestable [of "print_inventory sample_rows"
      "with_lengths (map row_entry sample_rows)" undefined "row_entry (sample_rows ! 1)"]
    sample_rows_parse
  by (simp add: sample_rows_def)


text \<open>The witness of the whole program: at noon of May 17, 2025 the file of May 16.\<close>

lemma nomads_url: "is_absolute_url (nomads_base ymd @ x)"
  using is_absolute_url_intro [of "''https''" "''noaa-gfs-bdp-pds.s3.amazonaws.com/gfs.'' @ ymd @
      ''/00/atmos/gfs.t00z.pgrb2.0p25.f000'' @ x"]
  by (simp add: nomads_base_def is_alpha_def scheme_chars_def)

theorem nomads_main_yesterday_witness:
  "nomads_main (file_curl (print_inventory message_rows) []) (file_curl [] (concat sample_messages))
     sample_eccodes True True 1747483200 =
   (case extract_point sample_eccodes (grib2_message CHR 0x01 ''c'') (round64 (407128 / 10000))
       (round64 (- 740060 / 10000)) of
      Inl _ \<Rightarrow> None | Inr k \<Rightarrow> Some k)"
proof -
  have client: "new_client True True default_config = Some sample_impl"
    by (simp add: new_client_def sample_impl_def)
  have date: "valid_date 2025 5 16" "day_number 2025 5 16 = 1747483200 div 86400 - 1" by code_simp+
  have ymd: "ymd_text 2025 5 16 = ''20250516''" by code_simp
  have idx: "perform (file_curl (print_inventory message_rows) []) (Some sample_impl)
      (nomads_base ''20250516'' @ ''.idx'') None =
      Inr \<lparr>hr_status = 200, hr_body = print_inventory message_rows, hr_headers = []\<rparr>"
    by (intro file_curl_text nomads_url inventory_small) (simp add: nomads_base_def)
  have srv: "serves (file_curl [] (concat sample_messages)) (Some sample_impl) (nomads_base ''20250516'')
      (concat sample_messages)"
    using nomads_url [of "''20250516''" "[]"]
    by (intro file_curl_serves) (simp_all add: sample_messages_def grib2_message_def nomads_base_def)
  show ?thesis
    using nomads_main_yesterday [of 2025 5 16 1747483200 sample_messages message_rows 1
        "file_curl (print_inventory message_rows) []" "[]", unfolded client ymd, OF date _ _ sample_inventory _ _
        _ _ idx srv] tmp_row other_row
    by (simp add: tmp_selects sample_messages_def grib2_message_def)
qed

end
