(* ===== verification/Ecmwf_Pipeline.thy ===== *)
theory Ecmwf_Pipeline
  imports Pipeline
begin

text \<open>
  The program \<open>examples/example_ecmwf_index.cpp\<close>: the same flow as the NOMADS program with the JSON
  index of ECMWF, whose records name their bytes themselves. \<open>None\<close> stands for \<open>return 1\<close>, the
  printing is left out.
\<close>

section \<open>The example program\<close>

definition ecmwf_base :: "string \<Rightarrow> string" where
  "ecmwf_base ymd =
     ''https://data.ecmwf.int/forecasts/'' @ ymd @ ''/00z/ifs/0p25/oper/'' @ ymd @
     ''000000-0h-oper-fc.grib2''"

text \<open>\<open>base.size() - 6\<close> is computed in 64 bits and \<open>substr\<close> cuts at the end of the string.\<close>

definition ecmwf_index_url :: "string \<Rightarrow> string" where
  "ecmwf_index_url base = take (unat (of_nat (length base) - 6 :: u64)) base @ ''.index''"

definition ecmwf_example :: "curl_api \<Rightarrow> curl_api \<Rightarrow> 'j glaze \<Rightarrow> ('h, 'n) eccodes \<Rightarrow> http_client \<Rightarrow>
    string \<Rightarrow> grib_selector \<Rightarrow> double \<Rightarrow> double \<Rightarrow> double option" where
  "ecmwf_example A0 A1 G E client base sel lat lon =
     (case http_get A0 client (ecmwf_index_url base) of
        Inl _ \<Rightarrow> None
      | Inr idx \<Rightarrow>
          if hr_status idx \<noteq> 200 then None
          else
            (case parse_ecmwf_index G (hr_body idx) of
               Inl _ \<Rightarrow> None
             | Inr entries \<Rightarrow>
                 (case select entries sel of
                    [] \<Rightarrow> None
                  | rec # _ \<Rightarrow>
                      (case get_range A1 client base (e_offset rec) (e_length rec) of
                         Inl _ \<Rightarrow> None
                       | Inr blob \<Rightarrow>
                           if hr_status blob \<noteq> 206 then None
                           else
                             (case extract_point E (hr_body blob) lat lon of
                                Inl _ \<Rightarrow> None
                              | Inr kelvin \<Rightarrow> Some kelvin)))))"

definition temp_selector :: grib_selector where
  "temp_selector = \<lparr>s_param = Some ''2t'', s_level = None, s_step = None, s_member = None\<rparr>"

definition ecmwf_main :: "curl_api \<Rightarrow> curl_api \<Rightarrow> 'j glaze \<Rightarrow> ('h, 'n) eccodes \<Rightarrow> bool \<Rightarrow> bool \<Rightarrow>
    int \<Rightarrow> double option" where
  "ecmwf_main A0 A1 G E global easy t =
     (case date_text t of
        None \<Rightarrow> None
      | Some ymd \<Rightarrow>
          ecmwf_example A0 A1 G E (new_client global easy default_config) (ecmwf_base ymd) temp_selector
            (round64 (515074 / 10000)) (round64 (- 1278 / 10000)))"

text \<open>For a file name that ends in \<open>.grib2\<close> the index is its sibling.\<close>

lemma index_url_sibling:
  assumes "length stem + 6 < 2 ^ 64"
  shows "ecmwf_index_url (stem @ ''.grib2'') = stem @ ''.index''"
proof -
  have "of_nat (length (stem @ ''.grib2'')) - 6 = (of_nat (length stem) :: u64)" by simp
  moreover have "unat (of_nat (length stem) :: u64) = length stem"
    using assms by (intro unat_of_nat_u64) linarith
  ultimately show ?thesis by (simp add: ecmwf_index_url_def)
qed

section \<open>An index and the bytes it names\<close>

definition index_lines :: "string list \<Rightarrow> bool" where
  "index_lines ls \<longleftrightarrow> (\<forall>l \<in> set ls. l \<noteq> [] \<and> CHR 0x0A \<notin> set l \<and> last l \<noteq> CHR 0x0D)"

definition index_text :: "string list \<Rightarrow> string" where
  "index_text ls = concat (map (\<lambda>l. l @ [CHR 0x0A]) ls)"

definition json_number :: "'j glaze \<Rightarrow> 'j \<Rightarrow> string \<Rightarrow> u64 option" where
  "json_number G doc key =
     (case gz_find G doc key of
        Some v \<Rightarrow> if gz_is_number G v then exact_u64 G v else None
      | None \<Rightarrow> None)"

text \<open>The line is a JSON object that names \<open>len\<close> bytes from \<open>off\<close>.\<close>

definition locates :: "'j glaze \<Rightarrow> string \<Rightarrow> u64 \<Rightarrow> u64 \<Rightarrow> bool" where
  "locates G line off len \<longleftrightarrow>
     (case gz_read G line of
        Some doc \<Rightarrow> gz_is_object G doc \<and> json_number G doc ''_offset'' = Some off \<and>
          json_number G doc ''_length'' = Some len
      | None \<Rightarrow> False)"

definition picks :: "'j glaze \<Rightarrow> grib_selector \<Rightarrow> string \<Rightarrow> bool" where
  "picks G sel line \<longleftrightarrow>
     (case ecmwf_entry G line of Inr e \<Rightarrow> selects sel e | Inl _ \<Rightarrow> False)"

lemma json_lines_text:
  assumes "index_lines ls"
  shows "json_lines (index_text ls) = ls"
proof -
  have "split (index_text ls) CHR 0x0A = ls @ [[]]"
    using assms unfolding index_text_def index_lines_def by (intro splitter.cut_terminated) auto
  moreover have "map strip_cr ls = ls"
    using assms by (intro map_idI) (auto simp: index_lines_def strip_cr_def)
  moreover have "filter (\<lambda>l. l \<noteq> []) ls = ls"
    using assms by (intro filter_True) (auto simp: index_lines_def)
  ultimately show ?thesis by (simp add: json_lines_def strip_cr_def)
qed

lemma entry_range:
  assumes "ecmwf_entry G line = Inr e" and "locates G line off len"
  shows "e_offset e = off \<and> e_length e = len"
  using assms(1)
proof (rule ecmwf_entry_InrE)
  fix doc
  assume "gz_read G line = Some doc" and "ecmwf_range G doc line = Inr (e_offset e, e_length e)"
  then show ?thesis
    using assms(2)
    by (auto simp: locates_def json_number_def ecmwf_range_def split: option.splits if_splits)
qed

lemma parse_index_text:
  assumes "index_lines ls" and "\<forall>l \<in> set ls. is_value (ecmwf_entry G l)"
  shows "parse_ecmwf_index G (index_text ls) = Inr (map (\<lambda>l. projr (ecmwf_entry G l)) ls)"
proof -
  have "collect (ecmwf_entry G) ls = Inr (map (\<lambda>l. projr (ecmwf_entry G l)) ls)"
    using assms(2) by (intro collect_map) (auto simp: is_value_iff)
  then show ?thesis by (simp add: parse_ecmwf_index_collect json_lines_text [OF assms(1)])
qed

lemma picked_first:
  assumes "\<forall>l \<in> set ls. is_value (ecmwf_entry G l)" and "i < length ls"
    and "picks G sel (ls ! i)" and "\<forall>j < i. \<not> picks G sel (ls ! j)"
  shows "\<exists>ys. select (map (\<lambda>l. projr (ecmwf_entry G l)) ls) sel = projr (ecmwf_entry G (ls ! i)) # ys"
proof -
  have "selects sel (projr (ecmwf_entry G (ls ! j))) = picks G sel (ls ! j)" if "j < length ls" for j
  proof -
    have "is_value (ecmwf_entry G (ls ! j))" using assms(1) that by simp
    then show ?thesis by (auto simp: picks_def is_value_iff)
  qed
  then show ?thesis
    using assms(2-4) filter_first [of i "map (\<lambda>l. projr (ecmwf_entry G l)) ls" "selects sel"]
    by (simp add: select_filter)
qed

section \<open>Properties\<close>

text \<open>
  C2: end to end for ECMWF. For any JSON library, any index whose lines it accepts and any file
  behind a server that honours ranges and knows the file's length, whatever other header fields it
  sends, the program returns the value of exactly the bytes that the first selected line names,
  decoded alone; the lines may list the file in any order, and only these bytes have to be within
  the client's limit.
\<close>

theorem ecmwf_end_to_end:
  assumes "index_lines ls" and "\<forall>l \<in> set ls. is_value (ecmwf_entry G l)" and "i < length ls"
    and "picks G sel (ls ! i)" and "\<forall>j < i. \<not> picks G sel (ls ! j)"
    and "locates G (ls ! i) off len" and "0 < unat len" and "unat off + unat len \<le> length grib"
    and "length grib < 2 ^ 64"
    and "perform A0 client (ecmwf_index_url base) None =
           Inr \<lparr>hr_status = 200, hr_body = index_text ls, hr_headers = hs\<rparr>"
    and "serves A1 client base grib" and "accepts_body client (unat len)"
  shows "ecmwf_example A0 A1 G E client base sel lat lon =
    (case extract_point E (take (unat len) (drop (unat off) grib)) lat lon of
       Inl _ \<Rightarrow> None | Inr k \<Rightarrow> Some k)"
proof -
  let ?e = "projr (ecmwf_entry G (ls ! i))"
  obtain ys where sel: "select (map (\<lambda>l. projr (ecmwf_entry G l)) ls) sel = ?e # ys"
    using picked_first [OF assms(2-5)] by blast
  have "is_value (ecmwf_entry G (ls ! i))" using assms(2,3) by simp
  then have "ecmwf_entry G (ls ! i) = Inr ?e" by (auto simp: is_value_iff)
  then have e: "e_offset ?e = off" "e_length ?e = len" using entry_range [OF _ assms(6)] by auto
  have "\<not> range_overflows off len" and "unat off < length grib"
    using assms(7-9) by (auto simp: range_overflows_iff)
  moreover have slice: "file_slice grib off len = take (unat len) (drop (unat off) grib)"
    and "length (file_slice grib off len) = unat len"
    using assms(7,8) by (auto simp: file_slice_def)
  ultimately obtain fields where "get_range A1 client base off len =
      Inr \<lparr>hr_status = 206, hr_body = take (unat len) (drop (unat off) grib), hr_headers = fields\<rparr>"
    using served_range [OF assms(11) _ _ assms(9)] assms(12) by metis
  then show ?thesis
    using assms(10) parse_index_text [OF assms(1,2)] sel e by (simp add: ecmwf_example_def http_get_def)
qed

section \<open>A concrete index for the witness\<close>

definition two_docs :: "(string \<times> jval) list" where
  "two_docs =
     [(''{t}'', JObj [(''param'', JStr ''2t''), (''_offset'', JU64 22), (''_length'', JU64 21)]),
      (''{p}'', JObj [(''param'', JStr ''msl''), (''_offset'', JU64 0), (''_length'', JU64 22)])]"

lemma two_docs_entries:
  "ecmwf_entry (table_glaze two_docs) ''{t}'' =
     Inr (new_entry\<lparr>e_raw := ''{t}'', e_offset := 22, e_length := 21, e_param := ''2t''\<rparr>)"
  "ecmwf_entry (table_glaze two_docs) ''{p}'' =
     Inr (new_entry\<lparr>e_raw := ''{p}'', e_offset := 0, e_length := 22, e_param := ''msl''\<rparr>)"
  by (simp_all add: two_docs_def sample_index_defs new_entry_def)

theorem ecmwf_end_to_end_witness:
  "ecmwf_example (file_curl (index_text [''{p}'', ''{t}'']) []) (file_curl [] (concat sample_messages))
     (table_glaze two_docs) sample_eccodes (Some sample_impl) ''https://a/f.grib2'' temp_selector
     (Fin 51) (Fin 0) =
   (case extract_point sample_eccodes (grib2_message CHR 0x01 ''c'') (Fin 51) (Fin 0) of
      Inl _ \<Rightarrow> None | Inr k \<Rightarrow> Some k)"
proof -
  let ?G = "table_glaze two_docs" and ?ls = "[''{p}'', ''{t}'']"
  have url: "is_absolute_url (''https://a/f'' @ x)" for x
    using is_absolute_url_intro [of "''https''" "''a/f'' @ x"]
    by (simp add: is_alpha_def scheme_chars_def)
  have index: "ecmwf_index_url ''https://a/f.grib2'' = ''https://a/f.index''"
    using index_url_sibling [of "''https://a/f''"] by simp
  have pick: "picks ?G temp_selector ''{t}''" "\<not> picks ?G temp_selector ''{p}''"
    by (simp_all add: picks_def two_docs_entries selects_def temp_selector_def new_entry_def
        sublist_Cons_right)
  have loc: "locates ?G ''{t}'' 22 21"
    by (simp add: locates_def json_number_def two_docs_def table_glaze_def exact_u64_def)
  have idx: "perform (file_curl (index_text ?ls) []) (Some sample_impl) (ecmwf_index_url ''https://a/f.grib2'')
      None = Inr \<lparr>hr_status = 200, hr_body = index_text ?ls, hr_headers = []\<rparr>"
    unfolding index using url [of "''.index''"] by (intro file_curl_text) (simp_all add: index_text_def)
  have srv: "serves (file_curl [] (concat sample_messages)) (Some sample_impl) ''https://a/f.grib2''
      (concat sample_messages)"
    using url [of "''.grib2''"]
    by (intro file_curl_serves) (simp_all add: sample_messages_def grib2_message_def)
  have bytes: "take 21 (drop 22 (concat sample_messages)) = grib2_message CHR 0x01 ''c''"
    and len: "length (concat sample_messages) = 43"
    by (simp_all add: sample_messages_def grib2_message_def)
  show ?thesis
    using ecmwf_end_to_end [of ?ls ?G 1 temp_selector 22 21, OF _ _ _ _ _ _ _ _ _ idx srv] pick loc bytes len
    by (simp add: index_lines_def two_docs_entries accepts_body_def client_config_def sample_impl_def
        default_config_def)
qed

end
