(* ===== verification/Handle_Refinement.thy ===== *)
theory Handle_Refinement
  imports Handle_Ownership Grib_Handle Traces
begin

text \<open>
  The two views of \<open>GribHandle\<close> in \<open>src/decode/handle.cpp\<close> brought together. \<open>Grib_Handle\<close> has
  objects that are values, \<open>Handle_Ownership\<close> a store of C objects that the objects point to. Here
  the store refines the values: the pointers of an object are its value, every operation on the
  store is the operation on values, and \<open>nearest\<close> hands ecCodes only pointers that are live
  and belong together.
\<close>

section \<open>Objects as values\<close>

definition value_of :: "handle_obj \<Rightarrow> (nat, nat) grib_handle" where
  "value_of ob = \<lparr>gh_h = ho_h ob, gh_nearest = ho_nearest ob\<rparr>"

definition moved_from :: "(nat, nat) grib_handle" where
  "moved_from = \<lparr>gh_h = None, gh_nearest = None\<rparr>"

definition values_of :: "c_store \<Rightarrow> nat \<rightharpoonup> (nat, nat) grib_handle" where
  "values_of s x = map_option value_of (cs_objs s x)"

text \<open>The operations on values; \<open>k\<close> is the identity of the C object that ecCodes returns.\<close>

fun value_op :: "handle_op \<times> nat \<Rightarrow> (nat \<rightharpoonup> (nat, nat) grib_handle) \<Rightarrow>
    (nat \<rightharpoonup> (nat, nat) grib_handle) option" where
  "value_op (Create x, k) m = Some (m(x \<mapsto> \<lparr>gh_h = Some k, gh_nearest = None\<rparr>))"
| "value_op (Destroy x, k) m = (if m x = None then None else Some (m(x := None)))"
| "value_op (Move_construct y x, k) m =
     map_option (\<lambda>g. m(y \<mapsto> g, x \<mapsto> moved_from)) (m x)"
| "value_op (Move_assign y x, k) m =
     (if x = y then Some m
      else if m y = None then None
      else map_option (\<lambda>g. m(y \<mapsto> g, x \<mapsto> moved_from)) (m x))"
| "value_op (Open_search x outcome, k) m =
     map_option (\<lambda>g.
       if gh_h g \<noteq> None \<and> gh_nearest g = None \<and> outcome = Search_ok
       then m(x \<mapsto> g\<lparr>gh_nearest := Some k\<rparr>) else m) (m x)"

lemma value_of_simps [simp]:
  "gh_h (value_of ob) = ho_h ob" "gh_nearest (value_of ob) = ho_nearest ob"
  "value_of null_obj = moved_from"
  by (simp_all add: value_of_def null_obj_def moved_from_def)

lemma values_upd:
  "map_option value_of \<circ> m(x := c) = (map_option value_of \<circ> m)(x := map_option value_of c)"
  by auto

lemma values_of_comp: "values_of s = map_option value_of \<circ> cs_objs s"
  by (auto simp: values_of_def)

lemma exec_values:
  assumes "owned s" and "allowed_op p s" and "exec_op p s = Some s'"
  shows "value_op (p, cs_fresh s) (values_of s) = Some (values_of s')"
proof (cases p)
  case (Create x)
  then show ?thesis using assms(3) by (auto simp: values_of_comp values_upd Let_def value_of_def)
next
  case (Destroy x)
  then obtain ob where ob: "cs_objs s x = Some ob" using assms(2) by auto
  obtain s1 where "free_members ob s = Some s1" "cs_objs s1 = cs_objs s"
    using release [OF assms(1) ob] by blast
  then show ?thesis using Destroy ob assms(3) by (auto simp: values_of_comp values_upd)
next
  case (Move_construct y x)
  then show ?thesis using assms(2,3) by (auto simp: values_of_comp values_upd split: option.splits)
next
  case (Move_assign y x)
  then obtain dst src where ob: "cs_objs s y = Some dst" "cs_objs s x = Some src" using assms(2) by auto
  obtain s1 where "free_members dst s = Some s1" "cs_objs s1 = cs_objs s"
    using release [OF assms(1) ob(1)] by blast
  then show ?thesis using Move_assign ob assms(3) by (auto simp: values_of_comp values_upd split: if_splits)
next
  case (Open_search x r)
  then obtain ob where ob: "cs_objs s x = Some ob" using assms(2) by auto
  have "value_of (ob\<lparr>ho_nearest := Some n\<rparr>) = (value_of ob)\<lparr>gh_nearest := Some n\<rparr>" for n
    by (simp add: value_of_def)
  then show ?thesis using Open_search ob assms(3)
    by (cases r; cases "ho_h ob"; cases "ho_nearest ob")
      (auto simp: values_of_comp values_upd Let_def nearest_delete_def split: if_splits)
qed

section \<open>Every program\<close>

inductive handle_step :: "c_store \<Rightarrow> (handle_op \<times> nat) list \<Rightarrow> c_store \<Rightarrow> bool" where
  "allowed_op p s \<Longrightarrow> exec_op p s = Some s' \<Longrightarrow> handle_step s [(p, cs_fresh s)] s'"

inductive_cases handle_stepE: "handle_step s es s'"

definition store_values :: "c_store \<Rightarrow> (nat \<rightharpoonup> (nat, nat) grib_handle) \<Rightarrow> bool" where
  "store_values s m \<longleftrightarrow> owned s \<and> m = values_of s"

lemma exec_keeps_owned: "owned s \<Longrightarrow> allowed_op p s \<Longrightarrow> exec_op p s = Some s' \<Longrightarrow> owned s'"
  using exec_owned [of s p] by auto

interpretation handles: simulation handle_step value_op store_values
proof
  fix s m e s'
  assume m: "store_values s m" and "handle_step s e s'"
  then obtain p where p: "e = [(p, cs_fresh s)]" "allowed_op p s" "exec_op p s = Some s'"
    by (auto elim: handle_stepE)
  have own: "owned s" using m by (simp add: store_values_def)
  show "\<exists>m'. replay value_op e m = Some m' \<and> store_values s' m'"
    using exec_values [OF own p(2,3)] exec_keeps_owned [OF own p(2,3)] m p(1)
    by (simp add: store_values_def)
qed

lemma empty_store_values: "store_values empty_store Map.empty"
proof -
  have "values_of empty_store = Map.empty" by (simp add: values_of_comp empty_store_def fun_eq_iff)
  then show ?thesis by (simp add: store_values_def owned_empty)
qed

section \<open>The search on the store\<close>

text \<open>What \<open>codes_grib_nearest_new\<close> answers in each outcome, with \<open>n\<close> the object it creates.\<close>

definition new_answer :: "search_outcome \<Rightarrow> int \<Rightarrow> nat \<Rightarrow> int \<times> nat option" where
  "new_answer outcome err n =
     (case outcome of
        No_search \<Rightarrow> (err, None)
      | Search_and_error \<Rightarrow> (if err = 0 then 1 else err, Some n)
      | Search_ok \<Rightarrow> (0, Some n))"

definition good_coordinates :: "double \<Rightarrow> double \<Rightarrow> bool" where
  "good_coordinates lat lon \<longleftrightarrow>
     is_finite lat \<and> \<not> lat < Fin (- 90) \<and> \<not> Fin 90 < lat \<and> is_finite lon"

lemma nearest_on_values:
  assumes "ho_h ob = Some h" and "good_coordinates lat lon"
    and "ho_nearest ob = None \<Longrightarrow> ec_nearest_new E h = new_answer outcome err k"
    and "ob' = (if ho_nearest ob = None \<and> outcome = Search_ok then ob\<lparr>ho_nearest := Some k\<rparr> else ob)"
  shows "snd (nearest E (value_of ob) lat lon) = value_of ob'"
    and "ho_nearest ob' = Some n \<Longrightarrow> fst (nearest E (value_of ob) lat lon) = run_nearest E n h lat (wrap_lon lon)"
    and "ho_nearest ob' = None \<Longrightarrow> \<not> is_value (fst (nearest E (value_of ob) lat lon))"
  using assms
  by (auto simp: nearest_def good_coordinates_def open_nearest_def new_answer_def value_of_def Let_def
      split: option.splits search_outcome.splits)

lemma live_objects:
  assumes "owned s" and "cs_objs s x = Some ob" and "ho_h ob = Some h"
  shows "h \<in> cs_handles s" and "ho_nearest ob = Some n \<Longrightarrow> (n, h) \<in> cs_searches s"
proof -
  have "owns_handle s x h" using assms(2,3) by (auto simp: owns_handle_def)
  then show "h \<in> cs_handles s" using ownedD(1) [OF assms(1)] by blast
  show "(n, h) \<in> cs_searches s" if "ho_nearest ob = Some n"
    using ownedD(2) [OF assms(1)] \<open>owns_handle s x h\<close> assms(2) that by (auto simp: owns_search_def)
qed

section \<open>Properties\<close>

text \<open>
  C11: handles behave like values. Whatever program runs on the store, the objects hold what the
  same operations on values compute, and every pointer an object holds is live: its message
  is allocated, and its cached search is allocated and was opened on that message.
\<close>

theorem store_refines_values:
  assumes "exec handle_step empty_store es s"
  shows "replay value_op es Map.empty = Some (values_of s) \<and>
    (\<forall>x ob h. cs_objs s x = Some ob \<and> ho_h ob = Some h \<longrightarrow>
       h \<in> cs_handles s \<and> (\<forall>n. ho_nearest ob = Some n \<longrightarrow> (n, h) \<in> cs_searches s))"
proof -
  have "replay value_op es Map.empty = Some (values_of s) \<and> owned s"
    using handles.trace_included [OF assms empty_store_values] by (auto simp: store_values_def)
  then show ?thesis using live_objects by blast
qed

text \<open>
  C28: \<open>nearest\<close> on the store is \<open>nearest\<close> on values. For valid coordinates, whatever
  \<open>codes_grib_nearest_new\<close> answers, the step on the store succeeds and leaves the object that the
  value function computes; the search runs on a live search of a live message, or, when none
  could be opened, the result is an error.
\<close>

theorem nearest_on_store:
  assumes "reachable_store s" and "cs_objs s x = Some ob" and "ho_h ob = Some h"
    and "good_coordinates lat lon" and "ec_nearest_new E h = new_answer outcome err (cs_fresh s)"
  shows "\<exists>s' ob'. exec_op (Open_search x outcome) s = Some s' \<and> reachable_store s' \<and>
    cs_objs s' x = Some ob' \<and> snd (nearest E (value_of ob) lat lon) = value_of ob' \<and>
    h \<in> cs_handles s' \<and>
    (case ho_nearest ob' of
       None \<Rightarrow> \<not> is_value (fst (nearest E (value_of ob) lat lon))
     | Some n \<Rightarrow> (n, h) \<in> cs_searches s' \<and>
         fst (nearest E (value_of ob) lat lon) = run_nearest E n h lat (wrap_lon lon))"
proof -
  define ob' where
    "ob' = (if ho_nearest ob = None \<and> outcome = Search_ok then ob\<lparr>ho_nearest := Some (cs_fresh s)\<rparr> else ob)"
  have allowed: "allowed_op (Open_search x outcome) s" using assms(2) by simp
  then obtain s' where s': "exec_op (Open_search x outcome) s = Some s'" "owned s'"
    using exec_owned [OF reachable_owned [OF assms(1)]] by blast
  have r: "reachable_store s'" using reachable_store.step [OF assms(1) allowed s'(1)] .
  have obj: "cs_objs s' x = Some ob'"
    using s'(1) assms(2,3)
    by (cases outcome; cases "ho_nearest ob")
      (auto simp: ob'_def Let_def nearest_delete_def split: if_splits)
  have h: "ho_h ob' = Some h" using assms(3) by (simp add: ob'_def)
  note live = live_objects [OF s'(2) obj h]
  note val = nearest_on_values [OF assms(3,4) assms(5) ob'_def]
  show ?thesis using s' r obj live val by (cases "ho_nearest ob'") auto
qed

section \<open>A concrete program\<close>

lemma sample_handle_exec:
  "exec handle_step empty_store [(Create 0, 0)]
     \<lparr>cs_handles = {0}, cs_searches = {}, cs_fresh = 1,
      cs_objs = [0 \<mapsto> \<lparr>ho_h = Some 0, ho_nearest = None\<rparr>]\<rparr>"
proof -
  have "handle_step empty_store [(Create 0, cs_fresh empty_store)]
     \<lparr>cs_handles = {0}, cs_searches = {}, cs_fresh = 1,
      cs_objs = [0 \<mapsto> \<lparr>ho_h = Some 0, ho_nearest = None\<rparr>]\<rparr>"
    by (rule handle_step.intros) (simp_all add: empty_store_def Let_def)
  then show ?thesis using exec_more [OF exec_none, of handle_step empty_store] by (simp add: empty_store_def)
qed

theorem store_refines_values_witness:
  "replay value_op [(Create 0, 0)] Map.empty =
     Some (values_of \<lparr>cs_handles = {0}, cs_searches = {}, cs_fresh = 1,
       cs_objs = [0 \<mapsto> \<lparr>ho_h = Some 0, ho_nearest = None\<rparr>]\<rparr>)"
  using store_refines_values [OF sample_handle_exec] by blast

definition nat_eccodes :: "(nat, nat) eccodes" where
  "nat_eccodes =
     \<lparr>ec_new = \<lambda>m. Some 2, ec_get_double = \<lambda>h key. (0, Fin 1), ec_get_long = \<lambda>h key. (0, 1),
      ec_get_length = \<lambda>h key. (0, 4), ec_get_string = \<lambda>h key n. (0, []), ec_get_size = \<lambda>h key. (0, 2),
      ec_get_double_array = \<lambda>h key n. (0, [Fin 1, Fin 2], 2), ec_nearest_new = \<lambda>h. (0, Some 4),
      ec_nearest_find = \<lambda>near h lat lon. (0, 1, [Fin 10], [Fin 3]), ec_error_message = \<lambda>e. ''error''\<rparr>"

theorem nearest_on_store_witness:
  "\<exists>s' ob'. exec_op (Open_search 0 Search_ok) sample_store = Some s' \<and> cs_objs s' 0 = Some ob' \<and>
     snd (nearest nat_eccodes \<lparr>gh_h = Some 2, gh_nearest = None\<rparr> (Fin 40) (Fin 5)) = value_of ob'"
  using nearest_on_store [OF run_ops_reachable [OF start sample_run], of 0
      "\<lparr>ho_h = Some 2, ho_nearest = None\<rparr>" 2 "Fin 40" "Fin 5" nat_eccodes Search_ok 0]
  by (auto simp: sample_store_def good_coordinates_def nat_eccodes_def new_answer_def value_of_def
      simp del: exec_op.simps)

end
