(* ===== verification/Ecmwf_Spec.thy ===== *)
theory Ecmwf_Spec
  imports Ecmwf
begin

text \<open>
  What \<open>parse_ecmwf_index\<close> of \<open>src/models/sidecar.cpp\<close> accepts and what it returns, said without
  its branches: which number a JSON value is, which bytes and which record a line names, and which
  error the first line that names none gives.
\<close>

section \<open>JSON numbers\<close>

text \<open>A \<open>glz::generic_u64\<close> is a variant: it holds one alternative, and three of them are numbers.\<close>

definition generic_value :: "'j glaze \<Rightarrow> 'j \<Rightarrow> bool" where
  "generic_value G v \<longleftrightarrow>
     (gz_u64 G v = None \<or> gz_i64 G v = None) \<and> (gz_u64 G v = None \<or> gz_f64 G v = None) \<and>
     (gz_i64 G v = None \<or> gz_f64 G v = None) \<and>
     (gz_is_number G v \<longleftrightarrow> gz_u64 G v \<noteq> None \<or> gz_i64 G v \<noteq> None \<or> gz_f64 G v \<noteq> None)"

text \<open>The value is the natural number \<open>n\<close>; a double is believed below 2 ^ 53 only.\<close>

definition json_nat :: "'j glaze \<Rightarrow> 'j \<Rightarrow> nat \<Rightarrow> bool" where
  "json_nat G v n \<longleftrightarrow>
     (\<exists>w. gz_u64 G v = Some w \<and> unat w = n) \<or>
     (\<exists>w. gz_i64 G v = Some w \<and> sint w = int n) \<or>
     (\<exists>d. gz_f64 G v = Some d \<and> is_finite d \<and> num d = of_nat n \<and> n < 2 ^ 53)"

lemma exact_double_nat:
  assumes "is_finite d" and "num d = of_nat n" and "n < 2 ^ 53"
  shows "exact_double d" and "trunc_rat (num d) = int n"
proof -
  show t: "trunc_rat (num d) = int n" using assms(2) by (simp add: trunc_rat_def)
  have "(of_nat n :: rat) < of_nat (2 ^ 53)" using assms(3) by (simp only: of_nat_less_iff)
  then show "exact_double d"
    using assms(1,2) t by (cases d) (auto simp: exact_double_def less_eq_double_def double_eq_def)
qed

lemma json_nat_unique:
  assumes "generic_value G v" and "json_nat G v m" and "json_nat G v n"
  shows "m = n"
  using assms by (auto simp: generic_value_def json_nat_def)

lemma exact_u64_nat:
  assumes "generic_value G v"
  shows "exact_u64 G v = Some m \<longleftrightarrow> json_nat G v (unat m)"
proof
  assume "exact_u64 G v = Some m"
  from exact_u64_exact [OF this] show "json_nat G v (unat m)" by (auto simp: json_nat_def)
next
  assume n: "json_nat G v (unat m)"
  have "exact_double d" if "is_finite d" "num d = of_nat (unat m)" "unat m < 2 ^ 53" for d
    using exact_double_nat(1) that .
  then have "exact_u64 G v \<noteq> None"
    using n assms
    by (auto simp: json_nat_def generic_value_def exact_u64_def split: option.splits)
  then obtain m' where m': "exact_u64 G v = Some m'" by blast
  from exact_u64_exact [OF this] have "json_nat G v (unat m')" by (auto simp: json_nat_def)
  with n have "m' = m" using json_nat_unique [OF assms] by (metis unsigned_word_eqI)
  with m' show "exact_u64 G v = Some m" by simp
qed

section \<open>The record a line names\<close>

text \<open>A text that is an \<open>int\<close> in decimal, with one minus sign at most and nothing behind.\<close>

definition int_text :: "string \<Rightarrow> int \<Rightarrow> bool" where
  "int_text s m \<longleftrightarrow> int32_min \<le> m \<and> m \<le> int32_max \<and>
     (\<exists>ds. ds \<noteq> [] \<and> (\<forall>c \<in> set ds. is_digit c) \<and>
        (s = ds \<and> m = int (dec_val ds) \<or> s = CHR ''-'' # ds \<and> m = - int (dec_val ds)))"

lemma all_digits_span:
  "\<forall>c \<in> set ds. is_digit c \<Longrightarrow> takeWhile is_digit ds = ds \<and> dropWhile is_digit ds = []"
  by (simp add: takeWhile_eq_all_conv dropWhile_eq_Nil_conv)

lemma from_chars_int_whole: "from_chars_int s = Parsed m [] \<longleftrightarrow> int_text s m"
proof (cases "s \<noteq> [] \<and> hd s = CHR ''-''")
  case True
  then obtain ds where s: "s = CHR ''-'' # ds" by (cases s) auto
  have minus: "\<not> is_digit CHR ''-''" by (simp add: is_digit_def)
  show ?thesis
  proof (cases "\<forall>c \<in> set ds. is_digit c")
    case True
    note span = all_digits_span [OF True, THEN conjunct1] all_digits_span [OF True, THEN conjunct2]
    show ?thesis using True minus by (auto simp: s span from_chars_int_def int_text_def Let_def)
  next
    case False
    then have "dropWhile is_digit ds \<noteq> []" by (simp add: dropWhile_eq_Nil_conv)
    with False minus show ?thesis by (auto simp: s from_chars_int_def int_text_def Let_def)
  qed
next
  case False
  then have minus: "s \<noteq> CHR ''-'' # ds" for ds by auto
  show ?thesis
  proof (cases "\<forall>c \<in> set s. is_digit c")
    case True
    note span = all_digits_span [OF True, THEN conjunct1] all_digits_span [OF True, THEN conjunct2]
    show ?thesis using True False minus by (auto simp: span from_chars_int_def int_text_def Let_def)
  next
    case bad: False
    then have "dropWhile is_digit s \<noteq> []" by (simp add: dropWhile_eq_Nil_conv)
    with bad False minus show ?thesis by (auto simp: from_chars_int_def int_text_def Let_def)
  qed
qed

lemma whole_int_text: "int_text s m \<Longrightarrow> whole_int s = m"
proof -
  assume m: "int_text s m"
  then have "s \<noteq> []" by (auto simp: int_text_def)
  with m show ?thesis by (simp add: whole_int_def flip: from_chars_int_whole)
qed

lemma whole_int_none: "\<nexists>m. int_text s m \<Longrightarrow> whole_int s = - 1"
  by (auto simp: whole_int_def simp flip: from_chars_int_whole split: from_chars.splits)

text \<open>
  The member: 0 for the control run, otherwise the number when it is the text of an \<open>int\<close>,
  otherwise -1.
\<close>

definition control_run :: "'j glaze \<Rightarrow> 'j \<Rightarrow> bool" where
  "control_run G doc \<longleftrightarrow> (\<exists>v. gz_find G doc ''type'' = Some v \<and> gz_string G v = Some ''cf'')"

definition names_member :: "'j glaze \<Rightarrow> 'j \<Rightarrow> int \<Rightarrow> bool" where
  "names_member G doc m \<longleftrightarrow>
     (\<exists>v. gz_find G doc ''number'' = Some v \<and> int_text (generic_to_string G v) m)"

definition member_is :: "'j glaze \<Rightarrow> 'j \<Rightarrow> int \<Rightarrow> bool" where
  "member_is G doc m \<longleftrightarrow>
     (if control_run G doc then m = 0
      else names_member G doc m \<or> m = - 1 \<and> (\<nexists>n. names_member G doc n))"

lemma ecmwf_member_is: "ecmwf_member G doc = m \<longleftrightarrow> member_is G doc m"
proof (cases "control_run G doc")
  case True
  then show ?thesis
    by (auto simp: ecmwf_member_def member_is_def control_run_def split: option.splits)
next
  case False
  then have member: "ecmwf_member G doc =
      (case gz_find G doc ''number'' of Some n \<Rightarrow> whole_int (generic_to_string G n) | None \<Rightarrow> - 1)"
    by (auto simp: ecmwf_member_def control_run_def split: option.splits)
  show ?thesis
  proof (cases "\<exists>n. names_member G doc n")
    case True
    then obtain v n where v: "gz_find G doc ''number'' = Some v" "int_text (generic_to_string G v) n"
      by (auto simp: names_member_def)
    then have "ecmwf_member G doc = n" using member whole_int_text by simp
    moreover have "names_member G doc k \<longleftrightarrow> k = n" for k
      using v whole_int_text by (auto simp: names_member_def)
    ultimately show ?thesis using False by (auto simp: member_is_def)
  next
    case none: False
    then have "ecmwf_member G doc = - 1"
      using member whole_int_none by (auto simp: names_member_def split: option.splits)
    with none False show ?thesis by (auto simp: member_is_def)
  qed
qed

text \<open>
  The record \<open>e\<close> that a line names: its JSON object has natural numbers under \<open>_offset\<close> and
  \<open>_length\<close> whose range ends within 64 bits, and the other fields are what the object says.
\<close>

definition names_record :: "'j glaze \<Rightarrow> string \<Rightarrow> grib_index_entry \<Rightarrow> bool" where
  "names_record G line e \<longleftrightarrow>
     (\<exists>doc off len. gz_read G line = Some doc \<and> gz_is_object G doc \<and>
        gz_find G doc ''_offset'' = Some off \<and> gz_find G doc ''_length'' = Some len \<and>
        json_nat G off (unat (e_offset e)) \<and> json_nat G len (unat (e_length e)) \<and>
        (unat (e_length e) = 0 \<or> unat (e_offset e) + unat (e_length e) \<le> 2 ^ 64) \<and>
        e_raw e = line \<and> e_record e = 0 \<and> e_param e = field_text G doc ''param'' \<and>
        e_level e = ecmwf_level G doc \<and> e_step e = field_text G doc ''step'' \<and>
        member_is G doc (e_member e))"

text \<open>What is wrong with a line that names none.\<close>

definition has_number :: "'j glaze \<Rightarrow> 'j \<Rightarrow> string \<Rightarrow> bool" where
  "has_number G doc key \<longleftrightarrow> (\<exists>v. gz_find G doc key = Some v \<and> gz_is_number G v)"

definition line_fault :: "'j glaze \<Rightarrow> string \<Rightarrow> error" where
  "line_fault G line =
     (if \<exists>doc. gz_read G line = Some doc \<and> gz_is_object G doc \<and> has_number G doc ''_offset'' \<and>
        has_number G doc ''_length''
      then bad_range
      else if \<exists>doc. gz_read G line = Some doc \<and> gz_is_object G doc then missing_range line
      else bad_json line)"

lemma json_nat_number: "generic_value G v \<Longrightarrow> json_nat G v n \<Longrightarrow> gz_is_number G v"
  by (auto simp: generic_value_def json_nat_def)

lemma range_named:
  assumes "\<forall>v. generic_value G v"
  shows "ecmwf_range G doc line = Inr (o64, l64) \<longleftrightarrow>
    (\<exists>off len. gz_find G doc ''_offset'' = Some off \<and> gz_find G doc ''_length'' = Some len \<and>
       json_nat G off (unat o64) \<and> json_nat G len (unat l64) \<and>
       (unat l64 = 0 \<or> unat o64 + unat l64 \<le> 2 ^ 64))"
proof -
  have guard: "\<not> (0 < l64 \<and> u64_max - o64 < l64 - 1) \<longleftrightarrow> unat l64 = 0 \<or> unat o64 + unat l64 \<le> 2 ^ 64"
    by (subst range_guard_iff) auto
  have nat: "json_nat G v (unat w) \<longleftrightarrow> gz_is_number G v \<and> exact_u64 G v = Some w" for v w
    using exact_u64_nat [of G v w] json_nat_number [of G v "unat w"] assms by blast
  show ?thesis
    unfolding nat guard [symmetric] by (auto simp: ecmwf_range_def split: option.splits if_splits)
qed

lemma range_fault:
  assumes "gz_read G line = Some doc" and "gz_is_object G doc" and "ecmwf_range G doc line = Inl err"
  shows "err = line_fault G line"
  using assms
  by (auto simp: ecmwf_range_def line_fault_def has_number_def split: option.splits if_splits)

lemma names_record_code:
  assumes "\<forall>v. generic_value G v"
  shows "names_record G line e \<longleftrightarrow>
    (\<exists>doc. gz_read G line = Some doc \<and> gz_is_object G doc \<and>
       ecmwf_range G doc line = Inr (e_offset e, e_length e) \<and>
       e_raw e = line \<and> e_record e = 0 \<and> e_param e = field_text G doc ''param'' \<and>
       e_level e = ecmwf_level G doc \<and> e_step e = field_text G doc ''step'' \<and>
       ecmwf_member G doc = e_member e)"
  unfolding names_record_def range_named [OF assms] ecmwf_member_is by blast

lemma entry_named:
  assumes "\<forall>v. generic_value G v"
  shows "ecmwf_entry G line = Inr e \<longleftrightarrow> names_record G line e"
proof
  assume e: "ecmwf_entry G line = Inr e"
  then have "e_record e = 0"
    by (auto simp: ecmwf_entry_def new_entry_def split: option.splits if_splits sum.splits)
  then show "names_record G line e"
    unfolding names_record_code [OF assms] by (rule_tac ecmwf_entry_InrE [OF e]) simp
next
  assume "names_record G line e"
  then obtain doc where doc: "gz_read G line = Some doc" "gz_is_object G doc"
      "ecmwf_range G doc line = Inr (e_offset e, e_length e)"
    and fields: "e_raw e = line" "e_record e = 0" "e_param e = field_text G doc ''param''"
      "e_level e = ecmwf_level G doc" "e_step e = field_text G doc ''step''"
      "ecmwf_member G doc = e_member e"
    unfolding names_record_code [OF assms] by blast
  have "e = new_entry\<lparr>e_raw := line, e_offset := e_offset e, e_length := e_length e,
      e_param := field_text G doc ''param'', e_level := ecmwf_level G doc,
      e_step := field_text G doc ''step'', e_member := ecmwf_member G doc\<rparr>"
    using fields by (intro grib_index_entry.equality) (simp_all add: new_entry_def)
  then show "ecmwf_entry G line = Inr e" using doc by (simp add: ecmwf_entry_def)
qed

lemma entry_fault:
  assumes "ecmwf_entry G line = Inl err"
  shows "err = line_fault G line"
proof (cases "\<exists>doc. gz_read G line = Some doc \<and> gz_is_object G doc")
  case True
  then obtain doc where doc: "gz_read G line = Some doc" "gz_is_object G doc" by blast
  then have "ecmwf_range G doc line = Inl err"
    using assms by (simp add: ecmwf_entry_def split: sum.splits prod.splits)
  with doc show ?thesis by (rule range_fault)
next
  case False
  then show ?thesis
    using assms by (auto simp: ecmwf_entry_def line_fault_def split: option.splits if_splits)
qed

section \<open>Property\<close>

text \<open>
  C7: the ECMWF parser is exact. For any JSON library whose values hold one alternative,
  an index is parsed into entries exactly when these are, line by line, the records the lines
  name; numbers are taken for what they are mathematically and no accepted range ends beyond
  64 bits. Otherwise the error is a \<open>ParseError\<close> that says what is wrong with the first line
  that names no record.
\<close>

theorem ecmwf_index_exact:
  assumes "\<forall>v. generic_value G v"
  shows "(parse_ecmwf_index G text = Inr es \<longleftrightarrow> list_all2 (names_record G) (json_lines text) es) \<and>
    (parse_ecmwf_index G text = Inl err \<longleftrightarrow>
      (\<exists>good bad rest. json_lines text = good @ bad # rest \<and>
         (\<forall>l \<in> set good. \<exists>e. names_record G l e) \<and> (\<nexists>e. names_record G bad e) \<and>
         err = line_fault G bad \<and> err_code err = ParseError))"
proof -
  have good: "is_value (ecmwf_entry G l) \<longleftrightarrow> (\<exists>e. names_record G l e)" for l
    by (simp add: is_value_iff entry_named [OF assms])
  have "err_code (line_fault G l) = ParseError" for l by (simp add: line_fault_def)
  then have bad: "ecmwf_entry G l = Inl err \<longleftrightarrow>
      (\<nexists>e. names_record G l e) \<and> err = line_fault G l \<and> err_code err = ParseError" for l
    using entry_fault [of G l] good [of l] by (cases "ecmwf_entry G l") auto
  show ?thesis
    unfolding parse_ecmwf_index_collect collect_Inr collect_Inl entry_named [OF assms] good bad by simp
qed

lemma table_values: "generic_value (table_glaze docs) v"
  by (cases v) (simp_all add: generic_value_def table_glaze_def)

theorem ecmwf_index_exact_witness:
  "list_all2 (names_record (table_glaze sample_docs)) [''{cf}'', ''{pf}'']
     [new_entry\<lparr>e_raw := ''{cf}'', e_offset := 9000, e_length := 1000, e_param := ''2t'',
        e_level := ''sfc'', e_member := 0\<rparr>,
      new_entry\<lparr>e_raw := ''{pf}'', e_offset := 10000, e_length := 1000, e_param := ''2t'',
        e_level := ''sfc'', e_member := 12\<rparr>] \<and>
   parse_ecmwf_index (table_glaze []) ''{'' = Inl (bad_json ''{'')"
proof
  note sample = ecmwf_index_exact [OF allI [OF table_values], of sample_docs sample_index, THEN conjunct1]
  show "list_all2 (names_record (table_glaze sample_docs)) [''{cf}'', ''{pf}'']
     [new_entry\<lparr>e_raw := ''{cf}'', e_offset := 9000, e_length := 1000, e_param := ''2t'',
        e_level := ''sfc'', e_member := 0\<rparr>,
      new_entry\<lparr>e_raw := ''{pf}'', e_offset := 10000, e_length := 1000, e_param := ''2t'',
        e_level := ''sfc'', e_member := 12\<rparr>]"
    using sample unfolding sample_index_parse sample_index_lines by (rule iffD1) (rule refl)
next
  note broken = ecmwf_index_exact [OF allI [OF table_values], of "[]" "''{''", THEN conjunct2]
  have "json_lines ''{'' = [] @ ''{'' # []" by (simp add: json_lines_def split_fields strip_cr_def)
  moreover have "\<nexists>e. names_record (table_glaze []) ''{'' e"
    by (simp add: names_record_def table_glaze_def)
  moreover have "line_fault (table_glaze []) ''{'' = bad_json ''{''"
    by (simp add: line_fault_def table_glaze_def)
  moreover have "err_code (bad_json ''{'') = ParseError" by simp
  ultimately show "parse_ecmwf_index (table_glaze []) ''{'' = Inl (bad_json ''{'')"
    by (intro iffD2 [OF broken] exI [of _ "[]"] exI [of _ "''{''"] conjI) simp_all
qed

end
