(* ===== verification/Accessors.thy ===== *)
theory Accessors
  imports Grib_Handle
begin

text \<open>
  The four accessors of \<open>GribHandle\<close> in \<open>src/decode/handle.cpp\<close> against what a message stores:
  when they succeed, with which value, and which errors they return. The contents of a message
  are described by what ecCodes documents of its calls.
\<close>

section \<open>What a message stores\<close>

text \<open>
  The message has the text \<open>s\<close> under a key: the length ecCodes reports covers it, with or without
  its NUL, and a buffer with room for the text and a NUL receives both.
\<close>

definition stores_text :: "('h, 'n) eccodes \<Rightarrow> 'h \<Rightarrow> string \<Rightarrow> string \<Rightarrow> bool" where
  "stores_text E h key s \<longleftrightarrow>
     CHR 0x00 \<notin> set s \<and>
     (\<exists>sz. ec_get_length E h key = (0, sz) \<and> length s \<le> unat sz \<and> sz \<noteq> u64_max) \<and>
     (\<forall>n. length s < unat n \<longrightarrow> (\<exists>rest. ec_get_string E h key n = (0, s @ CHR 0x00 # rest)))"

text \<open>The message has the grid values \<open>vs\<close>: their number is reported and the array of it filled.\<close>

definition stores_values :: "('h, 'n) eccodes \<Rightarrow> 'h \<Rightarrow> double list \<Rightarrow> bool" where
  "stores_values E h vs \<longleftrightarrow>
     ec_get_size E h ''values'' = (0, length vs) \<and>
     ec_get_double_array E h ''values'' (length vs) = (0, vs, length vs)"

section \<open>The accessors on what is stored\<close>

lemma c_string_terminated: "CHR 0x00 \<notin> set s \<Longrightarrow> c_string (s @ CHR 0x00 # rest) = s"
  by (induction s) (auto simp: c_string_def)

lemma c_string_free: "CHR 0x00 \<notin> set (c_string b)"
  by (auto simp: c_string_def dest: set_takeWhileD)

lemma get_string_stored:
  assumes "gh_h g = Some h" and "\<not> bad_key key" and "stores_text E h key s"
  shows "get_string E g key = Inr s"
proof -
  obtain sz where sz: "ec_get_length E h key = (0, sz)" "length s \<le> unat sz" "sz \<noteq> u64_max"
    and free: "CHR 0x00 \<notin> set s" using assms(3) by (auto simp: stores_text_def)
  have "sz < u64_max" using sz(3) word_order.not_eq_extremum by blast
  then have "unat (sz + 1) = Suc (unat sz)" by (rule unat_succ)
  then obtain rest where "ec_get_string E h key (sz + 1) = (0, s @ CHR 0x00 # rest)"
    using assms(3) sz(2) unfolding stores_text_def by (metis le_imp_less_Suc Suc_eq_plus1)
  then show ?thesis using assms(1,2) sz free by (simp add: get_string_def c_string_terminated)
qed

lemma grid_values_stored:
  "gh_h g = Some h \<Longrightarrow> stores_values E h vs \<Longrightarrow> grid_values E g = Inr vs"
  by (simp add: grid_values_def stores_values_def resize_def)

lemma get_double_Inr:
  "get_double E g key = Inr v \<longleftrightarrow>
     (\<exists>h. gh_h g = Some h \<and> \<not> bad_key key \<and> ec_get_double E h key = (0, v))"
  by (auto simp: get_double_def split: option.splits prod.splits)

lemma get_long_Inr:
  "get_long E g key = Inr i \<longleftrightarrow>
     (\<exists>h. gh_h g = Some h \<and> \<not> bad_key key \<and> ec_get_long E h key = (0, i))"
  by (auto simp: get_long_def split: option.splits prod.splits)

lemma get_string_Inr:
  "get_string E g key = Inr s \<Longrightarrow> gh_h g \<noteq> None \<and> \<not> bad_key key \<and> CHR 0x00 \<notin> set s"
  using c_string_free by (auto simp: get_string_def split: option.splits prod.splits if_splits)

text \<open>No accessor has another error than \<open>DecodeError\<close>.\<close>

lemma accessor_errors:
  "get_double E g key = Inl e \<Longrightarrow> err_code e = DecodeError"
  "get_long E g key = Inl e \<Longrightarrow> err_code e = DecodeError"
  "get_string E g key = Inl e \<Longrightarrow> err_code e = DecodeError"
  "grid_values E g = Inl e \<Longrightarrow> err_code e = DecodeError"
  by (auto simp: get_double_def get_long_def get_string_def grid_values_def
      split: option.splits prod.splits if_splits)

section \<open>Property\<close>

text \<open>
  C25: the accessors give what the message stores and nothing else. A number is returned exactly
  when the handle has a message, the key has no NUL (which would cut it short in C) and ecCodes
  reads it; a stored text is returned whole and stored grid values in full; no text has a NUL
  in it; and every failure is a \<open>DecodeError\<close>.
\<close>

theorem accessors_exact:
  "(get_double E g key = Inr v \<longleftrightarrow>
      (\<exists>h. gh_h g = Some h \<and> CHR 0x00 \<notin> set key \<and> ec_get_double E h key = (0, v))) \<and>
    (get_long E g key = Inr i \<longleftrightarrow>
      (\<exists>h. gh_h g = Some h \<and> CHR 0x00 \<notin> set key \<and> ec_get_long E h key = (0, i))) \<and>
    (gh_h g = Some h \<and> CHR 0x00 \<notin> set key \<and> stores_text E h key s \<longrightarrow> get_string E g key = Inr s) \<and>
    (get_string E g key = Inr s' \<longrightarrow> gh_h g \<noteq> None \<and> CHR 0x00 \<notin> set key \<and> CHR 0x00 \<notin> set s') \<and>
    (gh_h g = Some h \<and> stores_values E h vs \<longrightarrow> grid_values E g = Inr vs) \<and>
    (get_double E g key = Inl e \<or> get_long E g key = Inl e \<or> get_string E g key = Inl e \<or>
       grid_values E g = Inl e \<longrightarrow> err_code e = DecodeError)"
  using get_string_stored [of g h key E s] get_string_Inr [of E g key s'] grid_values_stored [of g h E vs]
    accessor_errors(1-3) [of E g key e] accessor_errors(4) [of E g e]
  unfolding get_double_Inr get_long_Inr bad_key_def by blast

theorem accessors_exact_witness:
  "get_string sample_eccodes sample_handle ''shortName'' = Inr ''2t'' \<and>
   grid_values sample_eccodes sample_handle = Inr [Fin 1, Fin 2] \<and>
   get_double sample_eccodes sample_handle ''level'' = Inr (Fin 1)"
proof -
  have "stores_text sample_eccodes ''m'' ''shortName'' ''2t''"
    and "stores_values sample_eccodes ''m'' [Fin 1, Fin 2]"
    by (simp_all add: stores_text_def stores_values_def sample_eccodes_def)
  moreover have "gh_h sample_handle = Some ''m''" by (simp add: sample_handle_def)
  moreover have "ec_get_double sample_eccodes ''m'' ''level'' = (0, Fin 1)" by (simp add: sample_eccodes_def)
  ultimately show ?thesis
    using accessors_exact [of sample_eccodes sample_handle "''shortName''" _ _ "''m''" "''2t''" _ "[Fin 1, Fin 2]"]
      accessors_exact [of sample_eccodes sample_handle "''level''" "Fin 1"] by simp
qed

end
