(* ===== verification/Recovery.thy ===== *)
theory Recovery
  imports Pipeline
begin

text \<open>
  The retrying client against a server that fails for a while: the composition of
  \<open>src/core/retry.cpp\<close>, \<open>get_range\<close> and the server of \<open>Pipeline\<close>.
\<close>

section \<open>The retry that succeeds\<close>

text \<open>When exactly the first \<open>k\<close> calls are to be retried, the loop stops at call \<open>k\<close>.\<close>

lemma stops_at_unique:
  assumes "stops_at oper p budget s j" and "k < budget"
    and "\<forall>i < k. retryable p (outcome oper s i)" and "\<not> retryable p (outcome oper s k)"
  shows "j = k"
proof (rule ccontr)
  assume "j \<noteq> k"
  then consider "j < k" | "k < j" by linarith
  then show False
    using assms by cases (auto simp: stops_at_def)
qed

lemma rc_get_range_stops:
  assumes "k < unat (rp_max_attempts (rc_policy c))"
    and "\<forall>i < k. retryable (rc_policy c) (get_range (net (n + i)) (rc_client c) path off len)"
    and "\<not> retryable (rc_policy c) (get_range (net (n + k)) (rc_client c) path off len)"
  shows "rc_get_range net jit c path off len n =
    (get_range (net (n + k)) (rc_client c) path off len, n + k + 1, delays jit (rc_policy c) 1 k)"
proof -
  let ?f = "\<lambda>i. get_range (net i) (rc_client c) path off len"
  have "0 < rp_max_attempts (rc_policy c)" using assms(1) by (auto simp: word_gt_0)
  from with_retry_spec [OF this, of "\<lambda>i. (?f i, Suc i)" n jit]
  obtain j where j: "stops_at (\<lambda>i. (?f i, Suc i)) (rc_policy c) (unat (rp_max_attempts (rc_policy c))) n j"
    "rc_get_range net jit c path off len n = (?f (n + j), n + Suc j, delays jit (rc_policy c) 1 j)"
    by (auto simp: rc_get_range_def world_count outcome_count simp del: world.simps)
  have "j = k"
    using assms by (intro stops_at_unique [OF j(1)]) (simp_all add: outcome_count)
  then show ?thesis using j(2) by simp
qed

lemma partial_final: "hr_status r = 206 \<Longrightarrow> \<not> retryable p (Inr r)"
  by (simp add: retryable_def should_retry_response_def)

section \<open>Property\<close>

text \<open>
  C36: retrying recovers. When a range request fails with errors or responses that the policy
  retries fewer times than it has attempts, and a server that honours ranges then answers, the
  retrying client returns that answer, a 206 with exactly the bytes of the range (which have to be
  within the client's limit), after one request more than there were failures and after sleeping
  one delay per failure.
\<close>

theorem retrying_recovers:
  assumes "k < unat (rp_max_attempts (rc_policy c))"
    and "\<forall>i < k. retryable (rc_policy c) (get_range (net (n + i)) (rc_client c) path off len)"
    and "serves (net (n + k)) (rc_client c) path grib" and "\<not> range_overflows off len"
    and "unat off < length grib" and "length grib < 2 ^ 64"
    and "accepts_body (rc_client c) (length (file_slice grib off len))"
  shows "\<exists>r. perform (net (n + k)) (rc_client c) path (Some (range_text off len)) = Inr r \<and>
    hr_status r = 206 \<and> hr_body r = file_slice grib off len \<and>
    rc_get_range net jit c path off len n = (Inr r, n + k + 1, delays jit (rc_policy c) 1 k)"
proof -
  obtain r where "get_range (net (n + k)) (rc_client c) path off len = Inr r"
    "perform (net (n + k)) (rc_client c) path (Some (range_text off len)) = Inr r"
    "hr_status r = 206" "hr_body r = file_slice grib off len"
    using served_range [OF assms(3-7)] by (metis http_response.select_convs(1,2))
  then show ?thesis
    using rc_get_range_stops [OF assms(1,2), of jit] partial_final by simp
qed

section \<open>A concrete run\<close>

text \<open>A libcurl that cannot connect for the first request and serves a file from then on.\<close>

definition broken_curl :: curl_api where
  "broken_curl =
     \<lparr>ca_slist = True, ca_setopt = \<lambda>_. True,
      ca_transfer = \<lambda>_. \<lparr>tr_events = [], tr_code = 7, tr_status = None\<rparr>, ca_strerror = \<lambda>_. ''down''\<rparr>"

lemma broken_perform:
  assumes "is_absolute_url path" and "CHR 0x00 \<notin> set path"
  shows "perform broken_curl (Some sample_impl) path rng = Inl (err_network ''down'')"
proof -
  have "\<not> invalid_header (hc_user_agent default_config)"
    by (simp add: invalid_header_def default_config_def)
  then show ?thesis
    using assms
    by (simp add: perform_eq sample_impl_def broken_curl_def request_url_def find_char_None easy_perform_def
        CURLE_OPERATION_TIMEDOUT_def CURLE_OK_def list_all_iff Let_def default_config_def)
qed

theorem retrying_recovers_witness:
  "\<exists>r. hr_status r = 206 \<and> hr_body r = ''file'' \<and>
     rc_get_range (\<lambda>i. if i = 0 then broken_curl else file_curl [] ''GRIB file'')
       (\<lambda>_. unit_draw) (rc_new (Some sample_impl) default_policy) ''https://a/f'' 5 4 0 =
     (Inr r, 2, delays (\<lambda>_. unit_draw) default_policy 1 1)"
proof -
  let ?net = "\<lambda>i. if i = (0 :: nat) then broken_curl else file_curl [] ''GRIB file''"
  let ?c = "rc_new (Some sample_impl) default_policy"
  have url: "is_absolute_url ''https://a/f''"
    using is_absolute_url_intro [of "''https''" "''a/f''"] by (simp add: is_alpha_def scheme_chars_def)
  have c: "rc_policy ?c = default_policy" "rc_client ?c = Some sample_impl" by (simp_all add: rc_new_def)
  have free: "\<not> range_overflows 5 4" by (simp add: range_overflows_iff)
  have "1 < unat (rp_max_attempts (rc_policy ?c))" unfolding c by (simp add: default_policy_def)
  moreover have "\<forall>i < 1. retryable (rc_policy ?c) (get_range (?net (0 + i)) (rc_client ?c) ''https://a/f'' 5 4)"
    unfolding c using free broken_perform [OF url]
    by (simp add: get_range_eq retryable_def should_retry_error_def default_policy_def)
  moreover have "serves (?net (0 + 1)) (rc_client ?c) ''https://a/f'' ''GRIB file''"
    using file_curl_serves [OF url] by (simp add: c)
  moreover have "accepts_body (rc_client ?c) (length (file_slice ''GRIB file'' 5 4))"
    unfolding c by (simp add: accepts_body_def client_config_def sample_impl_def default_config_def file_slice_def)
  ultimately show ?thesis
    using retrying_recovers [of 1 ?c ?net 0 "''https://a/f''" 5 4 "''GRIB file''" "\<lambda>_. unit_draw"] free
    by (auto simp: c(1) file_slice_def)
qed

end
