(* ===== verification/Spec2Isabelle.thy ===== *)
theory Spec2Isabelle
  imports Nomads Ecmwf Grib_Handle Handle_Ownership Decoder_Init Extract Http_Client Byte_Range
    Retry Rate_Limit Limiter_Threads Curl_Runtime Pipeline Ecmwf_Pipeline Handle_Refinement
    Ecmwf_Spec Accessors Recovery
begin

text \<open>
  A model of grib-cpp, a C++23 library that reads single values out of weather files on public
  servers: fetch the small index of a file, pick a record, fetch just its bytes with an HTTP
  range request, decode the GRIB message and read the grid point nearest to a station.

  \<^bold>\<open>The parts and how they interact.\<close>  The sidecar parsers (\<open>src/models/sidecar.cpp\<close>) turn an index
  text into entries with byte ranges; \<open>select\<close> filters them. The HTTP client
  (\<open>src/http/client.cpp\<close>) fetches whole texts and byte ranges through libcurl. The decoder
  (\<open>src/decode/handle.cpp\<close>) finds GRIB messages in a buffer and wraps the handles of ecCodes; the
  extraction functions (\<open>src/api/extract.cpp\<close>) read stations out of a blob of messages. Retry
  (\<open>include/grib/retry.hpp\<close>, \<open>src/core/retry.cpp\<close>) repeats requests, the rate limiter
  (\<open>src/core/rate_limit.cpp\<close>) is a token bucket for callers with many threads, and the error type
  (\<open>include/grib/error.hpp\<close>, \<open>src/core/error.cpp\<close>) is what all of them return. The programs under
  \<open>examples/\<close> compose the parts.

  \<^bold>\<open>The theories.\<close>

  \<^item> \<open>Prelude\<close>: word types, the result sum \<open>error + 'a\<close> for \<open>std::expected\<close>, \<open>collect\<close> (the reference
    for loops that return at the first error), word arithmetic.
  \<^item> \<open>Traces\<close>: executions of labelled step relations, replay of events on a specification, and the
    locale \<open>simulation\<close> whose lemma is trace inclusion.
  \<^item> \<open>Text\<close>: \<open>std::string_view\<close> searches, \<open>to_string\<close>, \<open>from_chars\<close>; the locale \<open>decimal_codec\<close> is
    the contract of printing and reading, interpreted for \<open>uint64_t\<close> and \<open>int\<close>.
  \<^item> \<open>Binary64\<close>: \<open>double\<close> as IEEE 754 binary64 with round to nearest even, over the rationals.
  \<^item> \<open>Errors\<close>: \<open>ErrorCode\<close>, \<open>Error\<close>, its factories and \<open>from_response\<close>.
  \<^item> \<open>Sidecar\<close>: \<open>GribIndexEntry\<close>, \<open>GribSelector\<close>, \<open>select\<close>, \<open>split\<close>, \<open>to_u64\<close>; the locale \<open>tokenizer\<close>
    states what the parsers need of \<open>split\<close>.
  \<^item> \<open>Nomads\<close>: \<open>parse_nomads_member\<close> and both loops of \<open>parse_nomads_idx\<close>; a declarative
    specification, a printer with the round trip, the tiling of the byte ranges.
  \<^item> \<open>Ecmwf\<close>: \<open>exact_u64\<close>, \<open>generic_to_string\<close> and \<open>parse_ecmwf_index\<close> for any JSON library.
  \<^item> \<open>Ecmwf_Spec\<close>: which record a line of the index names, and the exactness of the parser: numbers at
    their mathematical value, the member text, and the error of the first bad line.
  \<^item> \<open>Message_Scan\<close>: \<open>find_message\<close> with every read of the buffer checked: memory safety, soundness,
    completeness, truncation.
  \<^item> \<open>Grib_Handle\<close>: the accessors and \<open>nearest\<close> of \<open>GribHandle\<close>, and \<open>GribFile\<close>, as functions on the
    values of the objects: the nearest candidate, the longitude, iteration, well-formedness.
  \<^item> \<open>Accessors\<close>: the four getters against what a message stores, and their errors.
  \<^item> \<open>Handle_Ownership\<close>: the C objects behind \<open>GribHandle\<close> in a store, for every sequence of
    constructions, moves, searches and destructions: no double free, no leak.
  \<^item> \<open>Handle_Refinement\<close>: the store of \<open>Handle_Ownership\<close> refines the value view of \<open>Grib_Handle\<close>: each
    operation on C objects is the operation on values, and \<open>nearest\<close> answers alike on both.
  \<^item> \<open>Decoder_Init\<close>: \<open>make_handle_serialized\<close>, the double-checked lock around the first decode, as a
    step relation on any number of threads: exclusion and progress.
  \<^item> \<open>Extract\<close>: the three extraction functions; the locale \<open>message_stream\<close> is the contract of a
    source of messages that ends, interpreted on \<open>GribFile::next\<close>.
  \<^item> \<open>Http_Client\<close>: the callbacks, \<open>perform\<close> with every early return, URL test and configuration:
    what a response contains, the body limit, which errors occur; \<open>perform_run\<close> also returns the
    requests it makes, so that the theories can say what is never sent.
  \<^item> \<open>Curl_Runtime\<close>: the static \<open>CurlRuntime\<close>, its use count, and the life of \<open>HttpClient\<close> objects:
    libcurl is never misused and is cleaned up once.
  \<^item> \<open>Byte_Range\<close>: \<open>get_range\<close>, its overflow check, the Range text and the check of Content-Range
    against a specification; \<open>get_range_run\<close> also returns the requests it makes.
  \<^item> \<open>Retry\<close>: what is retried, the delay in \<open>double\<close>, the loop with its 8-bit counter, the retrying
    client: results, bounds, total delay.
  \<^item> \<open>Rate_Limit\<close>: the token bucket with explicit clock readings; the locale \<open>metered\<close> is the
    contract of a source whose grants are paid for, interpreted on \<open>try_acquire\<close>.
  \<^item> \<open>Limiter_Threads\<close>: the limiter's operations cut into the steps between which other threads run,
    and the simulation of every interleaving by the sequential limiter; no reachable state is stuck.
  \<^item> \<open>Calendar\<close>: the date text in the paths of the example programs: \<open>gmtime_r\<close> and \<open>strftime\<close>, against
    the day formula of POSIX; a day has one date.
  \<^item> \<open>Pipeline\<close>, \<open>Ecmwf_Pipeline\<close>: the example programs, a server that answers range requests, and
    the end-to-end theorems.
  \<^item> \<open>Recovery\<close>: the retrying client against a server that fails for a while and then answers.

  \<^bold>\<open>Correspondence.\<close>  Definitions have the names of the code's functions where HOL allows it. A
  \<open>uint64_t\<close>, \<open>size_t\<close>, \<open>uint16_t\<close> or \<open>uint8_t\<close> that can overflow is a word; \<open>int\<close> and the
  \<open>std::chrono\<close> counts are integers with their limits written out; positions in a buffer that
  are below its length are naturals. Strings and byte buffers are character lists. Objects are
  records; an operation on an object returns it updated. Loops are structural recursions or
  \<open>function\<close>s with a measure; the two loops whose end depends on the environment
  (\<open>consume\<close> in \<open>Extract\<close>, \<open>acquire_until\<close> in \<open>Rate_Limit\<close>) are partial functions in the option
  type, and theorems show that they return. There is no fuel.

  \<^bold>\<open>Parameters.\<close>  Code that is not in the repository is an argument: \<open>eccodes\<close> (the C functions of
  ecCodes), \<open>glaze\<close> (the JSON library and \<open>std::to_chars\<close> on \<open>double\<close>), \<open>curl_api\<close> (what libcurl
  delivers to the callbacks and returns), the clock and the sleep of the limiter, the random
  draw of the jitter. Hypotheses about them are documented behaviour: a transfer passes pieces
  whose size is the announced one (\<open>event_ok\<close>), a server answers a range with its bytes and, among
  any other header fields, one Content-Range that names them and the length of the file, if the body
  is within the client's limit (\<open>serves\<close>, \<open>accepts_body\<close>), a JSON value holds one alternative
  (\<open>generic_value\<close>), a clock does not go back (\<open>clocks\<close>), a draw lies between its bounds
  (\<open>jitter_ok\<close>). Every theorem with a hypothesis has a witness on a concrete instance.

  \<^bold>\<open>Not modelled.\<close>  Tests, build files and tools; the umbrella header \<open>grib.hpp\<close> (includes only);
  \<open>RetryResult\<close>, which no code uses; the printing of the example programs; failures of memory
  allocation outside the libcurl callbacks; memory orders weaker than sequential consistency (the
  code's acquire/release pair and its mutexes do not need them).
\<close>

end
